theory Spec2Isabelle
  imports Main "HOL-Library.Word"
begin

section \<open>Common vocabulary\<close>

text \<open>
  The repository holds three revisions of the class template
  \<^verbatim>\<open>LockFreeQueue<QueueItemT, bufferSize>\<close>:

  \<^item> revision A: \<^verbatim>\<open>include/LockFreeQueue.h\<close>, lines 1 to 217
    (per-slot \<^verbatim>\<open>_isBusy\<close> flag, one counter \<^verbatim>\<open>_pendingData\<close>, \<^verbatim>\<open>bool push\<close>);
  \<^item> revision B: \<^verbatim>\<open>include/LockFreeQueue.h\<close>, lines 217 to 421
    (per-slot \<^verbatim>\<open>_isBusy\<close> flag, counters \<^verbatim>\<open>_pendingActions\<close> and \<^verbatim>\<open>_pendingData\<close>,
    \<^verbatim>\<open>bool push\<close>);
  \<^item> revision C: \<^verbatim>\<open>LockFreeQueue.h\<close>
    (per-slot \<^verbatim>\<open>_hasData\<close> flag, both counters, \<^verbatim>\<open>void push\<close>).

  Every definition carries the letter of the revision it embeds. The template
  parameter \<^verbatim>\<open>bufferSize\<close> is the explicit argument \<open>N\<close>; a \<^verbatim>\<open>std::array\<close> of that
  size is a list of length \<open>N\<close>. The indices \<^verbatim>\<open>_head\<close> and \<^verbatim>\<open>_tail\<close> are \<^verbatim>\<open>size_t\<close>;
  they are naturals here, since \<open>tail + 1\<close> cannot wrap while \<open>tail < N\<close>. The
  \<^verbatim>\<open>long long\<close> counters of revisions A and B are integers: no run brings them
  near the bounds of 64 bits (in revision A the counter is at most \<open>N - 1\<close> plus
  twice the number of threads). The \<^verbatim>\<open>size_t\<close> counters of revision C, which are
  decremented by adding \<open>-1\<close>, are 64-bit words.

  The member functions come first, each run by one thread with no other thread
  changing the queue during the call. Such a call has three possible results:
  it returns (\<open>Some (Inr r)\<close>), it throws (\<open>Some (Inl e)\<close>), or it spins forever
  (\<open>None\<close>). The steps of any number of threads of revision A, and of
  revision C, taken in any order, come after them. The effects of \<^verbatim>\<open>yield\<close> and
  \<^verbatim>\<open>sleep_for\<close> are not part of the model; the delay that \<^verbatim>\<open>backOff\<close> returns
  is. The atomic operations are taken in one global order; the memory orders of
  the source are not modelled.
\<close>

datatype error =
  OutOfRange \<comment> \<open>\<^verbatim>\<open>std::out_of_range\<close>, thrown by \<^verbatim>\<open>std::array::at\<close>\<close>
  | AssertionFailed \<comment> \<open>a failed \<^verbatim>\<open>assert\<close>\<close>

type_synonym 'r result = "(error + 'r) option"

definition at :: "'a list \<Rightarrow> nat \<Rightarrow> error + 'a" where
  "at xs i = (if i < length xs then Inr (xs ! i) else Inl OutOfRange)"

definition bindR :: "'r result \<Rightarrow> ('r \<Rightarrow> 'q result) \<Rightarrow> 'q result" where
  "bindR m f = (case m of None \<Rightarrow> None | Some (Inl e) \<Rightarrow> Some (Inl e) | Some (Inr r) \<Rightarrow> f r)"

text \<open>The members that all three revisions share.\<close>

record 'a ring =
  buffer :: "'a list"
  head :: nat
  tail :: nat
  canUpdate :: bool

text \<open>
  The slots from \<open>head\<close> up to, and excluding, \<open>tail\<close>, in ring order: the slots
  that a producer has claimed and no consumer has claimed yet.
\<close>

definition ringRange :: "nat \<Rightarrow> nat \<Rightarrow> nat \<Rightarrow> nat list" where
  "ringRange N h t = map (\<lambda>k. (h + k) mod N) [0 ..< (t + N - h) mod N]"

section \<open>Revision A\<close>

record 'a queueA = "'a ring" +
  isBusy :: "bool list"
  pendingData :: int

text \<open>The member initialisers, lines 202 to 207; \<open>d\<close> is the value-initialised item.\<close>

definition initA :: "nat \<Rightarrow> 'a \<Rightarrow> 'a queueA" where
  "initA N d = \<lparr>buffer = replicate N d, head = 0, tail = 0, canUpdate = True,
     isBusy = replicate N False, pendingData = 0\<rparr>"

definition sleepDurationStartA :: int where
  "sleepDurationStartA = - 10"

definition sleepDurationStepA :: int where
  "sleepDurationStepA = 1"

definition maxSleepDurationA :: int where
  "maxSleepDurationA = 1"

text \<open>\<^verbatim>\<open>backOff\<close>, lines 186 to 200.\<close>

definition backOffA :: "int \<Rightarrow> int" where
  "backOffA sleepDuration =
     (if sleepDuration < sleepDurationStepA then sleepDuration + sleepDurationStepA
      else if sleepDuration < maxSleepDurationA then sleepDuration + sleepDurationStepA
      else sleepDurationStartA)"

text \<open>
  The body of the critical section of \<^verbatim>\<open>push\<close>, lines 52 to 67, between the
  acquisition and the release of \<^verbatim>\<open>_canUpdate\<close>. It returns the locals
  \<^verbatim>\<open>pushIndex\<close> and \<^verbatim>\<open>keepTrying\<close> and the queue. Revision B has the same text at
  lines 268 to 283, hence the record scheme.
\<close>

definition claimPush ::
  "nat \<Rightarrow> ('a, 'm) queueA_scheme \<Rightarrow> error + (nat option \<times> bool \<times> ('a, 'm) queueA_scheme)" where
  "claimPush N s =
     (let newTail = (tail s + 1) mod N in
      if newTail \<noteq> head s then
        (case at (isBusy s) (tail s) of
           Inl e \<Rightarrow> Inl e
         | Inr wasBusy \<Rightarrow>
             (let s1 = s\<lparr>isBusy := (isBusy s)[tail s := True]\<rparr> in
              if \<not> wasBusy then Inr (Some (tail s1), False, s1\<lparr>tail := newTail\<rparr>)
              else Inr (None, True, s1)))
      else Inr (None, False, s))"

text \<open>
  The body of the critical section of \<^verbatim>\<open>pop\<close>, lines 124 to 142 (revision B:
  lines 338 to 356). It returns \<^verbatim>\<open>popIndex\<close>, \<^verbatim>\<open>keepTrying\<close> and the queue.
\<close>

definition claimPop ::
  "nat \<Rightarrow> ('a, 'm) queueA_scheme \<Rightarrow> error + (nat option \<times> bool \<times> ('a, 'm) queueA_scheme)" where
  "claimPop N s =
     (if head s \<noteq> tail s then
        (case at (isBusy s) (head s) of
           Inl e \<Rightarrow> Inl e
         | Inr wasBusy \<Rightarrow>
             (let s1 = s\<lparr>isBusy := (isBusy s)[head s := True]\<rparr> in
              if \<not> wasBusy then Inr (Some (head s1), False, s1\<lparr>head := (head s1 + 1) mod N\<rparr>)
              else Inr (None, True, s1)))
      else Inr (None, False, s))"

text \<open>
  One pass through the body of the \<^verbatim>\<open>do\<close> loop of \<^verbatim>\<open>push\<close>, lines 50 to 71:
  \<^verbatim>\<open>_canUpdate.exchange(false)\<close> enters the critical section when the flag was
  true, and leaves a false flag false.
\<close>

definition pushIterA :: "nat \<Rightarrow> 'a queueA \<Rightarrow> error + (nat option \<times> bool \<times> 'a queueA)" where
  "pushIterA N s =
     (if canUpdate s then
        (case claimPush N (s\<lparr>canUpdate := False\<rparr>) of
           Inl e \<Rightarrow> Inl e
         | Inr (pushIndex, keepTrying, s') \<Rightarrow> Inr (pushIndex, keepTrying, s'\<lparr>canUpdate := True\<rparr>))
      else Inr (None, True, s))"

definition popIterA :: "nat \<Rightarrow> 'a queueA \<Rightarrow> error + (nat option \<times> bool \<times> 'a queueA)" where
  "popIterA N s =
     (if canUpdate s then
        (case claimPop N (s\<lparr>canUpdate := False\<rparr>) of
           Inl e \<Rightarrow> Inl e
         | Inr (popIndex, keepTrying, s') \<Rightarrow> Inr (popIndex, keepTrying, s'\<lparr>canUpdate := True\<rparr>))
      else Inr (None, True, s))"

text \<open>The \<^verbatim>\<open>do ... while (keepTrying)\<close> loops, lines 48 to 76 and 120 to 151.\<close>

partial_function (option) pushLoopA ::
  "nat \<Rightarrow> 'a queueA \<Rightarrow> int \<Rightarrow> (error + (nat option \<times> 'a queueA)) option" where
  "pushLoopA N s sleepDuration =
     (case pushIterA N s of
        Inl e \<Rightarrow> Some (Inl e)
      | Inr (pushIndex, keepTrying, s') \<Rightarrow>
          if keepTrying then pushLoopA N s' (backOffA sleepDuration)
          else Some (Inr (pushIndex, s')))"

partial_function (option) popLoopA ::
  "nat \<Rightarrow> 'a queueA \<Rightarrow> int \<Rightarrow> (error + (nat option \<times> 'a queueA)) option" where
  "popLoopA N s sleepDuration =
     (case popIterA N s of
        Inl e \<Rightarrow> Some (Inl e)
      | Inr (popIndex, keepTrying, s') \<Rightarrow>
          if keepTrying then popLoopA N s' (backOffA sleepDuration)
          else Some (Inr (popIndex, s')))"

declare pushLoopA.simps [code]

declare popLoopA.simps [code]

text \<open>
  \<^verbatim>\<open>push\<close>, lines 36 to 95, in its three phases: the announcement (line 43), the
  loop, and the commit (lines 78 to 90) or the abort (lines 92 to 94).
\<close>

definition pushBeginA :: "'a queueA \<Rightarrow> 'a queueA" where
  "pushBeginA s = s\<lparr>pendingData := pendingData s + 2\<rparr>"

definition pushEndA :: "'a \<Rightarrow> nat option \<times> 'a queueA \<Rightarrow> (bool \<times> 'a queueA) result" where
  "pushEndA bufferItem r =
     (case r of
        (Some pushIndex, s) \<Rightarrow>
          (if pushIndex < length (buffer s) then
             (let s1 = s\<lparr>buffer := (buffer s)[pushIndex := bufferItem]\<rparr>;
                  s2 = s1\<lparr>pendingData := pendingData s1 - 1\<rparr>
              in if pushIndex < length (isBusy s2) then
                   Some (Inr (True, s2\<lparr>isBusy := (isBusy s2)[pushIndex := False]\<rparr>))
                 else Some (Inl OutOfRange))
           else Some (Inl OutOfRange))
      | (None, s) \<Rightarrow> Some (Inr (False, s\<lparr>pendingData := pendingData s - 2\<rparr>)))"

definition pushA :: "nat \<Rightarrow> 'a \<Rightarrow> 'a queueA \<Rightarrow> (bool \<times> 'a queueA) result" where
  "pushA N bufferItem s =
     bindR (pushLoopA N (pushBeginA s) sleepDurationStartA) (pushEndA bufferItem)"

text \<open>
  \<^verbatim>\<open>pop\<close>, lines 114 to 166. The reference parameter \<^verbatim>\<open>popedData\<close> is an argument
  and a component of the result: the second component is what the caller's
  variable holds when \<^verbatim>\<open>pop\<close> returns.
\<close>

definition popEndA :: "'a \<Rightarrow> nat option \<times> 'a queueA \<Rightarrow> (bool \<times> 'a \<times> 'a queueA) result" where
  "popEndA popedData r =
     (case r of
        (Some popIndex, s) \<Rightarrow>
          (case at (buffer s) popIndex of
             Inl e \<Rightarrow> Some (Inl e)
           | Inr v \<Rightarrow>
               (let s1 = s\<lparr>pendingData := pendingData s - 1\<rparr>
                in if popIndex < length (isBusy s1) then
                     Some (Inr (True, v, s1\<lparr>isBusy := (isBusy s1)[popIndex := False]\<rparr>))
                   else Some (Inl OutOfRange)))
      | (None, s) \<Rightarrow> Some (Inr (False, popedData, s)))"

definition popA :: "nat \<Rightarrow> 'a \<Rightarrow> 'a queueA \<Rightarrow> (bool \<times> 'a \<times> 'a queueA) result" where
  "popA N popedData s = bindR (popLoopA N s sleepDurationStartA) (popEndA popedData)"

text \<open>\<^verbatim>\<open>hasData\<close>, lines 172 to 174.\<close>

definition hasDataA :: "('a, 'm) queueA_scheme \<Rightarrow> bool" where
  "hasDataA s = (pendingData s \<noteq> 0)"

text \<open>
  The slots that hold a committed value no consumer has claimed: those between
  \<open>head\<close> and \<open>tail\<close> whose flag the producer has released.
\<close>

definition committedA :: "nat \<Rightarrow> ('a, 'm) queueA_scheme \<Rightarrow> nat" where
  "committedA N s = length (filter (\<lambda>i. \<not> isBusy s ! i) (ringRange N (head s) (tail s)))"

section \<open>Revision B\<close>

record 'a queueB = "'a queueA" +
  pendingActions :: int

text \<open>The member initialisers, lines 412 to 420.\<close>

definition initB :: "nat \<Rightarrow> 'a \<Rightarrow> 'a queueB" where
  "initB N d = \<lparr>buffer = replicate N d, head = 0, tail = 0, canUpdate = True,
     isBusy = replicate N False, pendingData = 0, pendingActions = 0\<rparr>"

definition sleepDurationStepB :: int where
  "sleepDurationStepB = 1"

definition maxSleepDurationB :: int where
  "maxSleepDurationB = 100"

text \<open>\<^verbatim>\<open>backOff\<close>, lines 400 to 410.\<close>

definition backOffB :: "int \<Rightarrow> int" where
  "backOffB sleepDuration =
     (if sleepDuration < maxSleepDurationB then sleepDuration + sleepDurationStepB
      else sleepDuration)"

text \<open>
  \<^verbatim>\<open>while (!_canUpdate.exchange(false)) { }\<close>, lines 266 and 336 (revision C:
  lines 31 and 68): the exchange leaves a false flag false, and the loop then
  runs again on the same state.
\<close>

partial_function (option) acquire :: "('a, 'm) ring_scheme \<Rightarrow> ('a, 'm) ring_scheme option" where
  "acquire s = (if canUpdate s then Some (s\<lparr>canUpdate := False\<rparr>) else acquire s)"

declare acquire.simps [code]

text \<open>The \<^verbatim>\<open>do ... while (keepTrying)\<close> loops, lines 264 to 291 and 334 to 364.\<close>

partial_function (option) pushLoopB ::
  "nat \<Rightarrow> 'a queueB \<Rightarrow> int \<Rightarrow> (error + (nat option \<times> 'a queueB)) option" where
  "pushLoopB N s sleepDuration =
     (case acquire s of
        None \<Rightarrow> None
      | Some s0 \<Rightarrow>
          (case claimPush N s0 of
             Inl e \<Rightarrow> Some (Inl e)
           | Inr (pushIndex, keepTrying, s1) \<Rightarrow>
               if keepTrying then pushLoopB N (s1\<lparr>canUpdate := True\<rparr>) (backOffB sleepDuration)
               else Some (Inr (pushIndex, s1\<lparr>canUpdate := True\<rparr>))))"

partial_function (option) popLoopB ::
  "nat \<Rightarrow> 'a queueB \<Rightarrow> int \<Rightarrow> (error + (nat option \<times> 'a queueB)) option" where
  "popLoopB N s sleepDuration =
     (case acquire s of
        None \<Rightarrow> None
      | Some s0 \<Rightarrow>
          (case claimPop N s0 of
             Inl e \<Rightarrow> Some (Inl e)
           | Inr (popIndex, keepTrying, s1) \<Rightarrow>
               if keepTrying then popLoopB N (s1\<lparr>canUpdate := True\<rparr>) (backOffB sleepDuration)
               else Some (Inr (popIndex, s1\<lparr>canUpdate := True\<rparr>))))"

declare pushLoopB.simps [code]

declare popLoopB.simps [code]

text \<open>\<^verbatim>\<open>push\<close>, lines 252 to 309.\<close>

definition pushBeginB :: "'a queueB \<Rightarrow> 'a queueB" where
  "pushBeginB s = (let s1 = s\<lparr>pendingActions := pendingActions s + 2\<rparr>
                   in s1\<lparr>pendingData := pendingData s1 + 1\<rparr>)"

definition pushEndB :: "'a \<Rightarrow> nat option \<times> 'a queueB \<Rightarrow> (bool \<times> 'a queueB) result" where
  "pushEndB bufferItem r =
     (case r of
        (Some pushIndex, s) \<Rightarrow>
          (if pushIndex < length (buffer s) then
             (let s1 = s\<lparr>buffer := (buffer s)[pushIndex := bufferItem]\<rparr>;
                  s2 = s1\<lparr>pendingActions := pendingActions s1 + (- 1)\<rparr>
              in if pushIndex < length (isBusy s2) then
                   Some (Inr (True, s2\<lparr>isBusy := (isBusy s2)[pushIndex := False]\<rparr>))
                 else Some (Inl OutOfRange))
           else Some (Inl OutOfRange))
      | (None, s) \<Rightarrow>
          (let s1 = s\<lparr>pendingActions := pendingActions s + (- 2)\<rparr>
           in Some (Inr (False, s1\<lparr>pendingData := pendingData s1 + (- 1)\<rparr>))))"

definition pushB :: "nat \<Rightarrow> 'a \<Rightarrow> 'a queueB \<Rightarrow> (bool \<times> 'a queueB) result" where
  "pushB N bufferItem s = bindR (pushLoopB N (pushBeginB s) 0) (pushEndB bufferItem)"

text \<open>\<^verbatim>\<open>pop\<close>, lines 328 to 380.\<close>

definition popEndB :: "'a \<Rightarrow> nat option \<times> 'a queueB \<Rightarrow> (bool \<times> 'a \<times> 'a queueB) result" where
  "popEndB popedData r =
     (case r of
        (Some popIndex, s) \<Rightarrow>
          (case at (buffer s) popIndex of
             Inl e \<Rightarrow> Some (Inl e)
           | Inr v \<Rightarrow>
               (let s1 = s\<lparr>pendingActions := pendingActions s + (- 1)\<rparr>;
                    s2 = s1\<lparr>pendingData := pendingData s1 + (- 1)\<rparr>
                in if popIndex < length (isBusy s2) then
                     Some (Inr (True, v, s2\<lparr>isBusy := (isBusy s2)[popIndex := False]\<rparr>))
                   else Some (Inl OutOfRange)))
      | (None, s) \<Rightarrow> Some (Inr (False, popedData, s)))"

definition popB :: "nat \<Rightarrow> 'a \<Rightarrow> 'a queueB \<Rightarrow> (bool \<times> 'a \<times> 'a queueB) result" where
  "popB N popedData s = bindR (popLoopB N s 0) (popEndB popedData)"

text \<open>\<^verbatim>\<open>hasData\<close> and \<^verbatim>\<open>hasWork\<close>, lines 382 to 388.\<close>

definition hasDataB :: "'a queueB \<Rightarrow> bool" where
  "hasDataB s = (pendingData s \<noteq> 0)"

definition hasWorkB :: "'a queueB \<Rightarrow> bool" where
  "hasWorkB s = (pendingActions s \<noteq> 0)"

section \<open>Revision C\<close>

text \<open>
  The array \<^verbatim>\<open>_hasData\<close> is the field \<open>hasData\<close>; the member functions \<^verbatim>\<open>hasData\<close>
  and \<^verbatim>\<open>hasWork\<close> are \<open>hasDataC\<close> and \<open>hasWorkC\<close>.
\<close>

record 'a queueC = "'a ring" +
  hasData :: "bool list"
  pendingActionsC :: "64 word"
  pendingDataC :: "64 word"

text \<open>The member initialisers, lines 134 to 142.\<close>

definition initC :: "nat \<Rightarrow> 'a \<Rightarrow> 'a queueC" where
  "initC N d = \<lparr>buffer = replicate N d, head = 0, tail = 0, canUpdate = True,
     hasData = replicate N False, pendingActionsC = 0, pendingDataC = 0\<rparr>"

definition sleepDurationStepC :: int where
  "sleepDurationStepC = 1"

definition maxSleepDurationC :: int where
  "maxSleepDurationC = 100"

text \<open>\<^verbatim>\<open>backOff\<close>, lines 123 to 132.\<close>

definition backOffC :: "int \<Rightarrow> int" where
  "backOffC sleepDuration =
     (if sleepDuration < maxSleepDurationC then sleepDuration + sleepDurationStepC
      else sleepDuration)"

text \<open>
  The body of the critical section of \<^verbatim>\<open>push\<close>, lines 33 to 42. The result
  \<open>Some i\<close> is \<^verbatim>\<open>pushIndex = i\<close> with \<^verbatim>\<open>keepTrying = false\<close>; \<open>None\<close> leaves
  \<^verbatim>\<open>keepTrying\<close> true. The operator \<^verbatim>\<open>&&\<close> reads \<^verbatim>\<open>_hasData\<close> only when the queue
  is not full.
\<close>

definition claimPushC :: "nat \<Rightarrow> 'a queueC \<Rightarrow> error + (nat option \<times> 'a queueC)" where
  "claimPushC N s =
     (let newTail = (tail s + 1) mod N in
      if newTail \<noteq> head s then
        (case at (hasData s) (tail s) of
           Inl e \<Rightarrow> Inl e
         | Inr full \<Rightarrow>
             if \<not> full then Inr (Some (tail s), s\<lparr>tail := newTail\<rparr>)
             else Inr (None, s))
      else Inr (None, s))"

text \<open>
  The body of the critical section of \<^verbatim>\<open>pop\<close>, lines 70 to 87; it returns
  \<^verbatim>\<open>popIndex\<close>, \<^verbatim>\<open>keepTrying\<close> and the queue.
\<close>

definition claimPopC :: "nat \<Rightarrow> 'a queueC \<Rightarrow> error + (nat option \<times> bool \<times> 'a queueC)" where
  "claimPopC N s =
     (if head s \<noteq> tail s then
        (case at (hasData s) (head s) of
           Inl e \<Rightarrow> Inl e
         | Inr full \<Rightarrow>
             if full then Inr (Some (head s), False, s\<lparr>head := (head s + 1) mod N\<rparr>)
             else Inr (None, True, s))
      else Inr (None, False, s))"

text \<open>The \<^verbatim>\<open>do ... while (keepTrying)\<close> loops, lines 30 to 50 and 67 to 95.\<close>

partial_function (option) pushLoopC ::
  "nat \<Rightarrow> 'a queueC \<Rightarrow> int \<Rightarrow> (error + (nat \<times> 'a queueC)) option" where
  "pushLoopC N s sleepDuration =
     (case acquire s of
        None \<Rightarrow> None
      | Some s0 \<Rightarrow>
          (case claimPushC N s0 of
             Inl e \<Rightarrow> Some (Inl e)
           | Inr (None, s1) \<Rightarrow> pushLoopC N (s1\<lparr>canUpdate := True\<rparr>) (backOffC sleepDuration)
           | Inr (Some pushIndex, s1) \<Rightarrow> Some (Inr (pushIndex, s1\<lparr>canUpdate := True\<rparr>))))"

partial_function (option) popLoopC ::
  "nat \<Rightarrow> 'a queueC \<Rightarrow> int \<Rightarrow> (error + (nat option \<times> 'a queueC)) option" where
  "popLoopC N s sleepDuration =
     (case acquire s of
        None \<Rightarrow> None
      | Some s0 \<Rightarrow>
          (case claimPopC N s0 of
             Inl e \<Rightarrow> Some (Inl e)
           | Inr (popIndex, keepTrying, s1) \<Rightarrow>
               if keepTrying then popLoopC N (s1\<lparr>canUpdate := True\<rparr>) (backOffC sleepDuration)
               else Some (Inr (popIndex, s1\<lparr>canUpdate := True\<rparr>))))"

declare pushLoopC.simps [code]

declare popLoopC.simps [code]

text \<open>\<^verbatim>\<open>push\<close>, lines 20 to 59; it returns no value.\<close>

definition pushBeginC :: "'a queueC \<Rightarrow> 'a queueC" where
  "pushBeginC s = s\<lparr>pendingActionsC := pendingActionsC s + 2\<rparr>"

definition pushEndC :: "'a \<Rightarrow> nat \<times> 'a queueC \<Rightarrow> (unit \<times> 'a queueC) result" where
  "pushEndC bufferItem r =
     (case r of (pushIndex, s) \<Rightarrow>
        (if pushIndex < length (buffer s) then
           (let s1 = s\<lparr>buffer := (buffer s)[pushIndex := bufferItem]\<rparr>;
                s2 = s1\<lparr>pendingDataC := pendingDataC s1 + 1\<rparr>;
                s3 = s2\<lparr>pendingActionsC := pendingActionsC s2 + (- 1)\<rparr>
            in if pushIndex < length (hasData s3) then
                 Some (Inr ((), s3\<lparr>hasData := (hasData s3)[pushIndex := True]\<rparr>))
               else Some (Inl OutOfRange))
         else Some (Inl OutOfRange)))"

definition pushC :: "nat \<Rightarrow> 'a \<Rightarrow> 'a queueC \<Rightarrow> (unit \<times> 'a queueC) result" where
  "pushC N bufferItem s = bindR (pushLoopC N (pushBeginC s) 0) (pushEndC bufferItem)"

text \<open>\<^verbatim>\<open>pop\<close>, lines 61 to 112, with its two assertions.\<close>

definition popEndC :: "'a \<Rightarrow> nat option \<times> 'a queueC \<Rightarrow> (bool \<times> 'a \<times> 'a queueC) result" where
  "popEndC popedData r =
     (case r of
        (Some popIndex, s) \<Rightarrow>
          (case at (buffer s) popIndex of
             Inl e \<Rightarrow> Some (Inl e)
           | Inr v \<Rightarrow>
               (if popIndex < length (hasData s) then
                  (let s1 = s\<lparr>hasData := (hasData s)[popIndex := False]\<rparr> in
                   if \<not> 0 < pendingDataC s1 then Some (Inl AssertionFailed)
                   else
                     (let s2 = s1\<lparr>pendingDataC := pendingDataC s1 + (- 1)\<rparr> in
                      if \<not> 0 < pendingActionsC s2 then Some (Inl AssertionFailed)
                      else Some (Inr (True, v,
                             s2\<lparr>pendingActionsC := pendingActionsC s2 + (- 1)\<rparr>))))
                else Some (Inl OutOfRange)))
      | (None, s) \<Rightarrow> Some (Inr (False, popedData, s)))"

definition popC :: "nat \<Rightarrow> 'a \<Rightarrow> 'a queueC \<Rightarrow> (bool \<times> 'a \<times> 'a queueC) result" where
  "popC N popedData s = bindR (popLoopC N s 0) (popEndC popedData)"

text \<open>\<^verbatim>\<open>hasData\<close> and \<^verbatim>\<open>hasWork\<close>, lines 114 to 120.\<close>

definition hasDataC :: "'a queueC \<Rightarrow> bool" where
  "hasDataC s = (0 < pendingDataC s)"

definition hasWorkC :: "'a queueC \<Rightarrow> bool" where
  "hasWorkC s = (0 < pendingActionsC s)"

section \<open>The state of a slot\<close>

text \<open>
  No revision stores the state of a slot in one place: it is read off the
  slot's flag and the two indices. In revisions A and B a slot between \<open>head\<close>
  and \<open>tail\<close> is claimed by a producer while its \<^verbatim>\<open>_isBusy\<close> flag is set, and holds
  a readable value once the flag is clear; a slot outside is claimed by a
  consumer while its flag is set, and free once the flag is clear. In revision C
  a slot between \<open>head\<close> and \<open>tail\<close> is claimed by a producer until its \<^verbatim>\<open>_hasData\<close>
  flag is set, and readable from then on; a slot outside is claimed by a
  consumer while its flag is still set, and free once the flag is cleared.
\<close>

datatype slotState = SlotFree | ClaimedByProducer | Readable | ClaimedByConsumer

definition slotStateA :: "nat \<Rightarrow> ('a, 'm) queueA_scheme \<Rightarrow> nat \<Rightarrow> slotState" where
  "slotStateA N s i =
     (if i \<in> set (ringRange N (head s) (tail s))
      then (if isBusy s ! i then ClaimedByProducer else Readable)
      else (if isBusy s ! i then ClaimedByConsumer else SlotFree))"

definition slotStateC :: "nat \<Rightarrow> 'a queueC \<Rightarrow> nat \<Rightarrow> slotState" where
  "slotStateC N s i =
     (if i \<in> set (ringRange N (head s) (tail s))
      then (if hasData s ! i then Readable else ClaimedByProducer)
      else (if hasData s ! i then ClaimedByConsumer else SlotFree))"

section \<open>A single caller\<close>

text \<open>
  A sequence of calls made one after the other by one thread, as the loops of
  the test harness make them; each \<^verbatim>\<open>pop\<close> is given a fresh, value-initialised
  variable \<open>d\<close>.
\<close>

datatype 'a call = Push 'a | Pop

datatype 'a reply = PushReturned bool | PopReturned bool 'a

fun runA :: "nat \<Rightarrow> 'a \<Rightarrow> 'a call list \<Rightarrow> 'a queueA \<Rightarrow> ('a reply list \<times> 'a queueA) result" where
  "runA N d [] s = Some (Inr ([], s))"
| "runA N d (Push x # cs) s =
     bindR (pushA N x s) (\<lambda>(ok, s').
       bindR (runA N d cs s') (\<lambda>(rs, s''). Some (Inr (PushReturned ok # rs, s''))))"
| "runA N d (Pop # cs) s =
     bindR (popA N d s) (\<lambda>(ok, v, s').
       bindR (runA N d cs s') (\<lambda>(rs, s''). Some (Inr (PopReturned ok v # rs, s''))))"

text \<open>The states a fresh queue reaches through calls that have returned.\<close>

inductive reachableA :: "nat \<Rightarrow> 'a \<Rightarrow> 'a queueA \<Rightarrow> bool" for N :: nat and d :: 'a where
  fresh: "reachableA N d (initA N d)"
| afterPush: "reachableA N d s \<Longrightarrow> pushA N x s = Some (Inr (ok, s')) \<Longrightarrow> reachableA N d s'"
| afterPop: "reachableA N d s \<Longrightarrow> popA N p s = Some (Inr (ok, v, s')) \<Longrightarrow> reachableA N d s'"

text \<open>
  What holds of revision A between the calls of a single caller: the exclusion
  flag is free, both indices are in range, no slot is busy, and the counter is
  the distance from \<open>head\<close> to \<open>tail\<close>.
\<close>

definition invA :: "nat \<Rightarrow> 'a queueA \<Rightarrow> bool" where
  "invA N s = (canUpdate s \<and> head s < N \<and> tail s < N \<and> length (buffer s) = N \<and>
     isBusy s = replicate N False \<and> pendingData s = int ((tail s + N - head s) mod N))"

text \<open>The same for revision B, whose second counter follows the first.\<close>

inductive reachableB :: "nat \<Rightarrow> 'a \<Rightarrow> 'a queueB \<Rightarrow> bool" for N :: nat and d :: 'a where
  freshB: "reachableB N d (initB N d)"
| afterPushB: "reachableB N d s \<Longrightarrow> pushB N x s = Some (Inr (ok, s')) \<Longrightarrow> reachableB N d s'"
| afterPopB: "reachableB N d s \<Longrightarrow> popB N p s = Some (Inr (ok, v, s')) \<Longrightarrow> reachableB N d s'"

definition invB :: "nat \<Rightarrow> 'a queueB \<Rightarrow> bool" where
  "invB N s = (canUpdate s \<and> head s < N \<and> tail s < N \<and> length (buffer s) = N \<and>
     isBusy s = replicate N False \<and> pendingData s = int ((tail s + N - head s) mod N) \<and>
     pendingActions s = int ((tail s + N - head s) mod N))"

text \<open>
  Revision C: the slots that hold a committed, unread value are those whose
  \<^verbatim>\<open>_hasData\<close> flag is set; the states a single caller reaches; and what holds
  between its calls: slot \<open>i\<close> is flagged exactly when its distance from \<open>head\<close> is
  less than the distance from \<open>head\<close> to \<open>tail\<close>, and both counters are that
  distance.
\<close>

definition committedC :: "'a queueC \<Rightarrow> nat" where
  "committedC s = length (filter (\<lambda>b. b) (hasData s))"

inductive reachableC :: "nat \<Rightarrow> 'a \<Rightarrow> 'a queueC \<Rightarrow> bool" for N :: nat and d :: 'a where
  freshC: "reachableC N d (initC N d)"
| afterPushC: "reachableC N d s \<Longrightarrow> pushC N x s = Some (Inr ((), s')) \<Longrightarrow> reachableC N d s'"
| afterPopC: "reachableC N d s \<Longrightarrow> popC N p s = Some (Inr (ok, v, s')) \<Longrightarrow> reachableC N d s'"

definition invC :: "nat \<Rightarrow> 'a queueC \<Rightarrow> bool" where
  "invC N s = (canUpdate s \<and> head s < N \<and> tail s < N \<and> length (buffer s) = N \<and>
     hasData s = map (\<lambda>i. (i + N - head s) mod N < (tail s + N - head s) mod N) [0 ..< N] \<and>
     committedC s = (tail s + N - head s) mod N \<and>
     pendingDataC s = of_nat ((tail s + N - head s) mod N) \<and>
     pendingActionsC s = of_nat ((tail s + N - head s) mod N))"

section \<open>Interleaved threads (revision A)\<close>

text \<open>
  Any number of threads call \<^verbatim>\<open>push\<close> and \<^verbatim>\<open>pop\<close> of revision A on one queue.
  Each thread is at one of the following points of its call; the arguments are
  its locals (\<^verbatim>\<open>bufferItem\<close>, \<^verbatim>\<open>sleepDuration\<close>, the claimed index, the item read).
\<close>

datatype 'a pcA =
  Idle \<comment> \<open>between calls\<close>
  | Pushing 'a int \<comment> \<open>in \<^verbatim>\<open>push\<close>, after line 43, before a pass through the loop\<close>
  | PushClaimed 'a nat \<comment> \<open>the loop has ended with an index; before line 80\<close>
  | PushWritten nat \<comment> \<open>before line 82\<close>
  | PushCounted nat \<comment> \<open>before line 87\<close>
  | PushFull \<comment> \<open>the loop has ended with no index; before line 92\<close>
  | Popping int \<comment> \<open>in \<^verbatim>\<open>pop\<close>, before a pass through the loop\<close>
  | PopClaimed nat \<comment> \<open>the loop has ended with an index; before line 155\<close>
  | PopRead nat 'a \<comment> \<open>before line 157\<close>
  | PopCounted nat 'a \<comment> \<open>before line 160\<close>

type_synonym 'a sysA = "'a queueA \<times> 'a pcA list"

text \<open>
  One step of one thread \<open>t\<close>. A pass through the body of a loop (\<open>pushIterA\<close>,
  \<open>popIterA\<close>) is one step: it enters and leaves the critical section, so the
  exclusion flag is free between steps, and inside it reads and writes \<open>head\<close>
  and \<open>tail\<close>, which no step outside a critical section touches, and makes a
  single access to a slot's flag. The accesses after the loop (the item, the
  counter, the release of the slot) are steps of their own, in the order of the
  source. A pass that throws leaves its thread where it is.
\<close>

inductive stepA :: "nat \<Rightarrow> 'a sysA \<Rightarrow> 'a sysA \<Rightarrow> bool" for N :: nat where
  callPush: "t < length ts \<Longrightarrow> ts ! t = Idle \<Longrightarrow>
    stepA N (s, ts) (pushBeginA s, ts[t := Pushing x sleepDurationStartA])"
| pushPassClaimed: "t < length ts \<Longrightarrow> ts ! t = Pushing x sd \<Longrightarrow>
    pushIterA N s = Inr (Some i, False, s') \<Longrightarrow>
    stepA N (s, ts) (s', ts[t := PushClaimed x i])"
| pushPassFull: "t < length ts \<Longrightarrow> ts ! t = Pushing x sd \<Longrightarrow>
    pushIterA N s = Inr (None, False, s') \<Longrightarrow>
    stepA N (s, ts) (s', ts[t := PushFull])"
| pushPassRetry: "t < length ts \<Longrightarrow> ts ! t = Pushing x sd \<Longrightarrow>
    pushIterA N s = Inr (r, True, s') \<Longrightarrow>
    stepA N (s, ts) (s', ts[t := Pushing x (backOffA sd)])"
| pushWrite: "t < length ts \<Longrightarrow> ts ! t = PushClaimed x i \<Longrightarrow> i < length (buffer s) \<Longrightarrow>
    stepA N (s, ts) (s\<lparr>buffer := (buffer s)[i := x]\<rparr>, ts[t := PushWritten i])"
| pushCount: "t < length ts \<Longrightarrow> ts ! t = PushWritten i \<Longrightarrow>
    stepA N (s, ts) (s\<lparr>pendingData := pendingData s - 1\<rparr>, ts[t := PushCounted i])"
| pushRelease: "t < length ts \<Longrightarrow> ts ! t = PushCounted i \<Longrightarrow> i < length (isBusy s) \<Longrightarrow>
    stepA N (s, ts) (s\<lparr>isBusy := (isBusy s)[i := False]\<rparr>, ts[t := Idle])"
| pushAbort: "t < length ts \<Longrightarrow> ts ! t = PushFull \<Longrightarrow>
    stepA N (s, ts) (s\<lparr>pendingData := pendingData s - 2\<rparr>, ts[t := Idle])"
| callPop: "t < length ts \<Longrightarrow> ts ! t = Idle \<Longrightarrow>
    stepA N (s, ts) (s, ts[t := Popping sleepDurationStartA])"
| popPassClaimed: "t < length ts \<Longrightarrow> ts ! t = Popping sd \<Longrightarrow>
    popIterA N s = Inr (Some i, False, s') \<Longrightarrow>
    stepA N (s, ts) (s', ts[t := PopClaimed i])"
| popPassEmpty: "t < length ts \<Longrightarrow> ts ! t = Popping sd \<Longrightarrow>
    popIterA N s = Inr (None, False, s') \<Longrightarrow>
    stepA N (s, ts) (s', ts[t := Idle])"
| popPassRetry: "t < length ts \<Longrightarrow> ts ! t = Popping sd \<Longrightarrow>
    popIterA N s = Inr (r, True, s') \<Longrightarrow>
    stepA N (s, ts) (s', ts[t := Popping (backOffA sd)])"
| popRead: "t < length ts \<Longrightarrow> ts ! t = PopClaimed i \<Longrightarrow> i < length (buffer s) \<Longrightarrow>
    stepA N (s, ts) (s, ts[t := PopRead i (buffer s ! i)])"
| popCount: "t < length ts \<Longrightarrow> ts ! t = PopRead i v \<Longrightarrow>
    stepA N (s, ts) (s\<lparr>pendingData := pendingData s - 1\<rparr>, ts[t := PopCounted i v])"
| popRelease: "t < length ts \<Longrightarrow> ts ! t = PopCounted i v \<Longrightarrow> i < length (isBusy s) \<Longrightarrow>
    stepA N (s, ts) (s\<lparr>isBusy := (isBusy s)[i := False]\<rparr>, ts[t := Idle])"

text \<open>The states that \<open>n\<close> threads reach from a fresh queue, in any order of steps.\<close>

inductive interleavedA :: "nat \<Rightarrow> 'a \<Rightarrow> nat \<Rightarrow> 'a sysA \<Rightarrow> bool"
  for N :: nat and d :: 'a and n :: nat where
  start: "interleavedA N d n (initA N d, replicate n Idle)"
| step: "interleavedA N d n c \<Longrightarrow> stepA N c c' \<Longrightarrow> interleavedA N d n c'"

text \<open>
  What a thread has added to \<^verbatim>\<open>_pendingData\<close> and not yet taken back, beyond the
  values it has committed; the slot it owns as a producer; the slot it owns as a
  consumer.
\<close>

fun pendingA :: "'a pcA \<Rightarrow> int" where
  "pendingA (Pushing x sd) = 2"
| "pendingA (PushClaimed x i) = 2"
| "pendingA (PushWritten i) = 2"
| "pendingA (PushCounted i) = 1"
| "pendingA PushFull = 2"
| "pendingA (PopClaimed i) = 1"
| "pendingA (PopRead i v) = 1"
| "pendingA pc = 0"

fun producerSlot :: "'a pcA \<Rightarrow> nat option" where
  "producerSlot (PushClaimed x i) = Some i"
| "producerSlot (PushWritten i) = Some i"
| "producerSlot (PushCounted i) = Some i"
| "producerSlot pc = None"

fun consumerSlot :: "'a pcA \<Rightarrow> nat option" where
  "consumerSlot (PopClaimed i) = Some i"
| "consumerSlot (PopRead i v) = Some i"
| "consumerSlot (PopCounted i v) = Some i"
| "consumerSlot pc = None"

definition ownedSlot :: "'a pcA \<Rightarrow> nat option" where
  "ownedSlot pc = (case producerSlot pc of Some i \<Rightarrow> Some i | None \<Rightarrow> consumerSlot pc)"

text \<open>
  What holds of every interleaved state: the shape of the queue; a producer's
  slot lies between \<open>head\<close> and \<open>tail\<close> and a consumer's slot does not, and both are
  flagged; no two threads own the same slot; and the counter is the number of
  committed slots plus what the threads have pending.
\<close>

definition shapeA :: "nat \<Rightarrow> 'a queueA \<Rightarrow> bool" where
  "shapeA N s = (canUpdate s \<and> head s < N \<and> tail s < N \<and> length (buffer s) = N \<and>
     length (isBusy s) = N)"

definition ownsA :: "nat \<Rightarrow> 'a queueA \<Rightarrow> 'a pcA \<Rightarrow> bool" where
  "ownsA N s pc =
     ((case producerSlot pc of None \<Rightarrow> True
       | Some i \<Rightarrow> i \<in> set (ringRange N (head s) (tail s)) \<and> isBusy s ! i) \<and>
      (case consumerSlot pc of None \<Rightarrow> True
       | Some i \<Rightarrow> i < N \<and> i \<notin> set (ringRange N (head s) (tail s)) \<and> isBusy s ! i))"

definition exclusiveA :: "'a pcA list \<Rightarrow> bool" where
  "exclusiveA ts = (\<forall>t u. t < length ts \<and> u < length ts \<and> t \<noteq> u \<and> ownedSlot (ts ! t) \<noteq> None \<longrightarrow>
     ownedSlot (ts ! t) \<noteq> ownedSlot (ts ! u))"

definition invSysA :: "nat \<Rightarrow> 'a sysA \<Rightarrow> bool" where
  "invSysA N c = (case c of (s, ts) \<Rightarrow>
     shapeA N s \<and> list_all (ownsA N s) ts \<and> exclusiveA ts \<and>
     pendingData s = int (committedA N s) + sum_list (map pendingA ts))"

section \<open>Interleaved threads (revision C)\<close>

text \<open>
  One pass through the body of the \<^verbatim>\<open>do\<close> loop of \<^verbatim>\<open>push\<close> (lines 31 to 44) and of
  \<^verbatim>\<open>pop\<close> (lines 68 to 90) of revision C: the thread waits for the exclusion
  flag, runs the critical section, and frees the flag. These are the bodies of
  \<open>pushLoopC\<close> and \<open>popLoopC\<close>.
\<close>

definition pushPassC :: "nat \<Rightarrow> 'a queueC \<Rightarrow> (error + (nat option \<times> 'a queueC)) option" where
  "pushPassC N s =
     (case acquire s of
        None \<Rightarrow> None
      | Some s0 \<Rightarrow>
          (case claimPushC N s0 of
             Inl e \<Rightarrow> Some (Inl e)
           | Inr (pushIndex, s1) \<Rightarrow> Some (Inr (pushIndex, s1\<lparr>canUpdate := True\<rparr>))))"

definition popPassC ::
  "nat \<Rightarrow> 'a queueC \<Rightarrow> (error + (nat option \<times> bool \<times> 'a queueC)) option" where
  "popPassC N s =
     (case acquire s of
        None \<Rightarrow> None
      | Some s0 \<Rightarrow>
          (case claimPopC N s0 of
             Inl e \<Rightarrow> Some (Inl e)
           | Inr (popIndex, keepTrying, s1) \<Rightarrow>
               Some (Inr (popIndex, keepTrying, s1\<lparr>canUpdate := True\<rparr>))))"

text \<open>
  The points of a call at which a thread of revision C can be, with its locals.
\<close>

datatype 'a pcC =
  IdleC \<comment> \<open>between calls\<close>
  | PushingC 'a int \<comment> \<open>in \<^verbatim>\<open>push\<close>, after line 27, before a pass through the loop\<close>
  | PushClaimedC 'a nat \<comment> \<open>the loop has ended with an index; before line 52\<close>
  | PushWrittenC nat \<comment> \<open>before line 54\<close>
  | PushCountedC nat \<comment> \<open>before line 56\<close>
  | PushDoneC nat \<comment> \<open>before line 58\<close>
  | PoppingC int \<comment> \<open>in \<^verbatim>\<open>pop\<close>, before a pass through the loop\<close>
  | PopClaimedC nat \<comment> \<open>the loop has ended with an index; before line 99\<close>
  | PopReadC nat 'a \<comment> \<open>before line 100\<close>
  | PopClearedC 'a \<comment> \<open>before the assertion of line 102\<close>
  | PopCheckedC 'a \<comment> \<open>before line 103\<close>
  | PopCountedC 'a \<comment> \<open>before the assertion of line 105\<close>
  | PopCheckedWorkC 'a \<comment> \<open>before line 106\<close>

type_synonym 'a sysC = "'a queueC \<times> 'a pcC list"

text \<open>
  One step of one thread \<open>t\<close> of revision C. As for revision A, a pass through
  the body of a loop is one step, and each access after the loop is a step of
  its own, in the order of the source. An assertion is a step that only a true
  condition allows: a failed assertion ends the program, a pass that throws
  leaves its thread where it is.
\<close>

inductive stepC :: "nat \<Rightarrow> 'a sysC \<Rightarrow> 'a sysC \<Rightarrow> bool" for N :: nat where
  callPushC: "t < length ts \<Longrightarrow> ts ! t = IdleC \<Longrightarrow>
    stepC N (s, ts) (pushBeginC s, ts[t := PushingC x 0])"
| pushPassClaimedC: "t < length ts \<Longrightarrow> ts ! t = PushingC x sd \<Longrightarrow>
    pushPassC N s = Some (Inr (Some i, s')) \<Longrightarrow>
    stepC N (s, ts) (s', ts[t := PushClaimedC x i])"
| pushPassRetryC: "t < length ts \<Longrightarrow> ts ! t = PushingC x sd \<Longrightarrow>
    pushPassC N s = Some (Inr (None, s')) \<Longrightarrow>
    stepC N (s, ts) (s', ts[t := PushingC x (backOffC sd)])"
| pushWriteC: "t < length ts \<Longrightarrow> ts ! t = PushClaimedC x i \<Longrightarrow> i < length (buffer s) \<Longrightarrow>
    stepC N (s, ts) (s\<lparr>buffer := (buffer s)[i := x]\<rparr>, ts[t := PushWrittenC i])"
| pushCountC: "t < length ts \<Longrightarrow> ts ! t = PushWrittenC i \<Longrightarrow>
    stepC N (s, ts) (s\<lparr>pendingDataC := pendingDataC s + 1\<rparr>, ts[t := PushCountedC i])"
| pushDoneC: "t < length ts \<Longrightarrow> ts ! t = PushCountedC i \<Longrightarrow>
    stepC N (s, ts) (s\<lparr>pendingActionsC := pendingActionsC s + (- 1)\<rparr>, ts[t := PushDoneC i])"
| pushCommitC: "t < length ts \<Longrightarrow> ts ! t = PushDoneC i \<Longrightarrow> i < length (hasData s) \<Longrightarrow>
    stepC N (s, ts) (s\<lparr>hasData := (hasData s)[i := True]\<rparr>, ts[t := IdleC])"
| callPopC: "t < length ts \<Longrightarrow> ts ! t = IdleC \<Longrightarrow>
    stepC N (s, ts) (s, ts[t := PoppingC 0])"
| popPassClaimedC: "t < length ts \<Longrightarrow> ts ! t = PoppingC sd \<Longrightarrow>
    popPassC N s = Some (Inr (Some i, False, s')) \<Longrightarrow>
    stepC N (s, ts) (s', ts[t := PopClaimedC i])"
| popPassEmptyC: "t < length ts \<Longrightarrow> ts ! t = PoppingC sd \<Longrightarrow>
    popPassC N s = Some (Inr (None, False, s')) \<Longrightarrow>
    stepC N (s, ts) (s', ts[t := IdleC])"
| popPassRetryC: "t < length ts \<Longrightarrow> ts ! t = PoppingC sd \<Longrightarrow>
    popPassC N s = Some (Inr (r, True, s')) \<Longrightarrow>
    stepC N (s, ts) (s', ts[t := PoppingC (backOffC sd)])"
| popReadC: "t < length ts \<Longrightarrow> ts ! t = PopClaimedC i \<Longrightarrow> i < length (buffer s) \<Longrightarrow>
    stepC N (s, ts) (s, ts[t := PopReadC i (buffer s ! i)])"
| popClearC: "t < length ts \<Longrightarrow> ts ! t = PopReadC i v \<Longrightarrow> i < length (hasData s) \<Longrightarrow>
    stepC N (s, ts) (s\<lparr>hasData := (hasData s)[i := False]\<rparr>, ts[t := PopClearedC v])"
| popCheckDataC: "t < length ts \<Longrightarrow> ts ! t = PopClearedC v \<Longrightarrow> 0 < pendingDataC s \<Longrightarrow>
    stepC N (s, ts) (s, ts[t := PopCheckedC v])"
| popCountC: "t < length ts \<Longrightarrow> ts ! t = PopCheckedC v \<Longrightarrow>
    stepC N (s, ts) (s\<lparr>pendingDataC := pendingDataC s + (- 1)\<rparr>, ts[t := PopCountedC v])"
| popCheckWorkC: "t < length ts \<Longrightarrow> ts ! t = PopCountedC v \<Longrightarrow> 0 < pendingActionsC s \<Longrightarrow>
    stepC N (s, ts) (s, ts[t := PopCheckedWorkC v])"
| popDoneC: "t < length ts \<Longrightarrow> ts ! t = PopCheckedWorkC v \<Longrightarrow>
    stepC N (s, ts) (s\<lparr>pendingActionsC := pendingActionsC s + (- 1)\<rparr>, ts[t := IdleC])"

inductive interleavedC :: "nat \<Rightarrow> 'a \<Rightarrow> nat \<Rightarrow> 'a sysC \<Rightarrow> bool"
  for N :: nat and d :: 'a and n :: nat where
  startC: "interleavedC N d n (initC N d, replicate n IdleC)"
| stepC: "interleavedC N d n c \<Longrightarrow> stepC N c c' \<Longrightarrow> interleavedC N d n c'"

text \<open>
  The slot a thread owns as a producer (from its claim to line 58, which sets
  the flag) and as a consumer (from its claim to line 100, which clears it).
\<close>

fun producerSlotC :: "'a pcC \<Rightarrow> nat option" where
  "producerSlotC (PushClaimedC x i) = Some i"
| "producerSlotC (PushWrittenC i) = Some i"
| "producerSlotC (PushCountedC i) = Some i"
| "producerSlotC (PushDoneC i) = Some i"
| "producerSlotC pc = None"

fun consumerSlotC :: "'a pcC \<Rightarrow> nat option" where
  "consumerSlotC (PopClaimedC i) = Some i"
| "consumerSlotC (PopReadC i v) = Some i"
| "consumerSlotC pc = None"

definition ownedSlotC :: "'a pcC \<Rightarrow> nat option" where
  "ownedSlotC pc = (case producerSlotC pc of Some i \<Rightarrow> Some i | None \<Rightarrow> consumerSlotC pc)"

text \<open>
  The slots of revision C that hold a committed value no consumer has claimed:
  those between \<open>head\<close> and \<open>tail\<close> whose flag the producer has set.
\<close>

definition readableC :: "nat \<Rightarrow> 'a queueC \<Rightarrow> nat" where
  "readableC N s = length (filter (\<lambda>i. hasData s ! i) (ringRange N (head s) (tail s)))"

text \<open>
  What holds of every interleaved state of revision C: the shape of the queue;
  a producer's slot lies between \<open>head\<close> and \<open>tail\<close> with its flag clear, a
  consumer's slot lies outside with its flag set; no two threads own the same
  slot; and every flagged slot outside \<open>head\<close> and \<open>tail\<close> is the slot of a
  consumer.
\<close>

definition shapeC :: "nat \<Rightarrow> 'a queueC \<Rightarrow> bool" where
  "shapeC N s = (canUpdate s \<and> head s < N \<and> tail s < N \<and> length (buffer s) = N \<and>
     length (hasData s) = N)"

definition ownsC :: "nat \<Rightarrow> 'a queueC \<Rightarrow> 'a pcC \<Rightarrow> bool" where
  "ownsC N s pc =
     ((case producerSlotC pc of None \<Rightarrow> True
       | Some i \<Rightarrow> i \<in> set (ringRange N (head s) (tail s)) \<and> \<not> hasData s ! i) \<and>
      (case consumerSlotC pc of None \<Rightarrow> True
       | Some i \<Rightarrow> i < N \<and> i \<notin> set (ringRange N (head s) (tail s)) \<and> hasData s ! i))"

definition exclusiveC :: "'a pcC list \<Rightarrow> bool" where
  "exclusiveC ts = (\<forall>t u. t < length ts \<and> u < length ts \<and> t \<noteq> u \<and> ownedSlotC (ts ! t) \<noteq> None \<longrightarrow>
     ownedSlotC (ts ! t) \<noteq> ownedSlotC (ts ! u))"

definition beingReadC :: "nat \<Rightarrow> 'a sysC \<Rightarrow> bool" where
  "beingReadC N c = (case c of (s, ts) \<Rightarrow>
     (\<forall>i < N. hasData s ! i \<and> i \<notin> set (ringRange N (head s) (tail s)) \<longrightarrow>
        (\<exists>t < length ts. consumerSlotC (ts ! t) = Some i)))"

definition invSysC :: "nat \<Rightarrow> 'a sysC \<Rightarrow> bool" where
  "invSysC N c = (case c of (s, ts) \<Rightarrow>
     shapeC N s \<and> list_all (ownsC N s) ts \<and> exclusiveC ts \<and> beingReadC N (s, ts))"

section \<open>The values stored and not yet claimed\<close>

text \<open>
  The number of values that pushes have committed and no pop has claimed, as a
  run makes it: it starts at 0, a step adds 1 when it is a producer's commit
  (revision A: line 87, the release of the slot; revision C: line 58, the
  setting of the flag), and takes 1 away when it is the pass of a consumer that
  claims a slot. It is a count of steps, and no function of the queue.
\<close>

fun storedA :: "'a pcA \<Rightarrow> 'a pcA \<Rightarrow> int" where
  "storedA (PushCounted i) Idle = 1"
| "storedA (Popping sd) (PopClaimed i) = - 1"
| "storedA pc pc' = 0"

inductive occupancyA :: "nat \<Rightarrow> 'a \<Rightarrow> nat \<Rightarrow> 'a sysA \<Rightarrow> int \<Rightarrow> bool"
  for N :: nat and d :: 'a and n :: nat where
  startO: "occupancyA N d n (initA N d, replicate n Idle) 0"
| stepO: "occupancyA N d n (s, ts) k \<Longrightarrow> stepA N (s, ts) (s', ts') \<Longrightarrow>
    occupancyA N d n (s', ts') (k + sum_list (map2 storedA ts ts'))"

fun storedC :: "'a pcC \<Rightarrow> 'a pcC \<Rightarrow> int" where
  "storedC (PushDoneC i) IdleC = 1"
| "storedC (PoppingC sd) (PopClaimedC i) = - 1"
| "storedC pc pc' = 0"

inductive occupancyC :: "nat \<Rightarrow> 'a \<Rightarrow> nat \<Rightarrow> 'a sysC \<Rightarrow> int \<Rightarrow> bool"
  for N :: nat and d :: 'a and n :: nat where
  startOC: "occupancyC N d n (initC N d, replicate n IdleC) 0"
| stepOC: "occupancyC N d n (s, ts) k \<Longrightarrow> stepC N (s, ts) (s', ts') \<Longrightarrow>
    occupancyC N d n (s', ts') (k + sum_list (map2 storedC ts ts'))"

section \<open>The delay of a retry loop\<close>

text \<open>
  The local \<^verbatim>\<open>sleepDuration\<close> of a thread that is in a retry loop: what its next
  call of \<^verbatim>\<open>backOff\<close> is given.
\<close>

fun loopDelayA :: "'a pcA \<Rightarrow> int option" where
  "loopDelayA (Pushing x sd) = Some sd"
| "loopDelayA (Popping sd) = Some sd"
| "loopDelayA pc = None"

fun loopDelayC :: "'a pcC \<Rightarrow> int option" where
  "loopDelayC (PushingC x sd) = Some sd"
| "loopDelayC (PoppingC sd) = Some sd"
| "loopDelayC pc = None"

section \<open>Revision A: the calls of a single caller\<close>

lemma pushLoopA_exit:
  "pushIterA N s = Inr (i, False, s') \<Longrightarrow> pushLoopA N s d = Some (Inr (i, s'))"
  by (subst pushLoopA.simps) simp

lemma popLoopA_exit:
  "popIterA N s = Inr (i, False, s') \<Longrightarrow> popLoopA N s d = Some (Inr (i, s'))"
  by (subst popLoopA.simps) simp

lemma claimPush_full:
  "(tail s + 1) mod N = head s \<Longrightarrow> claimPush N s = Inr (None, False, s)"
  by (simp add: claimPush_def)

lemma claimPush_free:
  "(tail s + 1) mod N \<noteq> head s \<Longrightarrow> tail s < length (isBusy s) \<Longrightarrow> \<not> isBusy s ! tail s \<Longrightarrow>
   claimPush N s = Inr (Some (tail s), False,
     s\<lparr>isBusy := (isBusy s)[tail s := True], tail := (tail s + 1) mod N\<rparr>)"
  by (simp add: claimPush_def at_def Let_def)

lemma claimPush_busy:
  "(tail s + 1) mod N \<noteq> head s \<Longrightarrow> tail s < length (isBusy s) \<Longrightarrow> isBusy s ! tail s \<Longrightarrow>
   claimPush N s = Inr (None, True, s)"
  by (simp add: claimPush_def at_def Let_def list_update_same_conv)

lemma pushA_full:
  "canUpdate s \<Longrightarrow> (tail s + 1) mod N = head s \<Longrightarrow> pushA N x s = Some (Inr (False, s))"
  by (simp add: pushA_def pushBeginA_def bindR_def pushEndA_def
      pushLoopA_exit [where i = None and s' = "s\<lparr>pendingData := pendingData s + 2\<rparr>"]
      pushIterA_def claimPush_full)

lemma pushA_free:
  "canUpdate s \<Longrightarrow> (tail s + 1) mod N \<noteq> head s \<Longrightarrow> tail s < length (isBusy s) \<Longrightarrow>
   tail s < length (buffer s) \<Longrightarrow> \<not> isBusy s ! tail s \<Longrightarrow>
   pushA N x s = Some (Inr (True, s\<lparr>buffer := (buffer s)[tail s := x],
      tail := (tail s + 1) mod N, pendingData := pendingData s + 1\<rparr>))"
  apply (simp add: pushA_def pushBeginA_def)
  apply (subst pushLoopA_exit [where i = "Some (tail s)" and s' = "s\<lparr>pendingData := pendingData s + 2, isBusy := (isBusy s)[tail s := True], tail := (tail s + 1) mod N\<rparr>"])
   apply (simp add: pushIterA_def claimPush_free)
  apply (simp add: list_update_same_conv bindR_def pushEndA_def)
  done


lemma claimPop_empty:
  "head s = tail s \<Longrightarrow> claimPop N s = Inr (None, False, s)"
  by (simp add: claimPop_def)

lemma claimPop_ready:
  "head s \<noteq> tail s \<Longrightarrow> head s < length (isBusy s) \<Longrightarrow> \<not> isBusy s ! head s \<Longrightarrow>
   claimPop N s = Inr (Some (head s), False,
     s\<lparr>isBusy := (isBusy s)[head s := True], head := (head s + 1) mod N\<rparr>)"
  by (simp add: claimPop_def at_def Let_def)

lemma claimPop_busy:
  "head s \<noteq> tail s \<Longrightarrow> head s < length (isBusy s) \<Longrightarrow> isBusy s ! head s \<Longrightarrow>
   claimPop N s = Inr (None, True, s)"
  by (simp add: claimPop_def at_def Let_def list_update_same_conv)

lemma popA_empty:
  "canUpdate s \<Longrightarrow> head s = tail s \<Longrightarrow> popA N p s = Some (Inr (False, p, s))"
  by (simp add: popA_def bindR_def popEndA_def
      popLoopA_exit [where i = None and s' = s] popIterA_def claimPop_empty)

lemma popA_ready:
  "canUpdate s \<Longrightarrow> head s \<noteq> tail s \<Longrightarrow> head s < length (isBusy s) \<Longrightarrow>
   head s < length (buffer s) \<Longrightarrow> \<not> isBusy s ! head s \<Longrightarrow>
   popA N p s = Some (Inr (True, buffer s ! head s,
      s\<lparr>head := (head s + 1) mod N, pendingData := pendingData s - 1\<rparr>))"
  apply (simp add: popA_def)
  apply (subst popLoopA_exit [where i = "Some (head s)" and s' = "s\<lparr>isBusy := (isBusy s)[head s := True], head := (head s + 1) mod N\<rparr>"])
   apply (simp add: popIterA_def claimPop_ready)
  apply (simp add: list_update_same_conv bindR_def popEndA_def at_def)
  done

lemma mod_window: "N \<le> a \<Longrightarrow> a < 2 * N \<Longrightarrow> a mod N = a - (N::nat)"
  by (simp add: le_mod_geq)

lemma ring_occupancy_push:
  assumes "h < (N::nat)" "t < N" "(t + 1) mod N \<noteq> h"
  shows "((t + 1) mod N + N - h) mod N = (t + N - h) mod N + 1"
proof (cases "t + 1 = N")
  case True
  with assms have "0 < h" by (cases h) auto
  with assms True have "(t + N - h) mod N = t + N - h - N"
    by (intro mod_window) auto
  moreover from assms True \<open>0 < h\<close> have "(N - h) mod N = N - h" by simp
  ultimately show ?thesis using True assms \<open>0 < h\<close> by simp
next
  case False
  with assms have lt: "t + 1 < N" by simp
  show ?thesis
  proof (cases "h \<le> t")
    case True
    with assms lt have "(t + 1 + N - h) mod N = t + 1 + N - h - N" "(t + N - h) mod N = t + N - h - N"
      by (intro mod_window; simp)+
    with lt True show ?thesis by simp
  next
    case False
    with assms lt have "t + 1 < h" by simp
    with assms lt show ?thesis by simp
  qed
qed

lemma ring_occupancy_pop:
  assumes "h < (N::nat)" "t < N" "h \<noteq> t"
  shows "(t + N - (h + 1) mod N) mod N + 1 = (t + N - h) mod N"
proof (cases "h + 1 = N")
  case True
  with assms have "t < h" by simp
  with assms True show ?thesis by simp
next
  case False
  with assms have lt: "h + 1 < N" by simp
  show ?thesis
  proof (cases "h < t")
    case True
    with assms lt have "(t + N - (h + 1)) mod N = t + N - (h + 1) - N" "(t + N - h) mod N = t + N - h - N"
      by (intro mod_window; simp)+
    with lt True show ?thesis by simp
  next
    case False
    with assms lt have "t < h" by simp
    with assms lt show ?thesis by simp
  qed
qed

lemma invA_init: "0 < N \<Longrightarrow> invA N (initA N d)"
  by (simp add: invA_def initA_def)

lemma invA_push:
  assumes "invA N s" and "pushA N x s = Some (Inr (ok, s'))"
  shows "invA N s'"
proof (cases "(tail s + 1) mod N = head s")
  case True
  with assms have "s' = s" by (simp add: invA_def pushA_full)
  with assms show ?thesis by simp
next
  case False
  with assms have "s' = s\<lparr>buffer := (buffer s)[tail s := x],
      tail := (tail s + 1) mod N, pendingData := pendingData s + 1\<rparr>"
    by (simp add: invA_def pushA_free)
  moreover from assms False
  have "int ((tail s + N - head s) mod N) + 1 = int (((tail s + 1) mod N + N - head s) mod N)"
    using ring_occupancy_push [of "head s" N "tail s"] by (simp add: invA_def)
  ultimately show ?thesis using assms False
    by (simp add: invA_def)
qed

lemma invA_pop:
  assumes "invA N s" and "popA N p s = Some (Inr (ok, v, s'))"
  shows "invA N s'"
proof (cases "head s = tail s")
  case True
  with assms have "s' = s" by (simp add: invA_def popA_empty)
  with assms show ?thesis by simp
next
  case False
  with assms have "s' = s\<lparr>head := (head s + 1) mod N, pendingData := pendingData s - 1\<rparr>"
    by (simp add: invA_def popA_ready)
  moreover from assms False have "int ((tail s + N - (head s + 1) mod N) mod N) + 1 = int ((tail s + N - head s) mod N)"
    using ring_occupancy_pop [of "head s" N "tail s"] by (simp add: invA_def)
  ultimately show ?thesis using assms False
    by (simp add: invA_def)
qed

lemma reachableA_invA: "reachableA N d s \<Longrightarrow> 0 < N \<Longrightarrow> invA N s"
  by (induction rule: reachableA.induct) (auto intro: invA_init invA_push invA_pop)

lemma ringRange_length: "length (ringRange N h t) = (t + N - h) mod N"
  by (simp add: ringRange_def)

lemma committedA_invA: "invA N s \<Longrightarrow> committedA N s = (tail s + N - head s) mod N"
  by (simp add: invA_def committedA_def ringRange_def filter_map o_def)


lemma runA_reachableA:
  "reachableA N d s \<Longrightarrow> runA N d cs s = Some (Inr (rs, s')) \<Longrightarrow> reachableA N d s'"
proof (induction cs arbitrary: s rs)
  case Nil
  then show ?case by simp
next
  case (Cons c cs)
  show ?case
  proof (cases c)
    case (Push x)
    with Cons.prems obtain ok s1 rs1 where
      "pushA N x s = Some (Inr (ok, s1))" "runA N d cs s1 = Some (Inr (rs1, s'))"
      by (auto simp: bindR_def split: option.splits sum.splits prod.splits)
    with Cons.prems Cons.IH show ?thesis
      by (blast intro: reachableA.afterPush)
  next
    case Pop
    with Cons.prems obtain ok v s1 rs1 where
      "popA N d s = Some (Inr (ok, v, s1))" "runA N d cs s1 = Some (Inr (rs1, s'))"
      by (auto simp: bindR_def split: option.splits sum.splits prod.splits)
    with Cons.prems Cons.IH show ?thesis
      by (blast intro: reachableA.afterPop)
  qed
qed

lemma three_pushes:
  "runA 4 CHR ''-'' [Push CHR ''A'', Push CHR ''B'', Push CHR ''C''] (initA 4 CHR ''-'') =
   Some (Inr ([PushReturned True, PushReturned True, PushReturned True],
     \<lparr>buffer = ''ABC-'', head = 0, tail = 3, canUpdate = True,
        isBusy = [False, False, False, False], pendingData = 3\<rparr>))"
  by code_simp

lemma pushEndA_claimed:
  "i < length (buffer s) \<Longrightarrow> i < length (isBusy s) \<Longrightarrow>
   pushEndA x (Some i, s) = Some (Inr (True, s\<lparr>buffer := (buffer s)[i := x],
      pendingData := pendingData s - 1, isBusy := (isBusy s)[i := False]\<rparr>))"
  by (simp add: pushEndA_def)

lemma popEndA_claimed:
  "i < length (buffer s) \<Longrightarrow> i < length (isBusy s) \<Longrightarrow>
   popEndA p (Some i, s) = Some (Inr (True, buffer s ! i,
      s\<lparr>pendingData := pendingData s - 1, isBusy := (isBusy s)[i := False]\<rparr>))"
  by (simp add: popEndA_def at_def)

lemma pushIterA_busy:
  "canUpdate s \<Longrightarrow> (tail s + 1) mod N \<noteq> head s \<Longrightarrow> tail s < length (isBusy s) \<Longrightarrow>
   isBusy s ! tail s \<Longrightarrow> pushIterA N s = Inr (None, True, s)"
  by (simp add: pushIterA_def claimPush_busy)

lemma popIterA_busy:
  "canUpdate s \<Longrightarrow> head s \<noteq> tail s \<Longrightarrow> head s < length (isBusy s) \<Longrightarrow>
   isBusy s ! head s \<Longrightarrow> popIterA N s = Inr (None, True, s)"
  by (simp add: popIterA_def claimPop_busy)

lemma pushLoopA_busy_aux:
  "pushLoopA N s d = Some r \<Longrightarrow>
   \<not> (canUpdate s \<and> (tail s + 1) mod N \<noteq> head s \<and> tail s < length (isBusy s) \<and> isBusy s ! tail s)"
proof (erule pushLoopA.raw_induct
    [where P = "\<lambda>N s d r. \<not> (canUpdate s \<and> (tail s + 1) mod N \<noteq> head s \<and>
       tail s < length (isBusy s) \<and> isBusy s ! tail s)", rotated])
  fix f :: "nat \<Rightarrow> 'a queueA \<Rightarrow> int \<Rightarrow> (error + nat option \<times> 'a queueA) option"
  fix N s d r
  assume IH: "\<And>N s d r. f N s d = Some r \<Longrightarrow>
      \<not> (canUpdate s \<and> (tail s + 1) mod N \<noteq> head s \<and> tail s < length (isBusy s) \<and> isBusy s ! tail s)"
  assume step: "(case pushIterA N s of Inl e \<Rightarrow> Some (Inl e)
      | Inr (pushIndex, keepTrying, s') \<Rightarrow>
          if keepTrying then f N s' (backOffA d) else Some (Inr (pushIndex, s'))) = Some r"
  show "\<not> (canUpdate s \<and> (tail s + 1) mod N \<noteq> head s \<and> tail s < length (isBusy s) \<and> isBusy s ! tail s)"
  proof
    assume a: "canUpdate s \<and> (tail s + 1) mod N \<noteq> head s \<and> tail s < length (isBusy s) \<and> isBusy s ! tail s"
    with step have "f N s (backOffA d) = Some r"
      by (simp add: pushIterA_busy)
    from IH [OF this] a show False by simp
  qed
qed

lemma popLoopA_busy_aux:
  "popLoopA N s d = Some r \<Longrightarrow>
   \<not> (canUpdate s \<and> head s \<noteq> tail s \<and> head s < length (isBusy s) \<and> isBusy s ! head s)"
proof (erule popLoopA.raw_induct
    [where P = "\<lambda>N s d r. \<not> (canUpdate s \<and> head s \<noteq> tail s \<and>
       head s < length (isBusy s) \<and> isBusy s ! head s)", rotated])
  fix f :: "nat \<Rightarrow> 'a queueA \<Rightarrow> int \<Rightarrow> (error + nat option \<times> 'a queueA) option"
  fix N s d r
  assume IH: "\<And>N s d r. f N s d = Some r \<Longrightarrow>
      \<not> (canUpdate s \<and> head s \<noteq> tail s \<and> head s < length (isBusy s) \<and> isBusy s ! head s)"
  assume step: "(case popIterA N s of Inl e \<Rightarrow> Some (Inl e)
      | Inr (popIndex, keepTrying, s') \<Rightarrow>
          if keepTrying then f N s' (backOffA d) else Some (Inr (popIndex, s'))) = Some r"
  show "\<not> (canUpdate s \<and> head s \<noteq> tail s \<and> head s < length (isBusy s) \<and> isBusy s ! head s)"
  proof
    assume a: "canUpdate s \<and> head s \<noteq> tail s \<and> head s < length (isBusy s) \<and> isBusy s ! head s"
    with step have "f N s (backOffA d) = Some r"
      by (simp add: popIterA_busy)
    from IH [OF this] a show False by simp
  qed
qed

lemma pushA_busy_spins:
  "canUpdate s \<Longrightarrow> (tail s + 1) mod N \<noteq> head s \<Longrightarrow> tail s < length (isBusy s) \<Longrightarrow>
   isBusy s ! tail s \<Longrightarrow> pushA N x s = None"
  using pushLoopA_busy_aux [of N "pushBeginA s" sleepDurationStartA]
  by (cases "pushLoopA N (pushBeginA s) sleepDurationStartA")
    (auto simp: pushA_def bindR_def pushBeginA_def)

lemma popA_busy_spins:
  "canUpdate s \<Longrightarrow> head s \<noteq> tail s \<Longrightarrow> head s < length (isBusy s) \<Longrightarrow>
   isBusy s ! head s \<Longrightarrow> popA N p s = None"
  using popLoopA_busy_aux [of N s sleepDurationStartA]
  by (cases "popLoopA N s sleepDurationStartA") (auto simp: popA_def bindR_def)

lemma committedA_pushBeginA: "committedA N (pushBeginA s) = committedA N s"
  by (simp add: committedA_def pushBeginA_def)


lemma reachableA_fill:
  assumes "0 < N"
  shows "k < N \<Longrightarrow> \<exists>s. reachableA N d s \<and> head s = 0 \<and> tail s = k"
proof (induction k)
  case 0
  have "reachableA N d (initA N d)" by (rule reachableA.fresh)
  then show ?case by (auto simp: initA_def intro!: exI [of _ "initA N d"])
next
  case (Suc k)
  then obtain s where s: "reachableA N d s" "head s = 0" "tail s = k" by auto
  with assms have inv: "invA N s" by (simp add: reachableA_invA)
  let ?s' = "s\<lparr>buffer := (buffer s)[tail s := d],
      tail := (tail s + 1) mod N, pendingData := pendingData s + 1\<rparr>"
  from inv s Suc.prems have "pushA N d s = Some (Inr (True, ?s'))"
    by (intro pushA_free) (simp_all add: invA_def)
  with s have "reachableA N d ?s'" by (blast intro: reachableA.afterPush)
  moreover from s Suc.prems have "head ?s' = 0 \<and> tail ?s' = Suc k" by simp
  ultimately show ?case by blast
qed


lemma ring_full_occupancy: "0 < N \<Longrightarrow> (N - 1 + N - 0) mod N = N - (1::nat)"
proof -
  assume "0 < N"
  then have "(N - 1 + N) mod N = (N - 1) mod N" by (simp only: mod_add_self2)
  also from \<open>0 < N\<close> have "\<dots> = N - 1" by (intro mod_less) simp
  finally show ?thesis by simp
qed

section \<open>Revisions B and C: the exclusion flag and the loops\<close>

lemma acquire_free: "canUpdate s \<Longrightarrow> acquire s = Some (s\<lparr>canUpdate := False\<rparr>)"
  by (subst acquire.simps) simp

lemma acquire_Some: "acquire s = Some s' \<Longrightarrow> canUpdate s"
  by (erule acquire.raw_induct [where P = "\<lambda>s s'. canUpdate s", rotated])
    (simp split: if_splits)

lemma acquire_held: "\<not> canUpdate s \<Longrightarrow> acquire s = None"
  using acquire_Some [of s] by (cases "acquire s") auto

lemma claimPushC_full:
  "(tail s + 1) mod N = head s \<Longrightarrow> claimPushC N s = Inr (None, s)"
  by (simp add: claimPushC_def)

lemma pushLoopC_full_aux:
  "pushLoopC N s d = Some r \<Longrightarrow> \<not> (canUpdate s \<and> (tail s + 1) mod N = head s)"
proof (erule pushLoopC.raw_induct
    [where P = "\<lambda>N s d r. \<not> (canUpdate s \<and> (tail s + 1) mod N = head s)", rotated])
  fix f :: "nat \<Rightarrow> 'a queueC \<Rightarrow> int \<Rightarrow> (error + nat \<times> 'a queueC) option"
  fix N s d r
  assume IH: "\<And>N s d r. f N s d = Some r \<Longrightarrow> \<not> (canUpdate s \<and> (tail s + 1) mod N = head s)"
  assume step: "(case acquire s of None \<Rightarrow> None
      | Some s0 \<Rightarrow>
          (case claimPushC N s0 of Inl e \<Rightarrow> Some (Inl e)
           | Inr (None, s1) \<Rightarrow> f N (s1\<lparr>canUpdate := True\<rparr>) (backOffC d)
           | Inr (Some pushIndex, s1) \<Rightarrow> Some (Inr (pushIndex, s1\<lparr>canUpdate := True\<rparr>)))) = Some r"
  show "\<not> (canUpdate s \<and> (tail s + 1) mod N = head s)"
  proof
    assume a: "canUpdate s \<and> (tail s + 1) mod N = head s"
    with step have "f N (s\<lparr>canUpdate := False, canUpdate := True\<rparr>) (backOffC d) = Some r"
      by (simp add: acquire_free claimPushC_full)
    from IH [OF this] a show False by simp
  qed
qed

lemma pushC_full_spins:
  "canUpdate s \<Longrightarrow> (tail s + 1) mod N = head s \<Longrightarrow> pushC N x s = None"
  using pushLoopC_full_aux [of N "pushBeginC s" 0]
  by (cases "pushLoopC N (pushBeginC s) 0") (auto simp: pushC_def bindR_def pushBeginC_def)

lemma pushLoopB_exit:
  "canUpdate s \<Longrightarrow> claimPush N (s\<lparr>canUpdate := False\<rparr>) = Inr (i, False, s') \<Longrightarrow>
   pushLoopB N s d = Some (Inr (i, s'\<lparr>canUpdate := True\<rparr>))"
  by (subst pushLoopB.simps) (simp add: acquire_free)

lemma popLoopB_exit:
  "canUpdate s \<Longrightarrow> claimPop N (s\<lparr>canUpdate := False\<rparr>) = Inr (i, False, s') \<Longrightarrow>
   popLoopB N s d = Some (Inr (i, s'\<lparr>canUpdate := True\<rparr>))"
  by (subst popLoopB.simps) (simp add: acquire_free)

lemma popLoopC_exit:
  "canUpdate s \<Longrightarrow> claimPopC N (s\<lparr>canUpdate := False\<rparr>) = Inr (i, False, s') \<Longrightarrow>
   popLoopC N s d = Some (Inr (i, s'\<lparr>canUpdate := True\<rparr>))"
  by (subst popLoopC.simps) (simp add: acquire_free)

lemma pushB_full:
  "canUpdate s \<Longrightarrow> (tail s + 1) mod N = head s \<Longrightarrow> pushB N x s = Some (Inr (False, s))"
  apply (simp add: pushB_def pushBeginB_def)
  apply (subst pushLoopB_exit [where i = None
        and s' = "s\<lparr>canUpdate := False, pendingData := pendingData s + 1, pendingActions := pendingActions s + 2\<rparr>"])
    apply simp
   apply (simp add: claimPush_full)
  apply (simp add: bindR_def pushEndB_def)
  done

lemma popB_empty:
  "canUpdate s \<Longrightarrow> head s = tail s \<Longrightarrow> popB N p s = Some (Inr (False, p, s))"
  apply (simp add: popB_def)
  apply (subst popLoopB_exit [where i = None and s' = "s\<lparr>canUpdate := False\<rparr>"])
    apply simp
   apply (simp add: claimPop_empty)
  apply (simp add: bindR_def popEndB_def)
  done

lemma claimPopC_empty: "head s = tail s \<Longrightarrow> claimPopC N s = Inr (None, False, s)"
  by (simp add: claimPopC_def)

lemma popC_empty:
  "canUpdate s \<Longrightarrow> head s = tail s \<Longrightarrow> popC N p s = Some (Inr (False, p, s))"
  apply (simp add: popC_def)
  apply (subst popLoopC_exit [where i = None and s' = "s\<lparr>canUpdate := False\<rparr>"])
    apply simp
   apply (simp add: claimPopC_empty)
  apply (simp add: bindR_def popEndC_def)
  done

lemma pushIterA_full:
  "canUpdate s \<Longrightarrow> (tail s + 1) mod N = head s \<Longrightarrow> pushIterA N s = Inr (None, False, s)"
  by (simp add: pushIterA_def claimPush_full)

section \<open>The delays of the retry loops\<close>

lemma backOffA_le: "backOffA d \<le> maxSleepDurationA"
  by (simp add: backOffA_def maxSleepDurationA_def sleepDurationStepA_def sleepDurationStartA_def)

lemma backOffA_iterated: "(backOffA ^^ n) sleepDurationStartA \<le> maxSleepDurationA"
proof (cases n)
  case 0
  then show ?thesis by (simp add: sleepDurationStartA_def maxSleepDurationA_def)
next
  case (Suc m)
  then show ?thesis using backOffA_le [of "(backOffA ^^ m) sleepDurationStartA"] by simp
qed

lemma backOffB_iterated: "(backOffB ^^ n) 0 \<le> maxSleepDurationB"
  by (induction n) (simp_all add: backOffB_def maxSleepDurationB_def sleepDurationStepB_def)

lemma backOffC_iterated: "(backOffC ^^ n) 0 \<le> maxSleepDurationC"
  by (induction n) (simp_all add: backOffC_def maxSleepDurationC_def sleepDurationStepC_def)

text \<open>
  No call of \<^verbatim>\<open>backOff\<close> is given a delay above the maximum; the saturating
  \<^verbatim>\<open>backOff\<close> would return such a delay unchanged.
\<close>

lemma backOffC_unclamped: "maxSleepDurationC \<le> d \<Longrightarrow> backOffC d = d"
  by (simp add: backOffC_def)

lemma backOffB_unclamped: "maxSleepDurationB \<le> d \<Longrightarrow> backOffB d = d"
  by (simp add: backOffB_def)

section \<open>Revision B: the calls of a single caller\<close>

lemma pushB_free:
  "canUpdate s \<Longrightarrow> (tail s + 1) mod N \<noteq> head s \<Longrightarrow> tail s < length (isBusy s) \<Longrightarrow>
   tail s < length (buffer s) \<Longrightarrow> \<not> isBusy s ! tail s \<Longrightarrow>
   pushB N x s = Some (Inr (True, s\<lparr>buffer := (buffer s)[tail s := x],
      tail := (tail s + 1) mod N, pendingData := pendingData s + 1,
      pendingActions := pendingActions s + 1\<rparr>))"
  apply (simp add: pushB_def pushBeginB_def)
  apply (subst pushLoopB_exit [where i = "Some (tail s)"
        and s' = "s\<lparr>canUpdate := False, pendingData := pendingData s + 1,
          pendingActions := pendingActions s + 2,
          isBusy := (isBusy s)[tail s := True], tail := (tail s + 1) mod N\<rparr>"])
    apply simp
   apply (simp add: claimPush_free)
  apply (simp add: list_update_same_conv bindR_def pushEndB_def)
  done

lemma popB_ready:
  "canUpdate s \<Longrightarrow> head s \<noteq> tail s \<Longrightarrow> head s < length (isBusy s) \<Longrightarrow>
   head s < length (buffer s) \<Longrightarrow> \<not> isBusy s ! head s \<Longrightarrow>
   popB N p s = Some (Inr (True, buffer s ! head s,
      s\<lparr>head := (head s + 1) mod N, pendingData := pendingData s - 1,
        pendingActions := pendingActions s - 1\<rparr>))"
  apply (simp add: popB_def)
  apply (subst popLoopB_exit [where i = "Some (head s)"
        and s' = "s\<lparr>canUpdate := False, isBusy := (isBusy s)[head s := True],
          head := (head s + 1) mod N\<rparr>"])
    apply simp
   apply (simp add: claimPop_ready)
  apply (simp add: list_update_same_conv bindR_def popEndB_def at_def)
  done

lemma invB_init: "0 < N \<Longrightarrow> invB N (initB N d)"
  by (simp add: invB_def initB_def)

lemma invB_push:
  assumes "invB N s" and "pushB N x s = Some (Inr (ok, s'))"
  shows "invB N s'"
proof (cases "(tail s + 1) mod N = head s")
  case True
  with assms have "s' = s" by (simp add: invB_def pushB_full)
  with assms show ?thesis by simp
next
  case False
  with assms have "s' = s\<lparr>buffer := (buffer s)[tail s := x],
      tail := (tail s + 1) mod N, pendingData := pendingData s + 1,
      pendingActions := pendingActions s + 1\<rparr>"
    by (simp add: invB_def pushB_free)
  moreover from assms False
  have "int ((tail s + N - head s) mod N) + 1 = int (((tail s + 1) mod N + N - head s) mod N)"
    using ring_occupancy_push [of "head s" N "tail s"] by (simp add: invB_def)
  ultimately show ?thesis using assms False
    by (simp add: invB_def)
qed

lemma invB_pop:
  assumes "invB N s" and "popB N p s = Some (Inr (ok, v, s'))"
  shows "invB N s'"
proof (cases "head s = tail s")
  case True
  with assms have "s' = s" by (simp add: invB_def popB_empty)
  with assms show ?thesis by simp
next
  case False
  with assms have "s' = s\<lparr>head := (head s + 1) mod N, pendingData := pendingData s - 1,
      pendingActions := pendingActions s - 1\<rparr>"
    by (simp add: invB_def popB_ready)
  moreover from assms False
  have "int ((tail s + N - (head s + 1) mod N) mod N) + 1 = int ((tail s + N - head s) mod N)"
    using ring_occupancy_pop [of "head s" N "tail s"] by (simp add: invB_def)
  ultimately show ?thesis using assms False
    by (simp add: invB_def)
qed

lemma reachableB_invB: "reachableB N d s \<Longrightarrow> 0 < N \<Longrightarrow> invB N s"
  by (induction rule: reachableB.induct) (auto intro: invB_init invB_push invB_pop)

lemma committedA_quiet:
  "head s < N \<Longrightarrow> isBusy s = replicate N False \<Longrightarrow>
   committedA N s = (tail s + N - head s) mod N"
  by (simp add: committedA_def ringRange_def filter_map o_def)

lemma committedA_le: "0 < N \<Longrightarrow> committedA N s \<le> N - 1"
proof -
  assume "0 < N"
  have "committedA N s \<le> length (ringRange N (head s) (tail s))"
    by (simp add: committedA_def)
  also have "\<dots> = (tail s + N - head s) mod N" by (rule ringRange_length)
  also from \<open>0 < N\<close> have "\<dots> \<le> N - 1"
    using mod_less_divisor [of N "tail s + N - head s"] by linarith
  finally show ?thesis .
qed

section \<open>Revision C: the calls of a single caller\<close>

lemma pushLoopC_exit:
  "canUpdate s \<Longrightarrow> claimPushC N (s\<lparr>canUpdate := False\<rparr>) = Inr (Some i, s') \<Longrightarrow>
   pushLoopC N s d = Some (Inr (i, s'\<lparr>canUpdate := True\<rparr>))"
  by (subst pushLoopC.simps) (simp add: acquire_free)

lemma claimPushC_free:
  "(tail s + 1) mod N \<noteq> head s \<Longrightarrow> tail s < length (hasData s) \<Longrightarrow> \<not> hasData s ! tail s \<Longrightarrow>
   claimPushC N s = Inr (Some (tail s), s\<lparr>tail := (tail s + 1) mod N\<rparr>)"
  by (simp add: claimPushC_def at_def)

lemma claimPopC_ready:
  "head s \<noteq> tail s \<Longrightarrow> head s < length (hasData s) \<Longrightarrow> hasData s ! head s \<Longrightarrow>
   claimPopC N s = Inr (Some (head s), False, s\<lparr>head := (head s + 1) mod N\<rparr>)"
  by (simp add: claimPopC_def at_def)

lemma pushC_free:
  "canUpdate s \<Longrightarrow> (tail s + 1) mod N \<noteq> head s \<Longrightarrow> tail s < length (hasData s) \<Longrightarrow>
   tail s < length (buffer s) \<Longrightarrow> \<not> hasData s ! tail s \<Longrightarrow>
   pushC N x s = Some (Inr ((), s\<lparr>buffer := (buffer s)[tail s := x],
      tail := (tail s + 1) mod N, pendingDataC := pendingDataC s + 1,
      pendingActionsC := pendingActionsC s + 1,
      hasData := (hasData s)[tail s := True]\<rparr>))"
  apply (simp add: pushC_def pushBeginC_def)
  apply (subst pushLoopC_exit [where i = "tail s"
        and s' = "s\<lparr>canUpdate := False, pendingActionsC := pendingActionsC s + 2,
          tail := (tail s + 1) mod N\<rparr>"])
    apply simp
   apply (simp add: claimPushC_free)
  apply (simp add: bindR_def pushEndC_def)
  done

lemma popC_ready:
  assumes "canUpdate s" "head s \<noteq> tail s" "head s < length (hasData s)"
    "head s < length (buffer s)" "hasData s ! head s"
  shows "popC N p s =
     (if 0 < pendingDataC s \<and> 0 < pendingActionsC s then
        Some (Inr (True, buffer s ! head s,
          s\<lparr>head := (head s + 1) mod N, hasData := (hasData s)[head s := False],
            pendingDataC := pendingDataC s - 1, pendingActionsC := pendingActionsC s - 1\<rparr>))
      else Some (Inl AssertionFailed))"
proof -
  from assms have "claimPopC N (s\<lparr>canUpdate := False\<rparr>) =
      Inr (Some (head s), False, s\<lparr>canUpdate := False, head := (head s + 1) mod N\<rparr>)"
    by (simp add: claimPopC_ready)
  with assms(1) have "popLoopC N s 0 =
      Some (Inr (Some (head s), s\<lparr>canUpdate := False, head := (head s + 1) mod N, canUpdate := True\<rparr>))"
    by (rule popLoopC_exit)
  with assms show ?thesis
    by (simp add: popC_def bindR_def popEndC_def at_def Let_def)
qed

lemma count_set:
  "i < length xs \<Longrightarrow> \<not> xs ! i \<Longrightarrow>
   length (filter (\<lambda>b. b) (xs[i := True])) = Suc (length (filter (\<lambda>b. b) xs))"
proof (induction xs arbitrary: i)
  case Nil
  then show ?case by simp
next
  case (Cons x xs)
  then show ?case by (cases i) auto
qed

lemma count_clear:
  "i < length xs \<Longrightarrow> xs ! i \<Longrightarrow>
   Suc (length (filter (\<lambda>b. b) (xs[i := False]))) = length (filter (\<lambda>b. b) xs)"
proof (induction xs arbitrary: i)
  case Nil
  then show ?case by simp
next
  case (Cons x xs)
  then show ?case by (cases i) auto
qed

lemma ring_distance:
  "h < (N::nat) \<Longrightarrow> i < N \<Longrightarrow> (i + N - h) mod N = (if h \<le> i then i - h else i + N - h)"
proof -
  assume a: "h < N" "i < N"
  show ?thesis
  proof (cases "h \<le> i")
    case True
    with a have "(i + N - h) mod N = i + N - h - N" by (intro mod_window) auto
    with True show ?thesis by simp
  next
    case False
    with a show ?thesis by simp
  qed
qed

lemma ring_distance_inj:
  "h < (N::nat) \<Longrightarrow> i < N \<Longrightarrow> t < N \<Longrightarrow>
   ((i + N - h) mod N = (t + N - h) mod N) = (i = t)"
  by (auto simp: ring_distance split: if_splits)

lemma ring_distance_pop:
  assumes "h < (N::nat)" "i < N"
  shows "(i + N - (h + 1) mod N) mod N = ((i + N - h) mod N + N - 1) mod N"
proof (cases "h + 1 = N")
  case True
  with assms have "(i + N - h) mod N = (if h \<le> i then i - h else i + N - h)"
    by (simp add: ring_distance)
  with assms True show ?thesis by (auto simp: mod_window)
next
  case False
  with assms have lt: "h + 1 < N" by simp
  with assms have l: "(i + N - (h + 1) mod N) mod N = (if h + 1 \<le> i then i - (h + 1) else i + N - (h + 1))"
    using ring_distance [of "h + 1" N i] by simp
  have r: "(i + N - h) mod N = (if h \<le> i then i - h else i + N - h)"
    using assms by (simp add: ring_distance)
  show ?thesis
  proof (cases "h < i")
    case True
    with assms lt have "((i - h) + N - 1) mod N = (i - h) + N - 1 - N"
      by (intro mod_window) auto
    with True l r show ?thesis by simp
  next
    case False
    show ?thesis
    proof (cases "h = i")
      case True
      with assms lt l r show ?thesis by simp
    next
      case ne: False
      with False have "i < h" by simp
      with assms lt have "((i + N - h) + N - 1) mod N = (i + N - h) + N - 1 - N"
        by (intro mod_window) auto
      with \<open>i < h\<close> assms lt l r show ?thesis by simp
    qed
  qed
qed

lemma ring_distance_self: "h < (N::nat) \<Longrightarrow> (h + N - h) mod N = 0"
  by simp

lemma flags_push:
  assumes "h < N" "t < N" "(t + 1) mod N \<noteq> h"
  shows "(map (\<lambda>i. (i + N - h) mod N < (t + N - h) mod N) [0 ..< N])[t := True] =
         map (\<lambda>i. (i + N - h) mod N < ((t + 1) mod N + N - h) mod N) [0 ..< N]"
proof (rule nth_equalityI)
  show "length ((map (\<lambda>i. (i + N - h) mod N < (t + N - h) mod N) [0 ..< N])[t := True]) =
        length (map (\<lambda>i. (i + N - h) mod N < ((t + 1) mod N + N - h) mod N) [0 ..< N])"
    by simp
next
  fix i
  assume "i < length ((map (\<lambda>i. (i + N - h) mod N < (t + N - h) mod N) [0 ..< N])[t := True])"
  then have i: "i < N" by simp
  from assms have occ: "((t + 1) mod N + N - h) mod N = (t + N - h) mod N + 1"
    by (rule ring_occupancy_push)
  from assms i have inj: "((i + N - h) mod N = (t + N - h) mod N) = (i = t)"
    by (simp add: ring_distance_inj)
  show "(map (\<lambda>i. (i + N - h) mod N < (t + N - h) mod N) [0 ..< N])[t := True] ! i =
        map (\<lambda>i. (i + N - h) mod N < ((t + 1) mod N + N - h) mod N) [0 ..< N] ! i"
  proof (cases "i = t")
    case True
    with i occ show ?thesis by simp
  next
    case False
    with inj have "(i + N - h) mod N \<noteq> (t + N - h) mod N" by simp
    with i False occ show ?thesis by (simp add: less_Suc_eq)
  qed
qed

lemma flags_pop:
  assumes "h < N" "t < N" "h \<noteq> t"
  shows "(map (\<lambda>i. (i + N - h) mod N < (t + N - h) mod N) [0 ..< N])[h := False] =
         map (\<lambda>i. (i + N - (h + 1) mod N) mod N < (t + N - (h + 1) mod N) mod N) [0 ..< N]"
proof (rule nth_equalityI)
  show "length ((map (\<lambda>i. (i + N - h) mod N < (t + N - h) mod N) [0 ..< N])[h := False]) =
        length (map (\<lambda>i. (i + N - (h + 1) mod N) mod N < (t + N - (h + 1) mod N) mod N) [0 ..< N])"
    by simp
next
  fix i
  assume "i < length ((map (\<lambda>i. (i + N - h) mod N < (t + N - h) mod N) [0 ..< N])[h := False])"
  then have i: "i < N" by simp
  from assms have occ: "(t + N - (h + 1) mod N) mod N + 1 = (t + N - h) mod N"
    by (rule ring_occupancy_pop)
  from assms(1) i have dist: "(i + N - (h + 1) mod N) mod N = ((i + N - h) mod N + N - 1) mod N"
    by (rule ring_distance_pop)
  have bound: "(t + N - h) mod N < N" using assms by simp
  show "(map (\<lambda>i. (i + N - h) mod N < (t + N - h) mod N) [0 ..< N])[h := False] ! i =
        map (\<lambda>i. (i + N - (h + 1) mod N) mod N < (t + N - (h + 1) mod N) mod N) [0 ..< N] ! i"
  proof (cases "i = h")
    case True
    with assms have "(i + N - (h + 1) mod N) mod N = N - 1"
      using dist by simp
    moreover have "(t + N - (h + 1) mod N) mod N < N" using assms by simp
    ultimately have "\<not> (i + N - (h + 1) mod N) mod N < (t + N - (h + 1) mod N) mod N"
      by linarith
    with True i show ?thesis by simp
  next
    case False
    with assms i have "(i + N - h) mod N \<noteq> 0"
      using ring_distance_inj [of h N i h] by simp
    moreover have "(i + N - h) mod N < N" using assms by simp
    ultimately have "((i + N - h) mod N + N - 1) mod N = (i + N - h) mod N - 1"
      using mod_window [of N "(i + N - h) mod N + N - 1"] by simp
    with dist have "(i + N - (h + 1) mod N) mod N = (i + N - h) mod N - 1" by simp
    with occ \<open>(i + N - h) mod N \<noteq> 0\<close>
    have "((i + N - (h + 1) mod N) mod N < (t + N - (h + 1) mod N) mod N) =
          ((i + N - h) mod N < (t + N - h) mod N)"
      by linarith
    with False i show ?thesis by simp
  qed
qed

lemma invC_init: "0 < N \<Longrightarrow> invC N (initC N d)"
  by (simp add: invC_def initC_def committedC_def map_replicate_const)

lemma invC_flag_tail:
  "invC N s \<Longrightarrow> tail s < length (hasData s) \<and> \<not> hasData s ! tail s"
  by (simp add: invC_def)

lemma invC_flag_head:
  assumes "invC N s" "head s \<noteq> tail s"
  shows "head s < length (hasData s) \<and> hasData s ! head s"
proof -
  from assms have "(head s + N - head s) mod N \<noteq> (tail s + N - head s) mod N"
    using ring_distance_inj [of "head s" N "head s" "tail s"] by (simp add: invC_def)
  then have "0 < (tail s + N - head s) mod N" by simp
  with assms show ?thesis by (simp add: invC_def)
qed

lemma invC_push:
  assumes "invC N s" and "pushC N x s = Some (Inr ((), s'))"
  shows "invC N s'"
proof (cases "(tail s + 1) mod N = head s")
  case True
  with assms have "pushC N x s = None" by (simp add: invC_def pushC_full_spins)
  with assms show ?thesis by simp
next
  case False
  from assms(1) have flag: "tail s < length (hasData s) \<and> \<not> hasData s ! tail s"
    by (rule invC_flag_tail)
  from assms(1) have b: "canUpdate s" "head s < N" "tail s < N" "length (buffer s) = N"
    by (simp_all add: invC_def)
  from b flag False have "pushC N x s = Some (Inr ((), s\<lparr>buffer := (buffer s)[tail s := x],
      tail := (tail s + 1) mod N, pendingDataC := pendingDataC s + 1,
      pendingActionsC := pendingActionsC s + 1,
      hasData := (hasData s)[tail s := True]\<rparr>))"
    by (intro pushC_free) simp_all
  with assms have s': "s' = s\<lparr>buffer := (buffer s)[tail s := x],
      tail := (tail s + 1) mod N, pendingDataC := pendingDataC s + 1,
      pendingActionsC := pendingActionsC s + 1,
      hasData := (hasData s)[tail s := True]\<rparr>"
    by simp
  from b False have occ: "((tail s + 1) mod N + N - head s) mod N = (tail s + N - head s) mod N + 1"
    by (intro ring_occupancy_push) simp_all
  from b False have flags: "(map (\<lambda>i. (i + N - head s) mod N < (tail s + N - head s) mod N) [0 ..< N])[tail s := True] =
         map (\<lambda>i. (i + N - head s) mod N < ((tail s + 1) mod N + N - head s) mod N) [0 ..< N]"
    by (intro flags_push) simp_all
  from flag have count: "length (filter (\<lambda>b. b) ((hasData s)[tail s := True])) =
      Suc (length (filter (\<lambda>b. b) (hasData s)))"
    by (intro count_set) simp_all
  have "hasData s' = map (\<lambda>i. (i + N - head s') mod N < (tail s' + N - head s') mod N) [0 ..< N]"
    using assms(1) flags by (simp add: s' invC_def)
  moreover have "committedC s' = (tail s' + N - head s') mod N"
  proof -
    from assms(1) have "committedC s = (tail s + N - head s) mod N" by (simp add: invC_def)
    moreover have "committedC s' = Suc (committedC s)"
      using count by (simp add: s' committedC_def)
    ultimately show ?thesis using occ by (simp add: s')
  qed
  moreover have "pendingDataC s' = of_nat ((tail s' + N - head s') mod N)"
    using assms(1) occ by (simp add: s' invC_def)
  moreover have "pendingActionsC s' = of_nat ((tail s' + N - head s') mod N)"
    using assms(1) occ by (simp add: s' invC_def)
  moreover have "canUpdate s' \<and> head s' < N \<and> tail s' < N \<and> length (buffer s') = N"
    using b by (simp add: s')
  ultimately show ?thesis by (simp add: invC_def)
qed

lemma invC_pop:
  assumes "invC N s" and "popC N p s = Some (Inr (ok, v, s'))"
  shows "invC N s'"
proof (cases "head s = tail s")
  case True
  with assms have "s' = s" by (simp add: invC_def popC_empty)
  with assms show ?thesis by simp
next
  case False
  with assms(1) have flag: "head s < length (hasData s) \<and> hasData s ! head s"
    by (rule invC_flag_head)
  from assms(1) have b: "canUpdate s" "head s < N" "tail s < N" "length (buffer s) = N"
    by (simp_all add: invC_def)
  from b flag False have "popC N p s =
     (if 0 < pendingDataC s \<and> 0 < pendingActionsC s then
        Some (Inr (True, buffer s ! head s,
          s\<lparr>head := (head s + 1) mod N, hasData := (hasData s)[head s := False],
            pendingDataC := pendingDataC s - 1, pendingActionsC := pendingActionsC s - 1\<rparr>))
      else Some (Inl AssertionFailed))"
    by (intro popC_ready) simp_all
  with assms have s': "s' = s\<lparr>head := (head s + 1) mod N, hasData := (hasData s)[head s := False],
            pendingDataC := pendingDataC s - 1, pendingActionsC := pendingActionsC s - 1\<rparr>"
    by (simp split: if_splits)
  from b False have occ: "(tail s + N - (head s + 1) mod N) mod N + 1 = (tail s + N - head s) mod N"
    by (intro ring_occupancy_pop) simp_all
  from b False have flags: "(map (\<lambda>i. (i + N - head s) mod N < (tail s + N - head s) mod N) [0 ..< N])[head s := False] =
         map (\<lambda>i. (i + N - (head s + 1) mod N) mod N < (tail s + N - (head s + 1) mod N) mod N) [0 ..< N]"
    by (intro flags_pop) simp_all
  from flag have count: "Suc (length (filter (\<lambda>b. b) ((hasData s)[head s := False]))) =
      length (filter (\<lambda>b. b) (hasData s))"
    by (intro count_clear) simp_all
  have w: "(of_nat ((tail s + N - head s) mod N) :: 64 word) - 1 =
      of_nat ((tail s + N - (head s + 1) mod N) mod N)"
    by (simp add: occ [symmetric])
  have "hasData s' = map (\<lambda>i. (i + N - head s') mod N < (tail s' + N - head s') mod N) [0 ..< N]"
    using assms(1) flags by (simp add: s' invC_def)
  moreover have "committedC s' = (tail s' + N - head s') mod N"
  proof -
    from assms(1) have "committedC s = (tail s + N - head s) mod N" by (simp add: invC_def)
    moreover have "Suc (committedC s') = committedC s"
      using count by (simp add: s' committedC_def)
    ultimately show ?thesis using occ by (simp add: s')
  qed
  moreover have "pendingDataC s' = of_nat ((tail s' + N - head s') mod N)"
    using assms(1) w by (simp add: s' invC_def)
  moreover have "pendingActionsC s' = of_nat ((tail s' + N - head s') mod N)"
    using assms(1) w by (simp add: s' invC_def)
  moreover have "canUpdate s' \<and> head s' < N \<and> tail s' < N \<and> length (buffer s') = N"
    using b by (simp add: s')
  ultimately show ?thesis by (simp add: invC_def)
qed

lemma reachableC_invC: "reachableC N d s \<Longrightarrow> 0 < N \<Longrightarrow> invC N s"
  by (induction rule: reachableC.induct) (auto intro: invC_init invC_push invC_pop)

section \<open>The slots between head and tail\<close>

lemma ring_shift:
  "h < (N::nat) \<Longrightarrow> k < N \<Longrightarrow> (h + k) mod N = (if h + k < N then h + k else h + k - N)"
proof -
  assume a: "h < N" "k < N"
  show ?thesis
  proof (cases "h + k < N")
    case True
    then show ?thesis by simp
  next
    case False
    with a have "(h + k) mod N = h + k - N" by (intro mod_window) auto
    with False show ?thesis by simp
  qed
qed

lemma ring_shift_inj:
  "h < (N::nat) \<Longrightarrow> k < N \<Longrightarrow> k' < N \<Longrightarrow> (h + k) mod N = (h + k') mod N \<Longrightarrow> k = k'"
  by (simp add: ring_shift split: if_splits)

lemma ring_end: "h < (N::nat) \<Longrightarrow> t < N \<Longrightarrow> (h + (t + N - h) mod N) mod N = t"
  by (simp add: ring_distance)

lemma ringRange_distinct: "h < N \<Longrightarrow> distinct (ringRange N h t)"
proof -
  assume h: "h < N"
  have "inj_on (\<lambda>k. (h + k) mod N) (set [0 ..< (t + N - h) mod N])"
  proof (rule inj_onI)
    fix k k'
    assume "k \<in> set [0 ..< (t + N - h) mod N]" "k' \<in> set [0 ..< (t + N - h) mod N]"
      and eq: "(h + k) mod N = (h + k') mod N"
    moreover from h have "(t + N - h) mod N < N" by simp
    ultimately have kk: "k < N" "k' < N" by simp_all
    from h kk eq show "k = k'" by (rule ring_shift_inj)
  qed
  then show ?thesis by (simp add: ringRange_def distinct_map)
qed

lemma ringRange_bound: "0 < N \<Longrightarrow> i \<in> set (ringRange N h t) \<Longrightarrow> i < N"
  by (auto simp: ringRange_def)

lemma ringRange_push:
  assumes "h < N" "t < N" "(t + 1) mod N \<noteq> h"
  shows "ringRange N h ((t + 1) mod N) = ringRange N h t @ [t]"
proof -
  from assms have "((t + 1) mod N + N - h) mod N = Suc ((t + N - h) mod N)"
    using ring_occupancy_push [of h N t] by simp
  moreover from assms have "(h + (t + N - h) mod N) mod N = t" by (simp add: ring_end)
  ultimately show ?thesis by (simp add: ringRange_def)
qed

lemma ringRange_pop:
  assumes "h < N" "t < N" "h \<noteq> t"
  shows "ringRange N h t = h # ringRange N ((h + 1) mod N) t"
proof -
  from assms have occ: "(t + N - h) mod N = Suc ((t + N - (h + 1) mod N) mod N)"
    using ring_occupancy_pop [of h N t] by simp
  have shift: "\<And>k. (Suc h mod N + k) mod N = Suc (h + k) mod N"
    using mod_add_left_eq [of "Suc h" N] by simp
  have "ringRange N h t = map (\<lambda>k. (h + k) mod N) [0 ..< Suc ((t + N - (h + 1) mod N) mod N)]"
    by (simp only: ringRange_def occ)
  also have "\<dots> = (h + 0) mod N # map (\<lambda>k. (h + Suc k) mod N) [0 ..< (t + N - (h + 1) mod N) mod N]"
    by (simp only: upt_conv_Cons zero_less_Suc list.map map_Suc_upt [symmetric] map_map o_def)
  also from assms have "\<dots> = h # ringRange N ((h + 1) mod N) t"
    by (simp add: ringRange_def shift)
  finally show ?thesis .
qed

lemma ringRange_tail_notin: "h < N \<Longrightarrow> t < N \<Longrightarrow> t \<notin> set (ringRange N h t)"
proof
  assume a: "h < N" "t < N" and mem: "t \<in> set (ringRange N h t)"
  from mem have "t \<in> (\<lambda>k. (h + k) mod N) ` {0 ..< (t + N - h) mod N}"
    by (simp only: ringRange_def set_map set_upt)
  then obtain k where kin: "k \<in> {0 ..< (t + N - h) mod N}" and kt: "t = (h + k) mod N"
    by (rule imageE)
  from kin have k: "k < (t + N - h) mod N" by (simp only: atLeastLessThan_iff)
  from a have e: "(h + (t + N - h) mod N) mod N = t" by (rule ring_end)
  from a have b: "(t + N - h) mod N < N" by simp
  from k b have kN: "k < N" by (rule less_trans)
  from kt e have eq: "(h + k) mod N = (h + (t + N - h) mod N) mod N" by (simp only:)
  from a(1) kN b eq have "k = (t + N - h) mod N" by (rule ring_shift_inj)
  with k show False by (simp only: less_irrefl)
qed

section \<open>Interleaved threads: what every state satisfies\<close>

lemma pending_update:
  "t < length ts \<Longrightarrow>
   sum_list (map pendingA (ts[t := p])) = sum_list (map pendingA ts) - pendingA (ts ! t) + pendingA p"
proof (induction ts arbitrary: t)
  case Nil
  then show ?case by simp
next
  case (Cons a ts)
  then show ?case by (cases t) simp_all
qed

lemma list_all_update:
  "list_all P ts \<Longrightarrow> P p \<Longrightarrow> list_all P (ts[t := p])"
  by (cases "t < length ts") (auto simp: list_all_length nth_list_update)

lemma exclusiveA_update:
  assumes "exclusiveA ts" "t < length ts"
    and "ownedSlot p = None \<or> ownedSlot p = ownedSlot (ts ! t) \<or>
         (\<forall>u < length ts. u \<noteq> t \<longrightarrow> ownedSlot (ts ! u) \<noteq> ownedSlot p)"
  shows "exclusiveA (ts[t := p])"
  unfolding exclusiveA_def
proof (intro allI impI)
  fix a b
  assume h: "a < length (ts[t := p]) \<and> b < length (ts[t := p]) \<and> a \<noteq> b \<and>
      ownedSlot (ts[t := p] ! a) \<noteq> None"
  then have ab: "a < length ts" "b < length ts" "a \<noteq> b" by simp_all
  show "ownedSlot (ts[t := p] ! a) \<noteq> ownedSlot (ts[t := p] ! b)"
  proof (cases "a = t")
    case True
    with ab have b: "ts[t := p] ! b = ts ! b" by simp
    from True assms(2) have a: "ts[t := p] ! a = p" by simp
    from h a have pn: "ownedSlot p \<noteq> None" by simp
    from assms(3) show ?thesis
    proof (elim disjE)
      assume "ownedSlot p = None"
      with pn show ?thesis by simp
    next
      assume e: "ownedSlot p = ownedSlot (ts ! t)"
      with pn assms(1) assms(2) ab True have "ownedSlot (ts ! t) \<noteq> ownedSlot (ts ! b)"
        unfolding exclusiveA_def by metis
      with a b e show ?thesis by simp
    next
      assume "\<forall>u < length ts. u \<noteq> t \<longrightarrow> ownedSlot (ts ! u) \<noteq> ownedSlot p"
      with ab True have "ownedSlot (ts ! b) \<noteq> ownedSlot p" by metis
      with a b show ?thesis by simp
    qed
  next
    case False
    with ab have a: "ts[t := p] ! a = ts ! a" by simp
    show ?thesis
    proof (cases "b = t")
      case bt: True
      with assms(2) have b: "ts[t := p] ! b = p" by simp
      from h a have an: "ownedSlot (ts ! a) \<noteq> None" by simp
      from assms(3) show ?thesis
      proof (elim disjE)
        assume "ownedSlot p = None"
        with an a b show ?thesis by simp
      next
        assume e: "ownedSlot p = ownedSlot (ts ! t)"
        from an assms(1) assms(2) ab bt have "ownedSlot (ts ! a) \<noteq> ownedSlot (ts ! t)"
          unfolding exclusiveA_def by metis
        with a b e show ?thesis by simp
      next
        assume "\<forall>u < length ts. u \<noteq> t \<longrightarrow> ownedSlot (ts ! u) \<noteq> ownedSlot p"
        with ab False have "ownedSlot (ts ! a) \<noteq> ownedSlot p" by metis
        with a b show ?thesis by simp
      qed
    next
      case bf: False
      with ab have b: "ts[t := p] ! b = ts ! b" by simp
      from h a have an: "ownedSlot (ts ! a) \<noteq> None" by simp
      with assms(1) ab have "ownedSlot (ts ! a) \<noteq> ownedSlot (ts ! b)"
        unfolding exclusiveA_def by metis
      with a b show ?thesis by simp
    qed
  qed
qed

lemma ownsA_busy: "ownsA N s pc \<Longrightarrow> ownedSlot pc = Some i \<Longrightarrow> isBusy s ! i"
  by (auto simp: ownsA_def ownedSlot_def split: option.splits)

lemma ownsA_cong:
  "head s' = head s \<Longrightarrow> tail s' = tail s \<Longrightarrow> isBusy s' = isBusy s \<Longrightarrow>
   ownsA N s' pc = ownsA N s pc"
  by (simp add: ownsA_def cong: option.case_cong)

lemma committedA_cong:
  "head s' = head s \<Longrightarrow> tail s' = tail s \<Longrightarrow> isBusy s' = isBusy s \<Longrightarrow>
   committedA N s' = committedA N s"
  by (simp add: committedA_def)

lemma pushIterA_shape:
  assumes "shapeA N s"
  shows "pushIterA N s =
     (if (tail s + 1) mod N = head s then Inr (None, False, s)
      else if isBusy s ! tail s then Inr (None, True, s)
      else Inr (Some (tail s), False,
             s\<lparr>isBusy := (isBusy s)[tail s := True], tail := (tail s + 1) mod N\<rparr>))"
proof -
  from assms have c: "canUpdate s" and t: "tail s < length (isBusy s)"
    by (simp_all add: shapeA_def)
  show ?thesis
  proof (cases "(tail s + 1) mod N = head s")
    case True
    with c show ?thesis by (simp add: pushIterA_full)
  next
    case False
    show ?thesis
    proof (cases "isBusy s ! tail s")
      case True
      with c t False show ?thesis by (simp add: pushIterA_busy)
    next
      case nb: False
      with c t False show ?thesis by (simp add: pushIterA_def claimPush_free)
    qed
  qed
qed

lemma popIterA_shape:
  assumes "shapeA N s"
  shows "popIterA N s =
     (if head s = tail s then Inr (None, False, s)
      else if isBusy s ! head s then Inr (None, True, s)
      else Inr (Some (head s), False,
             s\<lparr>isBusy := (isBusy s)[head s := True], head := (head s + 1) mod N\<rparr>))"
proof -
  from assms have c: "canUpdate s" and h: "head s < length (isBusy s)"
    by (simp_all add: shapeA_def)
  show ?thesis
  proof (cases "head s = tail s")
    case True
    with c show ?thesis by (simp add: popIterA_def claimPop_empty)
  next
    case False
    show ?thesis
    proof (cases "isBusy s ! head s")
      case True
      with c h False show ?thesis by (simp add: popIterA_busy)
    next
      case nb: False
      with c h False show ?thesis by (simp add: popIterA_def claimPop_ready)
    qed
  qed
qed

lemma count_outside:
  assumes "i \<notin> set xs"
  shows "filter (\<lambda>j. \<not> b[i := v] ! j) xs = filter (\<lambda>j. \<not> b ! j) xs"
proof (rule filter_cong [OF refl])
  fix x
  assume "x \<in> set xs"
  with assms have "i \<noteq> x" by auto
  then show "(\<not> b[i := v] ! x) = (\<not> b ! x)" by simp
qed

lemma count_release:
  "distinct xs \<Longrightarrow> i \<in> set xs \<Longrightarrow> b ! i \<Longrightarrow> i < length b \<Longrightarrow>
   length (filter (\<lambda>j. \<not> b[i := False] ! j) xs) = Suc (length (filter (\<lambda>j. \<not> b ! j) xs))"
proof (induction xs)
  case Nil
  then show ?case by simp
next
  case (Cons a xs)
  show ?case
  proof (cases "a = i")
    case True
    with Cons.prems have "i \<notin> set xs" by simp
    then have "filter (\<lambda>j. \<not> b[i := False] ! j) xs = filter (\<lambda>j. \<not> b ! j) xs"
      by (rule count_outside)
    with True Cons.prems show ?thesis by simp
  next
    case False
    with Cons.prems have "i \<in> set xs" "distinct xs" by simp_all
    with Cons.IH Cons.prems have "length (filter (\<lambda>j. \<not> b[i := False] ! j) xs) =
        Suc (length (filter (\<lambda>j. \<not> b ! j) xs))" by simp
    with False show ?thesis by simp
  qed
qed

lemma committedA_claim_push:
  assumes "shapeA N s" "(tail s + 1) mod N \<noteq> head s"
  shows "committedA N (s\<lparr>isBusy := (isBusy s)[tail s := True], tail := (tail s + 1) mod N\<rparr>) =
         committedA N s"
proof -
  from assms have h: "head s < N" and t: "tail s < N" and l: "tail s < length (isBusy s)"
    by (simp_all add: shapeA_def)
  from h t assms(2) have r: "ringRange N (head s) ((tail s + 1) mod N) =
      ringRange N (head s) (tail s) @ [tail s]"
    by (rule ringRange_push)
  from h t have "tail s \<notin> set (ringRange N (head s) (tail s))" by (rule ringRange_tail_notin)
  then have "filter (\<lambda>j. \<not> (isBusy s)[tail s := True] ! j) (ringRange N (head s) (tail s)) =
      filter (\<lambda>j. \<not> isBusy s ! j) (ringRange N (head s) (tail s))"
    by (rule count_outside)
  with r l show ?thesis by (simp add: committedA_def)
qed

lemma committedA_claim_pop:
  assumes "shapeA N s" "head s \<noteq> tail s" "\<not> isBusy s ! head s"
  shows "committedA N s =
         Suc (committedA N (s\<lparr>isBusy := (isBusy s)[head s := True], head := (head s + 1) mod N\<rparr>))"
proof -
  from assms have h: "head s < N" and t: "tail s < N"
    by (simp_all add: shapeA_def)
  from h t assms(2) have r: "ringRange N (head s) (tail s) =
      head s # ringRange N ((head s + 1) mod N) (tail s)"
    by (rule ringRange_pop)
  from h have "distinct (ringRange N (head s) (tail s))" by (rule ringRange_distinct)
  with r have "head s \<notin> set (ringRange N ((head s + 1) mod N) (tail s))" by simp
  then have "filter (\<lambda>j. \<not> (isBusy s)[head s := True] ! j) (ringRange N ((head s + 1) mod N) (tail s)) =
      filter (\<lambda>j. \<not> isBusy s ! j) (ringRange N ((head s + 1) mod N) (tail s))"
    by (rule count_outside)
  with assms(3) show ?thesis by (simp add: committedA_def r)
qed

lemma committedA_release_producer:
  assumes "shapeA N s" "i \<in> set (ringRange N (head s) (tail s))" "isBusy s ! i"
  shows "committedA N (s\<lparr>isBusy := (isBusy s)[i := False]\<rparr>) = Suc (committedA N s)"
proof -
  from assms(1) have h: "head s < N" and l: "length (isBusy s) = N" by (simp_all add: shapeA_def)
  from h have d: "distinct (ringRange N (head s) (tail s))" by (rule ringRange_distinct)
  from h assms(2) have "i < N" by (intro ringRange_bound [of N i "head s" "tail s"]) simp_all
  with l have "i < length (isBusy s)" by simp
  with d assms(2,3) show ?thesis by (simp add: committedA_def count_release)
qed

lemma committedA_release_consumer:
  "i \<notin> set (ringRange N (head s) (tail s)) \<Longrightarrow>
   committedA N (s\<lparr>isBusy := (isBusy s)[i := False]\<rparr>) = committedA N s"
  by (simp add: committedA_def count_outside)

lemma ownsA_claim_push:
  assumes "shapeA N s" "(tail s + 1) mod N \<noteq> head s" "\<not> isBusy s ! tail s" "ownsA N s pc"
  shows "ownsA N (s\<lparr>isBusy := (isBusy s)[tail s := True], tail := (tail s + 1) mod N\<rparr>) pc"
proof -
  from assms have h: "head s < N" and t: "tail s < N" and l: "tail s < length (isBusy s)"
    by (simp_all add: shapeA_def)
  from h t assms(2) have r: "ringRange N (head s) ((tail s + 1) mod N) =
      ringRange N (head s) (tail s) @ [tail s]"
    by (rule ringRange_push)
  have keep: "\<And>i. isBusy s ! i \<Longrightarrow> (isBusy s)[tail s := True] ! i"
    using l by (simp add: nth_list_update)
  have ne: "\<And>i. isBusy s ! i \<Longrightarrow> i \<noteq> tail s"
    using assms(3) by auto
  from r have r': "ringRange N (head s) (Suc (tail s) mod N) =
      ringRange N (head s) (tail s) @ [tail s]" by simp
  from assms(4) show ?thesis
    by (auto simp: ownsA_def r' keep dest: ne split: option.splits)
qed

lemma ownsA_claim_pop:
  assumes "shapeA N s" "head s \<noteq> tail s" "\<not> isBusy s ! head s" "ownsA N s pc"
  shows "ownsA N (s\<lparr>isBusy := (isBusy s)[head s := True], head := (head s + 1) mod N\<rparr>) pc"
proof -
  from assms have h: "head s < N" and t: "tail s < N" and l: "head s < length (isBusy s)"
    by (simp_all add: shapeA_def)
  from h t assms(2) have r: "ringRange N (head s) (tail s) =
      head s # ringRange N ((head s + 1) mod N) (tail s)"
    by (rule ringRange_pop)
  have keep: "\<And>i. isBusy s ! i \<Longrightarrow> (isBusy s)[head s := True] ! i"
    using l by (simp add: nth_list_update)
  have ne: "\<And>i. isBusy s ! i \<Longrightarrow> i \<noteq> head s"
    using assms(3) by auto
  from assms(4) show ?thesis
    by (auto simp: ownsA_def r keep dest: ne split: option.splits)
qed

lemma slot_disjoint: "producerSlot pc = Some i \<Longrightarrow> consumerSlot pc = None"
  by (cases pc) simp_all

lemma ownsA_release:
  assumes "ownsA N s pc" "ownedSlot pc \<noteq> Some i"
  shows "ownsA N (s\<lparr>isBusy := (isBusy s)[i := False]\<rparr>) pc"
  using assms by (auto simp: ownsA_def ownedSlot_def dest: slot_disjoint split: option.splits)

lemma ownsA_new_producer:
  assumes "shapeA N s" "(tail s + 1) mod N \<noteq> head s"
  shows "ownsA N (s\<lparr>isBusy := (isBusy s)[tail s := True], tail := (tail s + 1) mod N\<rparr>)
           (PushClaimed x (tail s))"
proof -
  from assms have h: "head s < N" and t: "tail s < N" and l: "tail s < length (isBusy s)"
    by (simp_all add: shapeA_def)
  from h t assms(2) have r: "ringRange N (head s) ((tail s + 1) mod N) =
      ringRange N (head s) (tail s) @ [tail s]"
    by (rule ringRange_push)
  with l show ?thesis by (simp add: ownsA_def)
qed

lemma ownsA_new_consumer:
  assumes "shapeA N s" "head s \<noteq> tail s"
  shows "ownsA N (s\<lparr>isBusy := (isBusy s)[head s := True], head := (head s + 1) mod N\<rparr>)
           (PopClaimed (head s))"
proof -
  from assms have h: "head s < N" and t: "tail s < N" and l: "head s < length (isBusy s)"
    by (simp_all add: shapeA_def)
  from h t assms(2) have r: "ringRange N (head s) (tail s) =
      head s # ringRange N ((head s + 1) mod N) (tail s)"
    by (rule ringRange_pop)
  from h have "distinct (ringRange N (head s) (tail s))" by (rule ringRange_distinct)
  with r have "head s \<notin> set (ringRange N ((head s + 1) mod N) (tail s))" by simp
  with h l show ?thesis by (simp add: ownsA_def)
qed

lemma list_all_nth: "list_all P ts \<Longrightarrow> t < length ts \<Longrightarrow> P (ts ! t)"
  by (simp add: list_all_length)

lemma list_all_mono: "list_all P ts \<Longrightarrow> (\<And>x. P x \<Longrightarrow> Q x) \<Longrightarrow> list_all Q ts"
  by (simp add: list_all_length)

text \<open>Steps that change neither the indices nor the flags.\<close>

lemma invSysA_plain:
  assumes inv: "invSysA N (s, ts)" and t: "t < length ts"
    and same: "head s' = head s" "tail s' = tail s" "isBusy s' = isBusy s"
      "canUpdate s' = canUpdate s" "length (buffer s') = length (buffer s)"
    and slot: "producerSlot p = producerSlot (ts ! t)" "consumerSlot p = consumerSlot (ts ! t)"
    and cnt: "pendingData s' = pendingData s - pendingA (ts ! t) + pendingA p"
  shows "invSysA N (s', ts[t := p])"
proof -
  from inv have sh: "shapeA N s" and ow: "list_all (ownsA N s) ts" and ex: "exclusiveA ts"
    and pd: "pendingData s = int (committedA N s) + sum_list (map pendingA ts)"
    by (simp_all add: invSysA_def)
  from sh same have "shapeA N s'" by (simp add: shapeA_def)
  moreover have "list_all (ownsA N s') (ts[t := p])"
  proof (rule list_all_update)
    from same(1-3) have "\<And>pc. ownsA N s pc \<Longrightarrow> ownsA N s' pc"
      by (simp only: ownsA_cong [of s' s])
    with ow show "list_all (ownsA N s') ts" by (rule list_all_mono)
    from ow t have "ownsA N s (ts ! t)" by (rule list_all_nth)
    with slot same show "ownsA N s' p" by (simp add: ownsA_def cong: option.case_cong)
  qed
  moreover from slot have "ownedSlot p = ownedSlot (ts ! t)"
    by (simp add: ownedSlot_def cong: option.case_cong)
  with ex t have "exclusiveA (ts[t := p])" by (intro exclusiveA_update) simp_all
  moreover from same(1-3) have "committedA N s' = committedA N s" by (rule committedA_cong)
  with pd cnt t have "pendingData s' = int (committedA N s') + sum_list (map pendingA (ts[t := p]))"
    by (simp add: pending_update)
  ultimately show ?thesis by (simp add: invSysA_def)
qed

lemma exclusiveA_others:
  assumes "exclusiveA ts" "t < length ts" "ownedSlot (ts ! t) = Some i" "u < length ts" "u \<noteq> t"
  shows "ownedSlot (ts ! u) \<noteq> Some i"
proof -
  from assms have "ownedSlot (ts ! t) \<noteq> ownedSlot (ts ! u)"
    unfolding exclusiveA_def by (metis option.distinct(1))
  with assms(3) show ?thesis by simp
qed

lemma invSysA_claim_push:
  assumes inv: "invSysA N (s, ts)" and t: "t < length ts" and pc: "ts ! t = Pushing x sd"
    and nf: "(tail s + 1) mod N \<noteq> head s" and nb: "\<not> isBusy s ! tail s"
  shows "invSysA N (s\<lparr>isBusy := (isBusy s)[tail s := True], tail := (tail s + 1) mod N\<rparr>,
           ts[t := PushClaimed x (tail s)])"
proof -
  let ?s' = "s\<lparr>isBusy := (isBusy s)[tail s := True], tail := (tail s + 1) mod N\<rparr>"
  from inv have sh: "shapeA N s" and ow: "list_all (ownsA N s) ts" and ex: "exclusiveA ts"
    and pd: "pendingData s = int (committedA N s) + sum_list (map pendingA ts)"
    by (simp_all add: invSysA_def)
  from sh have "shapeA N ?s'" by (simp add: shapeA_def)
  moreover have "list_all (ownsA N ?s') (ts[t := PushClaimed x (tail s)])"
  proof (rule list_all_update)
    from sh nf nb have "\<And>p. ownsA N s p \<Longrightarrow> ownsA N ?s' p" by (rule ownsA_claim_push)
    with ow show "list_all (ownsA N ?s') ts" by (rule list_all_mono)
    from sh nf show "ownsA N ?s' (PushClaimed x (tail s))" by (rule ownsA_new_producer)
  qed
  moreover have "exclusiveA (ts[t := PushClaimed x (tail s)])"
  proof (rule exclusiveA_update [OF ex t], intro disjI2 allI impI)
    fix u
    assume u: "u < length ts" "u \<noteq> t"
    from ow u(1) have "ownsA N s (ts ! u)" by (rule list_all_nth)
    with nb have "ownedSlot (ts ! u) \<noteq> Some (tail s)" using ownsA_busy by blast
    then show "ownedSlot (ts ! u) \<noteq> ownedSlot (PushClaimed x (tail s))"
      by (simp add: ownedSlot_def)
  qed
  moreover from sh nf have "committedA N ?s' = committedA N s" by (rule committedA_claim_push)
  with pd t pc have "pendingData ?s' = int (committedA N ?s') +
      sum_list (map pendingA (ts[t := PushClaimed x (tail s)]))"
    by (simp add: pending_update)
  ultimately show ?thesis by (simp add: invSysA_def)
qed

lemma invSysA_claim_pop:
  assumes inv: "invSysA N (s, ts)" and t: "t < length ts" and pc: "ts ! t = Popping sd"
    and ne: "head s \<noteq> tail s" and nb: "\<not> isBusy s ! head s"
  shows "invSysA N (s\<lparr>isBusy := (isBusy s)[head s := True], head := (head s + 1) mod N\<rparr>,
           ts[t := PopClaimed (head s)])"
proof -
  let ?s' = "s\<lparr>isBusy := (isBusy s)[head s := True], head := (head s + 1) mod N\<rparr>"
  from inv have sh: "shapeA N s" and ow: "list_all (ownsA N s) ts" and ex: "exclusiveA ts"
    and pd: "pendingData s = int (committedA N s) + sum_list (map pendingA ts)"
    by (simp_all add: invSysA_def)
  from sh have "shapeA N ?s'" by (simp add: shapeA_def)
  moreover have "list_all (ownsA N ?s') (ts[t := PopClaimed (head s)])"
  proof (rule list_all_update)
    from sh ne nb have "\<And>p. ownsA N s p \<Longrightarrow> ownsA N ?s' p" by (rule ownsA_claim_pop)
    with ow show "list_all (ownsA N ?s') ts" by (rule list_all_mono)
    from sh ne show "ownsA N ?s' (PopClaimed (head s))" by (rule ownsA_new_consumer)
  qed
  moreover have "exclusiveA (ts[t := PopClaimed (head s)])"
  proof (rule exclusiveA_update [OF ex t], intro disjI2 allI impI)
    fix u
    assume u: "u < length ts" "u \<noteq> t"
    from ow u(1) have "ownsA N s (ts ! u)" by (rule list_all_nth)
    with nb have "ownedSlot (ts ! u) \<noteq> Some (head s)" using ownsA_busy by blast
    then show "ownedSlot (ts ! u) \<noteq> ownedSlot (PopClaimed (head s))"
      by (simp add: ownedSlot_def)
  qed
  moreover from sh ne nb have "committedA N s = Suc (committedA N ?s')"
    by (rule committedA_claim_pop)
  with pd t pc have "pendingData ?s' = int (committedA N ?s') +
      sum_list (map pendingA (ts[t := PopClaimed (head s)]))"
    by (simp add: pending_update)
  ultimately show ?thesis by (simp add: invSysA_def)
qed

lemma invSysA_release:
  assumes inv: "invSysA N (s, ts)" and t: "t < length ts"
    and pc: "ts ! t = PushCounted i \<or> ts ! t = PopCounted i v"
  shows "invSysA N (s\<lparr>isBusy := (isBusy s)[i := False]\<rparr>, ts[t := Idle])"
proof -
  let ?s' = "s\<lparr>isBusy := (isBusy s)[i := False]\<rparr>"
  from inv have sh: "shapeA N s" and ow: "list_all (ownsA N s) ts" and ex: "exclusiveA ts"
    and pd: "pendingData s = int (committedA N s) + sum_list (map pendingA ts)"
    by (simp_all add: invSysA_def)
  from pc have own: "ownedSlot (ts ! t) = Some i" by (auto simp: ownedSlot_def)
  from ow t have me: "ownsA N s (ts ! t)" by (rule list_all_nth)
  from sh have "shapeA N ?s'" by (simp add: shapeA_def)
  moreover have "list_all (ownsA N ?s') (ts[t := Idle])"
    unfolding list_all_length
  proof (intro allI impI)
    fix u
    assume "u < length (ts[t := Idle])"
    then have u: "u < length ts" by simp
    show "ownsA N ?s' (ts[t := Idle] ! u)"
    proof (cases "u = t")
      case True
      with t show ?thesis by (simp add: ownsA_def)
    next
      case False
      from ow u have "ownsA N s (ts ! u)" by (rule list_all_nth)
      moreover from ex t own u False have "ownedSlot (ts ! u) \<noteq> Some i"
        by (rule exclusiveA_others)
      ultimately have "ownsA N ?s' (ts ! u)" by (rule ownsA_release)
      with False show ?thesis by simp
    qed
  qed
  moreover from ex t have "exclusiveA (ts[t := Idle])"
    by (rule exclusiveA_update) (simp add: ownedSlot_def)
  moreover have "pendingData ?s' = int (committedA N ?s') + sum_list (map pendingA (ts[t := Idle]))"
  proof (cases "ts ! t = PushCounted i")
    case True
    with me have "i \<in> set (ringRange N (head s) (tail s))" "isBusy s ! i"
      by (simp_all add: ownsA_def)
    with sh have "committedA N ?s' = Suc (committedA N s)"
      by (rule committedA_release_producer)
    with pd t True show ?thesis by (simp add: pending_update)
  next
    case False
    with pc have p: "ts ! t = PopCounted i v" by simp
    with me have "i \<notin> set (ringRange N (head s) (tail s))"
      by (simp add: ownsA_def)
    then have "committedA N ?s' = committedA N s" by (rule committedA_release_consumer)
    with pd t p show ?thesis by (simp add: pending_update)
  qed
  ultimately show ?thesis by (simp add: invSysA_def)
qed

lemma invSysA_shape: "invSysA N (s, ts) \<Longrightarrow> shapeA N s"
  by (simp add: invSysA_def)

lemma invSysA_step:
  assumes inv: "invSysA N c" and st: "stepA N c c'"
  shows "invSysA N c'"
  using st
proof (cases rule: stepA.cases)
  case (callPush t ts s x)
  with inv show ?thesis
    by (auto intro!: invSysA_plain simp: pushBeginA_def)
next
  case (pushPassClaimed t ts x sd s i s')
  with inv have sh: "shapeA N s" by (simp add: invSysA_shape)
  from pushPassClaimed(5) pushIterA_shape [OF sh]
  have nf: "(tail s + 1) mod N \<noteq> head s" and nb: "\<not> isBusy s ! tail s"
    and eq: "i = tail s"
      "s' = s\<lparr>isBusy := (isBusy s)[tail s := True], tail := (tail s + 1) mod N\<rparr>"
    by (auto split: if_splits)
  from inv pushPassClaimed(1) have "invSysA N (s, ts)" by simp
  from this pushPassClaimed(3,4) nf nb
  have "invSysA N (s\<lparr>isBusy := (isBusy s)[tail s := True], tail := (tail s + 1) mod N\<rparr>,
      ts[t := PushClaimed x (tail s)])"
    by (rule invSysA_claim_push)
  with eq pushPassClaimed(2) show ?thesis by simp
next
  case (pushPassFull t ts x sd s s')
  with inv have sh: "shapeA N s" by (simp add: invSysA_shape)
  from pushPassFull(5) pushIterA_shape [OF sh] have "s' = s"
    by (auto split: if_splits)
  with inv pushPassFull show ?thesis
    by (auto intro!: invSysA_plain)
next
  case (pushPassRetry t ts x sd s r s')
  with inv have sh: "shapeA N s" by (simp add: invSysA_shape)
  from pushPassRetry(5) pushIterA_shape [OF sh] have "s' = s"
    by (auto split: if_splits)
  with inv pushPassRetry show ?thesis
    by (auto intro!: invSysA_plain)
next
  case (pushWrite t ts x i s)
  with inv show ?thesis
    by (auto intro!: invSysA_plain)
next
  case (pushCount t ts i s)
  with inv show ?thesis
    by (auto intro!: invSysA_plain)
next
  case (pushRelease t ts i s)
  with inv show ?thesis
    by (auto intro: invSysA_release)
next
  case (pushAbort t ts s)
  with inv show ?thesis
    by (auto intro!: invSysA_plain)
next
  case (callPop t ts s)
  with inv show ?thesis
    by (auto intro!: invSysA_plain)
next
  case (popPassClaimed t ts sd s i s')
  with inv have sh: "shapeA N s" by (simp add: invSysA_shape)
  from popPassClaimed(5) popIterA_shape [OF sh]
  have ne: "head s \<noteq> tail s" and nb: "\<not> isBusy s ! head s"
    and eq: "i = head s"
      "s' = s\<lparr>isBusy := (isBusy s)[head s := True], head := (head s + 1) mod N\<rparr>"
    by (auto split: if_splits)
  from inv popPassClaimed(1) have "invSysA N (s, ts)" by simp
  from this popPassClaimed(3,4) ne nb
  have "invSysA N (s\<lparr>isBusy := (isBusy s)[head s := True], head := (head s + 1) mod N\<rparr>,
      ts[t := PopClaimed (head s)])"
    by (rule invSysA_claim_pop)
  with eq popPassClaimed(2) show ?thesis by simp
next
  case (popPassEmpty t ts sd s s')
  with inv have sh: "shapeA N s" by (simp add: invSysA_shape)
  from popPassEmpty(5) popIterA_shape [OF sh] have "s' = s"
    by (auto split: if_splits)
  with inv popPassEmpty show ?thesis
    by (auto intro!: invSysA_plain)
next
  case (popPassRetry t ts sd s r s')
  with inv have sh: "shapeA N s" by (simp add: invSysA_shape)
  from popPassRetry(5) popIterA_shape [OF sh] have "s' = s"
    by (auto split: if_splits)
  with inv popPassRetry show ?thesis
    by (auto intro!: invSysA_plain)
next
  case (popRead t ts i s)
  with inv show ?thesis
    by (auto intro!: invSysA_plain)
next
  case (popCount t ts i v s)
  with inv show ?thesis
    by (auto intro!: invSysA_plain)
next
  case (popRelease t ts i v s)
  with inv show ?thesis
    by (auto intro: invSysA_release)
qed

lemma invSysA_start: "0 < N \<Longrightarrow> invSysA N (initA N d, replicate n Idle)"
proof -
  assume "0 < N"
  then have "shapeA N (initA N d)" by (simp add: shapeA_def initA_def)
  moreover have "list_all (ownsA N (initA N d)) (replicate n Idle)"
    by (simp add: list_all_length ownsA_def)
  moreover have "exclusiveA (replicate n (Idle :: 'a pcA))"
    by (simp add: exclusiveA_def ownedSlot_def)
  moreover have "committedA N (initA N d) = 0"
    by (simp add: committedA_def initA_def ringRange_def)
  moreover have "sum_list (map pendingA (replicate n (Idle :: 'a pcA))) = 0"
    by (induction n) simp_all
  ultimately show ?thesis by (simp add: invSysA_def initA_def)
qed

lemma interleavedA_inv: "interleavedA N d n c \<Longrightarrow> 0 < N \<Longrightarrow> invSysA N c"
  by (induction rule: interleavedA.induct) (auto intro: invSysA_start invSysA_step)

section \<open>A single caller is one thread\<close>

lemma interleavedA_step1:
  "interleavedA N d n c \<Longrightarrow> stepA N c c'' \<Longrightarrow> c'' = c' \<Longrightarrow> interleavedA N d n c'"
  by (auto intro: interleavedA.step)

lemma single_push:
  assumes i: "interleavedA N d 1 (s, [Idle])" and p: "pushA N x s = Some (Inr (ok, s'))"
    and inv: "invA N s"
  shows "interleavedA N d 1 (s', [Idle])"
proof (cases "(tail s + 1) mod N = head s")
  case True
  with inv p have "s' = s" by (simp add: invA_def pushA_full)
  with i show ?thesis by simp
next
  case False
  from inv have c: "canUpdate s" and l: "tail s < length (isBusy s)" "tail s < length (buffer s)"
    and nb: "\<not> isBusy s ! tail s"
    by (simp_all add: invA_def)
  from c l nb False p have s': "s' = s\<lparr>buffer := (buffer s)[tail s := x],
      tail := (tail s + 1) mod N, pendingData := pendingData s + 1\<rparr>"
    by (simp add: pushA_free)
  let ?s1 = "pushBeginA s"
  let ?s2 = "?s1\<lparr>isBusy := (isBusy ?s1)[tail ?s1 := True], tail := (tail ?s1 + 1) mod N\<rparr>"
  have 1: "interleavedA N d 1 (?s1, [Pushing x sleepDurationStartA])"
    by (rule interleavedA_step1 [OF i stepA.callPush [where t = 0 and x = x]]) simp_all
  from c l nb False have it: "pushIterA N ?s1 = Inr (Some (tail s), False, ?s2)"
    by (simp add: pushIterA_def claimPush_free pushBeginA_def)
  have 2: "interleavedA N d 1 (?s2, [PushClaimed x (tail s)])"
    by (rule interleavedA_step1 [OF 1 stepA.pushPassClaimed [where t = 0, OF _ _ it]]) simp_all
  let ?s3 = "?s2\<lparr>buffer := (buffer ?s2)[tail s := x]\<rparr>"
  from l have 3: "interleavedA N d 1 (?s3, [PushWritten (tail s)])"
    by (intro interleavedA_step1 [OF 2 stepA.pushWrite [where t = 0 and x = x and i = "tail s"]])
      (simp_all add: pushBeginA_def)
  let ?s4 = "?s3\<lparr>pendingData := pendingData ?s3 - 1\<rparr>"
  have 4: "interleavedA N d 1 (?s4, [PushCounted (tail s)])"
    by (rule interleavedA_step1 [OF 3 stepA.pushCount [where t = 0 and i = "tail s"]]) simp_all
  let ?s5 = "?s4\<lparr>isBusy := (isBusy ?s4)[tail s := False]\<rparr>"
  from l have 5: "interleavedA N d 1 (?s5, [Idle])"
    by (intro interleavedA_step1 [OF 4 stepA.pushRelease [where t = 0 and i = "tail s"]])
      (simp_all add: pushBeginA_def)
  from nb l have "?s5 = s'"
    by (simp add: s' pushBeginA_def list_update_same_conv)
  with 5 show ?thesis by simp
qed

lemma single_pop:
  assumes i: "interleavedA N d 1 (s, [Idle])" and p: "popA N q s = Some (Inr (ok, v, s'))"
    and inv: "invA N s"
  shows "interleavedA N d 1 (s', [Idle])"
proof (cases "head s = tail s")
  case True
  with inv p have "s' = s" by (simp add: invA_def popA_empty)
  with i show ?thesis by simp
next
  case False
  from inv have c: "canUpdate s" and l: "head s < length (isBusy s)" "head s < length (buffer s)"
    and nb: "\<not> isBusy s ! head s"
    by (simp_all add: invA_def)
  from c l nb False p have s': "s' = s\<lparr>head := (head s + 1) mod N,
      pendingData := pendingData s - 1\<rparr>"
    by (simp add: popA_ready)
  let ?s2 = "s\<lparr>isBusy := (isBusy s)[head s := True], head := (head s + 1) mod N\<rparr>"
  have 1: "interleavedA N d 1 (s, [Popping sleepDurationStartA])"
    by (rule interleavedA_step1 [OF i stepA.callPop [where t = 0]]) simp_all
  from c l nb False have it: "popIterA N s = Inr (Some (head s), False, ?s2)"
    by (simp add: popIterA_def claimPop_ready)
  have 2: "interleavedA N d 1 (?s2, [PopClaimed (head s)])"
    by (rule interleavedA_step1 [OF 1 stepA.popPassClaimed [where t = 0, OF _ _ it]]) simp_all
  from l have 3: "interleavedA N d 1 (?s2, [PopRead (head s) (buffer ?s2 ! head s)])"
    by (intro interleavedA_step1 [OF 2 stepA.popRead [where t = 0 and i = "head s"]]) simp_all
  let ?s4 = "?s2\<lparr>pendingData := pendingData ?s2 - 1\<rparr>"
  have 4: "interleavedA N d 1 (?s4, [PopCounted (head s) (buffer ?s2 ! head s)])"
    by (rule interleavedA_step1 [OF 3 stepA.popCount [where t = 0 and i = "head s"]]) simp_all
  let ?s5 = "?s4\<lparr>isBusy := (isBusy ?s4)[head s := False]\<rparr>"
  from l have 5: "interleavedA N d 1 (?s5, [Idle])"
    by (intro interleavedA_step1 [OF 4 stepA.popRelease [where t = 0 and i = "head s"]]) simp_all
  from nb l have "?s5 = s'"
    by (simp add: s' list_update_same_conv)
  with 5 show ?thesis by simp
qed

lemma reachableA_interleavedA:
  "reachableA N d s \<Longrightarrow> 0 < N \<Longrightarrow> interleavedA N d 1 (s, [Idle])"
proof (induction rule: reachableA.induct)
  case fresh
  have "interleavedA N d 1 (initA N d, replicate 1 Idle)" by (rule interleavedA.start)
  then show ?case by simp
next
  case (afterPush s x ok s')
  from afterPush.hyps(1) afterPush.prems have "invA N s" by (rule reachableA_invA)
  with afterPush.IH [OF afterPush.prems] afterPush.hyps(2) show ?case by (rule single_push)
next
  case (afterPop s p ok v s')
  from afterPop.hyps(1) afterPop.prems have "invA N s" by (rule reachableA_invA)
  with afterPop.IH [OF afterPop.prems] afterPop.hyps(2) show ?case by (rule single_pop)
qed

section \<open>Counters and sample states\<close>

lemma word_of_nat_pos: "n < 2 ^ 64 \<Longrightarrow> (0 < (of_nat n :: 64 word)) = (0 < n)"
proof (cases "n = 0")
  case True
  then show ?thesis by simp
next
  case False
  assume "n < 2 ^ 64"
  with False have "(of_nat n :: 64 word) \<noteq> 0" by (intro of_nat_neq_0) simp_all
  with False show ?thesis by (simp add: word_gt_0)
qed

lemma three_pushesB:
  "reachableB 4 CHR ''-'' \<lparr>buffer = ''ABC-'', head = 0, tail = 3, canUpdate = True,
     isBusy = [False, False, False, False], pendingData = 3, pendingActions = 3\<rparr>"
proof -
  have p1: "pushB 4 CHR ''A'' (initB 4 CHR ''-'') = Some (Inr (True,
      \<lparr>buffer = ''A---'', head = 0, tail = 1, canUpdate = True,
        isBusy = [False, False, False, False], pendingData = 1, pendingActions = 1\<rparr>))"
    by code_simp
  have p2: "pushB 4 CHR ''B'' \<lparr>buffer = ''A---'', head = 0, tail = 1, canUpdate = True,
        isBusy = [False, False, False, False], pendingData = 1, pendingActions = 1\<rparr> =
      Some (Inr (True, \<lparr>buffer = ''AB--'', head = 0, tail = 2, canUpdate = True,
        isBusy = [False, False, False, False], pendingData = 2, pendingActions = 2\<rparr>))"
    by code_simp
  have p3: "pushB 4 CHR ''C'' \<lparr>buffer = ''AB--'', head = 0, tail = 2, canUpdate = True,
        isBusy = [False, False, False, False], pendingData = 2, pendingActions = 2\<rparr> =
      Some (Inr (True, \<lparr>buffer = ''ABC-'', head = 0, tail = 3, canUpdate = True,
        isBusy = [False, False, False, False], pendingData = 3, pendingActions = 3\<rparr>))"
    by code_simp
  show ?thesis
    by (rule reachableB.afterPushB [OF reachableB.afterPushB
          [OF reachableB.afterPushB [OF reachableB.freshB p1] p2] p3])
qed

lemma three_pushesC:
  "reachableC 4 CHR ''-'' \<lparr>buffer = ''ABC-'', head = 0, tail = 3, canUpdate = True,
     hasData = [True, True, True, False], pendingActionsC = 3, pendingDataC = 3\<rparr>"
proof -
  have p1: "pushC 4 CHR ''A'' (initC 4 CHR ''-'') = Some (Inr ((),
      \<lparr>buffer = ''A---'', head = 0, tail = 1, canUpdate = True,
        hasData = [True, False, False, False], pendingActionsC = 1, pendingDataC = 1\<rparr>))"
    by code_simp
  have p2: "pushC 4 CHR ''B'' \<lparr>buffer = ''A---'', head = 0, tail = 1, canUpdate = True,
        hasData = [True, False, False, False], pendingActionsC = 1, pendingDataC = 1\<rparr> =
      Some (Inr ((), \<lparr>buffer = ''AB--'', head = 0, tail = 2, canUpdate = True,
        hasData = [True, True, False, False], pendingActionsC = 2, pendingDataC = 2\<rparr>))"
    by code_simp
  have p3: "pushC 4 CHR ''C'' \<lparr>buffer = ''AB--'', head = 0, tail = 2, canUpdate = True,
        hasData = [True, True, False, False], pendingActionsC = 2, pendingDataC = 2\<rparr> =
      Some (Inr ((), \<lparr>buffer = ''ABC-'', head = 0, tail = 3, canUpdate = True,
        hasData = [True, True, True, False], pendingActionsC = 3, pendingDataC = 3\<rparr>))"
    by code_simp
  show ?thesis
    by (rule reachableC.afterPushC [OF reachableC.afterPushC
          [OF reachableC.afterPushC [OF reachableC.freshC p1] p2] p3])
qed

lemma three_pushesA:
  "reachableA 4 CHR ''-'' \<lparr>buffer = ''ABC-'', head = 0, tail = 3, canUpdate = True,
     isBusy = [False, False, False, False], pendingData = 3\<rparr>"
  by (rule runA_reachableA [OF reachableA.fresh three_pushes])

lemma committedA_pushBeginB: "committedA N (pushBeginB s) = committedA N s"
  by (simp add: committedA_def pushBeginB_def)

lemma invA_counter: "invA N s \<Longrightarrow> pendingData s = int (committedA N s)"
  by (simp add: committedA_invA) (simp add: invA_def)

lemma invB_counter: "invB N s \<Longrightarrow> pendingData s = int (committedA N s)"
  by (simp add: invB_def committedA_quiet)

lemma invC_counter: "invC N s \<Longrightarrow> pendingDataC s = of_nat (committedC s)"
  by (simp add: invC_def)

lemma invC_committed_less: "invC N s \<Longrightarrow> committedC s < N"
  by (simp add: invC_def)

lemma one_producer_announced:
  "interleavedA 4 CHR ''-'' 1 (pushBeginA (initA 4 CHR ''-''), [Pushing CHR ''A'' sleepDurationStartA])"
proof -
  have "interleavedA 4 CHR ''-'' 1 (initA 4 CHR ''-'', replicate 1 Idle)"
    by (rule interleavedA.start)
  then have 0: "interleavedA 4 CHR ''-'' 1 (initA 4 CHR ''-'', [Idle])" by simp
  show ?thesis
    by (rule interleavedA_step1 [OF 0 stepA.callPush [where t = 0 and x = "CHR ''A''"]]) simp_all
qed

lemma two_producers:
  "interleavedA 4 CHR ''-'' 2
     (\<lparr>buffer = ''-B--'', head = 0, tail = 2, canUpdate = True,
        isBusy = [True, False, False, False], pendingData = 3\<rparr>,
      [PushClaimed CHR ''A'' 0, Idle])"
proof -
  have "interleavedA 4 CHR ''-'' 2 (initA 4 CHR ''-'', replicate 2 Idle)"
    by (rule interleavedA.start)
  then have 0: "interleavedA 4 CHR ''-'' 2
     (\<lparr>buffer = ''----'', head = 0, tail = 0, canUpdate = True,
        isBusy = [False, False, False, False], pendingData = 0\<rparr>, [Idle, Idle])"
    by (simp add: initA_def numeral_2_eq_2 numeral_Bit0 replicate_add)
  have 1: "interleavedA 4 CHR ''-'' 2
     (\<lparr>buffer = ''----'', head = 0, tail = 0, canUpdate = True,
        isBusy = [False, False, False, False], pendingData = 2\<rparr>,
      [Pushing CHR ''A'' sleepDurationStartA, Idle])"
    by (rule interleavedA_step1 [OF 0 stepA.callPush [where t = 0 and x = "CHR ''A''"]])
      (simp_all add: pushBeginA_def)
  have 2: "interleavedA 4 CHR ''-'' 2
     (\<lparr>buffer = ''----'', head = 0, tail = 0, canUpdate = True,
        isBusy = [False, False, False, False], pendingData = 4\<rparr>,
      [Pushing CHR ''A'' sleepDurationStartA, Pushing CHR ''B'' sleepDurationStartA])"
    by (rule interleavedA_step1 [OF 1 stepA.callPush [where t = 1 and x = "CHR ''B''"]])
      (simp_all add: pushBeginA_def)
  have 3: "interleavedA 4 CHR ''-'' 2
     (\<lparr>buffer = ''----'', head = 0, tail = 1, canUpdate = True,
        isBusy = [True, False, False, False], pendingData = 4\<rparr>,
      [PushClaimed CHR ''A'' 0, Pushing CHR ''B'' sleepDurationStartA])"
    by (rule interleavedA_step1 [OF 2 stepA.pushPassClaimed [where t = 0 and i = 0
            and s' = "\<lparr>buffer = ''----'', head = 0, tail = 1, canUpdate = True,
              isBusy = [True, False, False, False], pendingData = 4\<rparr>"]])
      (simp_all add: pushIterA_def claimPush_def at_def)
  have 4: "interleavedA 4 CHR ''-'' 2
     (\<lparr>buffer = ''----'', head = 0, tail = 2, canUpdate = True,
        isBusy = [True, True, False, False], pendingData = 4\<rparr>,
      [PushClaimed CHR ''A'' 0, PushClaimed CHR ''B'' 1])"
    by (rule interleavedA_step1 [OF 3 stepA.pushPassClaimed [where t = 1 and i = 1
            and s' = "\<lparr>buffer = ''----'', head = 0, tail = 2, canUpdate = True,
              isBusy = [True, True, False, False], pendingData = 4\<rparr>"]])
      (simp_all add: pushIterA_def claimPush_def at_def)
  have 5: "interleavedA 4 CHR ''-'' 2
     (\<lparr>buffer = ''-B--'', head = 0, tail = 2, canUpdate = True,
        isBusy = [True, True, False, False], pendingData = 4\<rparr>,
      [PushClaimed CHR ''A'' 0, PushWritten 1])"
    by (rule interleavedA_step1 [OF 4 stepA.pushWrite [where t = 1 and i = 1 and x = "CHR ''B''"]])
      simp_all
  have 6: "interleavedA 4 CHR ''-'' 2
     (\<lparr>buffer = ''-B--'', head = 0, tail = 2, canUpdate = True,
        isBusy = [True, True, False, False], pendingData = 3\<rparr>,
      [PushClaimed CHR ''A'' 0, PushCounted 1])"
    by (rule interleavedA_step1 [OF 5 stepA.pushCount [where t = 1 and i = 1]]) simp_all
  show ?thesis
    by (rule interleavedA_step1 [OF 6 stepA.pushRelease [where t = 1 and i = 1]]) simp_all
qed

lemma nothing_pending:
  "list_all (\<lambda>p. pendingA p = 0) ts \<Longrightarrow> sum_list (map pendingA ts) = 0"
  by (induction ts) simp_all

lemma interleavedA_counter:
  assumes "interleavedA N d n (s, ts)" "0 < N"
  shows "pendingData s = int (committedA N s) + sum_list (map pendingA ts)"
  using interleavedA_inv [OF assms] by (simp add: invSysA_def)

lemma interleavedA_canUpdate:
  assumes "interleavedA N d n (s, ts)" "0 < N"
  shows "canUpdate s"
  using interleavedA_inv [OF assms] by (simp add: invSysA_def shapeA_def)

lemma interleavedA_exclusive:
  assumes "interleavedA N d n (s, ts)" "0 < N"
    and "t < length ts" "u < length ts" "u \<noteq> t" "ownedSlot (ts ! t) = Some i"
  shows "ownedSlot (ts ! u) \<noteq> Some i"
proof -
  from interleavedA_inv [OF assms(1,2)] have "exclusiveA ts" by (simp add: invSysA_def)
  from this assms(3) assms(6) assms(4) assms(5) show ?thesis by (rule exclusiveA_others)
qed

lemma interleavedA_owned_busy:
  assumes "interleavedA N d n (s, ts)" "0 < N" "t < length ts" "ownedSlot (ts ! t) = Some i"
  shows "isBusy s ! i"
proof -
  from interleavedA_inv [OF assms(1,2)] have "list_all (ownsA N s) ts" by (simp add: invSysA_def)
  then have "ownsA N s (ts ! t)" using assms(3) by (rule list_all_nth)
  then show ?thesis using assms(4) by (rule ownsA_busy)
qed

section \<open>The state of a slot at the claim steps\<close>

lemma slotStateA_claim_push:
  assumes "head s < N" "tail s < N" "(tail s + 1) mod N \<noteq> head s"
    "tail s < length (isBusy s)" "\<not> isBusy s ! tail s"
  shows "slotStateA N s (tail s) = SlotFree \<and>
         slotStateA N (s\<lparr>isBusy := (isBusy s)[tail s := True], tail := (tail s + 1) mod N\<rparr>) (tail s) =
           ClaimedByProducer"
proof -
  from assms(1,2) have "tail s \<notin> set (ringRange N (head s) (tail s))" by (rule ringRange_tail_notin)
  with assms(5) have "slotStateA N s (tail s) = SlotFree" by (simp add: slotStateA_def)
  moreover from assms(1-3) have "ringRange N (head s) ((tail s + 1) mod N) =
      ringRange N (head s) (tail s) @ [tail s]" by (rule ringRange_push)
  then have "tail s \<in> set (ringRange N (head s) ((tail s + 1) mod N))" by simp
  with assms(4) have "slotStateA N (s\<lparr>isBusy := (isBusy s)[tail s := True],
      tail := (tail s + 1) mod N\<rparr>) (tail s) = ClaimedByProducer"
    by (simp add: slotStateA_def)
  ultimately show ?thesis by simp
qed

lemma slotStateC_claim_push:
  assumes "head s < N" "tail s < N" "(tail s + 1) mod N \<noteq> head s" "\<not> hasData s ! tail s"
  shows "slotStateC N s (tail s) = SlotFree \<and>
         slotStateC N (s\<lparr>tail := (tail s + 1) mod N\<rparr>) (tail s) = ClaimedByProducer"
proof -
  from assms(1,2) have "tail s \<notin> set (ringRange N (head s) (tail s))" by (rule ringRange_tail_notin)
  with assms(4) have "slotStateC N s (tail s) = SlotFree" by (simp add: slotStateC_def)
  moreover from assms(1-3) have "ringRange N (head s) ((tail s + 1) mod N) =
      ringRange N (head s) (tail s) @ [tail s]" by (rule ringRange_push)
  then have "tail s \<in> set (ringRange N (head s) ((tail s + 1) mod N))" by simp
  with assms(4) have "slotStateC N (s\<lparr>tail := (tail s + 1) mod N\<rparr>) (tail s) = ClaimedByProducer"
    by (simp add: slotStateC_def)
  ultimately show ?thesis by simp
qed

lemma ringRange_head:
  assumes "h < N" "t < N" "h \<noteq> t"
  shows "h \<in> set (ringRange N h t) \<and> h \<notin> set (ringRange N ((h + 1) mod N) t)"
proof -
  from assms have r: "ringRange N h t = h # ringRange N ((h + 1) mod N) t" by (rule ringRange_pop)
  from assms(1) have "distinct (ringRange N h t)" by (rule ringRange_distinct)
  with r have "h \<notin> set (ringRange N ((h + 1) mod N) t)" by simp
  moreover from r have "h \<in> set (ringRange N h t)" by simp
  ultimately show ?thesis by simp
qed

lemma slotStateA_claim_pop:
  assumes "head s < N" "tail s < N" "head s \<noteq> tail s"
    "head s < length (isBusy s)" "\<not> isBusy s ! head s"
  shows "slotStateA N s (head s) = Readable \<and>
         slotStateA N (s\<lparr>isBusy := (isBusy s)[head s := True], head := (head s + 1) mod N\<rparr>) (head s) =
           ClaimedByConsumer"
proof -
  from assms(1-3) have "head s \<in> set (ringRange N (head s) (tail s)) \<and>
      head s \<notin> set (ringRange N ((head s + 1) mod N) (tail s))" by (rule ringRange_head)
  with assms(4,5) show ?thesis by (simp add: slotStateA_def)
qed

lemma slotStateA_busy_head:
  assumes "head s < N" "tail s < N" "head s \<noteq> tail s" "isBusy s ! head s"
  shows "slotStateA N s (head s) = ClaimedByProducer"
proof -
  from assms(1-3) have "head s \<in> set (ringRange N (head s) (tail s)) \<and>
      head s \<notin> set (ringRange N ((head s + 1) mod N) (tail s))" by (rule ringRange_head)
  with assms(4) show ?thesis by (simp add: slotStateA_def)
qed

lemma slotStateC_claim_pop:
  assumes "head s < N" "tail s < N" "head s \<noteq> tail s" "hasData s ! head s"
  shows "slotStateC N s (head s) = Readable \<and>
         slotStateC N (s\<lparr>head := (head s + 1) mod N\<rparr>) (head s) = ClaimedByConsumer"
proof -
  from assms(1-3) have "head s \<in> set (ringRange N (head s) (tail s)) \<and>
      head s \<notin> set (ringRange N ((head s + 1) mod N) (tail s))" by (rule ringRange_head)
  with assms(4) show ?thesis by (simp add: slotStateC_def)
qed

lemma slotStateC_unwritten_head:
  assumes "head s < N" "tail s < N" "head s \<noteq> tail s" "\<not> hasData s ! head s"
  shows "slotStateC N s (head s) = ClaimedByProducer"
proof -
  from assms(1-3) have "head s \<in> set (ringRange N (head s) (tail s)) \<and>
      head s \<notin> set (ringRange N ((head s + 1) mod N) (tail s))" by (rule ringRange_head)
  with assms(4) show ?thesis by (simp add: slotStateC_def)
qed

lemma claimPopC_unwritten:
  "head s \<noteq> tail s \<Longrightarrow> head s < length (hasData s) \<Longrightarrow> \<not> hasData s ! head s \<Longrightarrow>
   claimPopC N s = Inr (None, True, s)"
  by (simp add: claimPopC_def at_def)

lemma claimPushC_unread:
  "(tail s + 1) mod N \<noteq> head s \<Longrightarrow> tail s < length (hasData s) \<Longrightarrow> hasData s ! tail s \<Longrightarrow>
   claimPushC N s = Inr (None, s)"
  by (simp add: claimPushC_def at_def)

lemma pushIterA_free:
  "canUpdate s \<Longrightarrow> (tail s + 1) mod N \<noteq> head s \<Longrightarrow> tail s < length (isBusy s) \<Longrightarrow>
   \<not> isBusy s ! tail s \<Longrightarrow>
   pushIterA N s = Inr (Some (tail s), False,
     s\<lparr>isBusy := (isBusy s)[tail s := True], tail := (tail s + 1) mod N\<rparr>)"
  by (simp add: pushIterA_def claimPush_free)

lemma popIterA_ready:
  "canUpdate s \<Longrightarrow> head s \<noteq> tail s \<Longrightarrow> head s < length (isBusy s) \<Longrightarrow>
   \<not> isBusy s ! head s \<Longrightarrow>
   popIterA N s = Inr (Some (head s), False,
     s\<lparr>isBusy := (isBusy s)[head s := True], head := (head s + 1) mod N\<rparr>)"
  by (simp add: popIterA_def claimPop_ready)

section \<open>Interleaved threads of revision C: what every state satisfies\<close>

lemma exclusiveC_update:
  assumes "exclusiveC ts" "t < length ts"
    and "ownedSlotC p = None \<or> ownedSlotC p = ownedSlotC (ts ! t) \<or>
         (\<forall>u < length ts. u \<noteq> t \<longrightarrow> ownedSlotC (ts ! u) \<noteq> ownedSlotC p)"
  shows "exclusiveC (ts[t := p])"
  unfolding exclusiveC_def
proof (intro allI impI)
  fix a b
  assume h: "a < length (ts[t := p]) \<and> b < length (ts[t := p]) \<and> a \<noteq> b \<and>
      ownedSlotC (ts[t := p] ! a) \<noteq> None"
  then have ab: "a < length ts" "b < length ts" "a \<noteq> b" by simp_all
  show "ownedSlotC (ts[t := p] ! a) \<noteq> ownedSlotC (ts[t := p] ! b)"
  proof (cases "a = t")
    case True
    with ab have b: "ts[t := p] ! b = ts ! b" by simp
    from True assms(2) have a: "ts[t := p] ! a = p" by simp
    from h a have pn: "ownedSlotC p \<noteq> None" by simp
    from assms(3) show ?thesis
    proof (elim disjE)
      assume "ownedSlotC p = None"
      with pn show ?thesis by simp
    next
      assume e: "ownedSlotC p = ownedSlotC (ts ! t)"
      with pn assms(1) assms(2) ab True have "ownedSlotC (ts ! t) \<noteq> ownedSlotC (ts ! b)"
        unfolding exclusiveC_def by metis
      with a b e show ?thesis by simp
    next
      assume "\<forall>u < length ts. u \<noteq> t \<longrightarrow> ownedSlotC (ts ! u) \<noteq> ownedSlotC p"
      with ab True have "ownedSlotC (ts ! b) \<noteq> ownedSlotC p" by metis
      with a b show ?thesis by simp
    qed
  next
    case False
    with ab have a: "ts[t := p] ! a = ts ! a" by simp
    show ?thesis
    proof (cases "b = t")
      case bt: True
      with assms(2) have b: "ts[t := p] ! b = p" by simp
      from h a have an: "ownedSlotC (ts ! a) \<noteq> None" by simp
      from assms(3) show ?thesis
      proof (elim disjE)
        assume "ownedSlotC p = None"
        with an a b show ?thesis by simp
      next
        assume e: "ownedSlotC p = ownedSlotC (ts ! t)"
        from an assms(1) assms(2) ab bt have "ownedSlotC (ts ! a) \<noteq> ownedSlotC (ts ! t)"
          unfolding exclusiveC_def by metis
        with a b e show ?thesis by simp
      next
        assume "\<forall>u < length ts. u \<noteq> t \<longrightarrow> ownedSlotC (ts ! u) \<noteq> ownedSlotC p"
        with ab False have "ownedSlotC (ts ! a) \<noteq> ownedSlotC p" by metis
        with a b show ?thesis by simp
      qed
    next
      case bf: False
      with ab have b: "ts[t := p] ! b = ts ! b" by simp
      from h a have an: "ownedSlotC (ts ! a) \<noteq> None" by simp
      with assms(1) ab have "ownedSlotC (ts ! a) \<noteq> ownedSlotC (ts ! b)"
        unfolding exclusiveC_def by metis
      with a b show ?thesis by simp
    qed
  qed
qed

lemma exclusiveC_others:
  assumes "exclusiveC ts" "t < length ts" "ownedSlotC (ts ! t) = Some i" "u < length ts" "u \<noteq> t"
  shows "ownedSlotC (ts ! u) \<noteq> Some i"
proof -
  from assms have "ownedSlotC (ts ! t) \<noteq> ownedSlotC (ts ! u)"
    unfolding exclusiveC_def by (metis option.distinct(1))
  with assms(3) show ?thesis by simp
qed

lemma slotC_disjoint: "producerSlotC pc = Some i \<Longrightarrow> consumerSlotC pc = None"
  by (cases pc) simp_all

lemma ownsC_cong:
  "head s' = head s \<Longrightarrow> tail s' = tail s \<Longrightarrow> hasData s' = hasData s \<Longrightarrow>
   ownsC N s' pc = ownsC N s pc"
  by (simp add: ownsC_def cong: option.case_cong)

lemma readableC_cong:
  "head s' = head s \<Longrightarrow> tail s' = tail s \<Longrightarrow> hasData s' = hasData s \<Longrightarrow>
   readableC N s' = readableC N s"
  by (simp add: readableC_def)

lemma pushPassC_shape:
  assumes "shapeC N s"
  shows "pushPassC N s =
     Some (if (tail s + 1) mod N = head s then Inr (None, s)
           else if hasData s ! tail s then Inr (None, s)
           else Inr (Some (tail s), s\<lparr>tail := (tail s + 1) mod N\<rparr>))"
proof -
  from assms have c: "canUpdate s" and t: "tail s < length (hasData s)"
    by (simp_all add: shapeC_def)
  from c have rel: "s\<lparr>canUpdate := True\<rparr> = s" by simp
  show ?thesis
  proof (cases "(tail s + 1) mod N = head s")
    case True
    with c rel show ?thesis by (simp add: pushPassC_def acquire_free claimPushC_full)
  next
    case False
    show ?thesis
    proof (cases "hasData s ! tail s")
      case True
      with c t False rel show ?thesis
        by (simp add: pushPassC_def acquire_free claimPushC_unread)
    next
      case nb: False
      with c t False show ?thesis
        by (simp add: pushPassC_def acquire_free claimPushC_free)
    qed
  qed
qed

lemma popPassC_shape:
  assumes "shapeC N s"
  shows "popPassC N s =
     Some (if head s = tail s then Inr (None, False, s)
           else if hasData s ! head s
             then Inr (Some (head s), False, s\<lparr>head := (head s + 1) mod N\<rparr>)
           else Inr (None, True, s))"
proof -
  from assms have c: "canUpdate s" and h: "head s < length (hasData s)"
    by (simp_all add: shapeC_def)
  from c have rel: "s\<lparr>canUpdate := True\<rparr> = s" by simp
  show ?thesis
  proof (cases "head s = tail s")
    case True
    with c rel show ?thesis by (simp add: popPassC_def acquire_free claimPopC_empty)
  next
    case False
    show ?thesis
    proof (cases "hasData s ! head s")
      case True
      with c h False show ?thesis by (simp add: popPassC_def acquire_free claimPopC_ready)
    next
      case nb: False
      with c h False rel show ?thesis
        by (simp add: popPassC_def acquire_free claimPopC_unwritten)
    qed
  qed
qed

text \<open>The loops run the passes.\<close>

lemma pushLoopC_pass:
  "pushLoopC N s sd =
     (case pushPassC N s of
        None \<Rightarrow> None
      | Some (Inl e) \<Rightarrow> Some (Inl e)
      | Some (Inr (None, s')) \<Rightarrow> pushLoopC N s' (backOffC sd)
      | Some (Inr (Some i, s')) \<Rightarrow> Some (Inr (i, s')))"
  by (subst pushLoopC.simps)
    (simp add: pushPassC_def split: option.splits sum.splits prod.splits)

lemma popLoopC_pass:
  "popLoopC N s sd =
     (case popPassC N s of
        None \<Rightarrow> None
      | Some (Inl e) \<Rightarrow> Some (Inl e)
      | Some (Inr (i, keepTrying, s')) \<Rightarrow>
          if keepTrying then popLoopC N s' (backOffC sd) else Some (Inr (i, s')))"
  by (subst popLoopC.simps)
    (simp add: popPassC_def split: option.splits sum.splits prod.splits)

lemma flags_outside:
  assumes "i \<notin> set xs"
  shows "filter (\<lambda>j. b[i := v] ! j) xs = filter (\<lambda>j. b ! j) xs"
proof (rule filter_cong [OF refl])
  fix x
  assume "x \<in> set xs"
  with assms have "i \<noteq> x" by auto
  then show "b[i := v] ! x = b ! x" by simp
qed

lemma flags_commit:
  "distinct xs \<Longrightarrow> i \<in> set xs \<Longrightarrow> \<not> b ! i \<Longrightarrow> i < length b \<Longrightarrow>
   length (filter (\<lambda>j. b[i := True] ! j) xs) = Suc (length (filter (\<lambda>j. b ! j) xs))"
proof (induction xs)
  case Nil
  then show ?case by simp
next
  case (Cons a xs)
  show ?case
  proof (cases "a = i")
    case True
    with Cons.prems have "i \<notin> set xs" by simp
    then have "filter (\<lambda>j. b[i := True] ! j) xs = filter (\<lambda>j. b ! j) xs"
      by (rule flags_outside)
    with True Cons.prems show ?thesis by simp
  next
    case False
    with Cons.prems have "i \<in> set xs" "distinct xs" by simp_all
    with Cons.IH Cons.prems have "length (filter (\<lambda>j. b[i := True] ! j) xs) =
        Suc (length (filter (\<lambda>j. b ! j) xs))" by simp
    with False show ?thesis by simp
  qed
qed

lemma readableC_claim_push:
  assumes "shapeC N s" "(tail s + 1) mod N \<noteq> head s" "\<not> hasData s ! tail s"
  shows "readableC N (s\<lparr>tail := (tail s + 1) mod N\<rparr>) = readableC N s"
proof -
  from assms have h: "head s < N" and t: "tail s < N" by (simp_all add: shapeC_def)
  from h t assms(2) have r: "ringRange N (head s) ((tail s + 1) mod N) =
      ringRange N (head s) (tail s) @ [tail s]"
    by (rule ringRange_push)
  with assms(3) show ?thesis by (simp add: readableC_def)
qed

lemma readableC_claim_pop:
  assumes "shapeC N s" "head s \<noteq> tail s" "hasData s ! head s"
  shows "readableC N s = Suc (readableC N (s\<lparr>head := (head s + 1) mod N\<rparr>))"
proof -
  from assms have h: "head s < N" and t: "tail s < N" by (simp_all add: shapeC_def)
  from h t assms(2) have r: "ringRange N (head s) (tail s) =
      head s # ringRange N ((head s + 1) mod N) (tail s)"
    by (rule ringRange_pop)
  with assms(3) show ?thesis by (simp add: readableC_def)
qed

lemma readableC_commit:
  assumes "shapeC N s" "i \<in> set (ringRange N (head s) (tail s))" "\<not> hasData s ! i"
  shows "readableC N (s\<lparr>hasData := (hasData s)[i := True]\<rparr>) = Suc (readableC N s)"
proof -
  from assms(1) have h: "head s < N" and l: "length (hasData s) = N" by (simp_all add: shapeC_def)
  from h have d: "distinct (ringRange N (head s) (tail s))" by (rule ringRange_distinct)
  from h assms(2) have "i < N" by (intro ringRange_bound [of N i "head s" "tail s"]) simp_all
  with l have "i < length (hasData s)" by simp
  with d assms(2,3) show ?thesis by (simp add: readableC_def flags_commit)
qed

lemma readableC_clear:
  "i \<notin> set (ringRange N (head s) (tail s)) \<Longrightarrow>
   readableC N (s\<lparr>hasData := (hasData s)[i := False]\<rparr>) = readableC N s"
  by (simp add: readableC_def flags_outside)

lemma ownsC_producer: "ownsC N s pc \<Longrightarrow> producerSlotC pc = Some i \<Longrightarrow>
   i \<in> set (ringRange N (head s) (tail s)) \<and> \<not> hasData s ! i"
  by (simp add: ownsC_def)

lemma ownsC_consumer: "ownsC N s pc \<Longrightarrow> consumerSlotC pc = Some i \<Longrightarrow>
   i < N \<and> i \<notin> set (ringRange N (head s) (tail s)) \<and> hasData s ! i"
  by (simp add: ownsC_def)

lemma ownsC_claim_push:
  assumes "shapeC N s" "(tail s + 1) mod N \<noteq> head s" "\<not> hasData s ! tail s" "ownsC N s pc"
  shows "ownsC N (s\<lparr>tail := (tail s + 1) mod N\<rparr>) pc"
proof -
  from assms have h: "head s < N" and t: "tail s < N" by (simp_all add: shapeC_def)
  from h t assms(2) have r: "ringRange N (head s) ((tail s + 1) mod N) =
      ringRange N (head s) (tail s) @ [tail s]"
    by (rule ringRange_push)
  then have r': "ringRange N (head s) (Suc (tail s) mod N) =
      ringRange N (head s) (tail s) @ [tail s]" by simp
  have ne: "\<And>i. hasData s ! i \<Longrightarrow> i \<noteq> tail s"
    using assms(3) by auto
  from assms(4) show ?thesis
    by (auto simp: ownsC_def r' dest: ne split: option.splits)
qed

lemma ownsC_claim_pop:
  assumes "shapeC N s" "head s \<noteq> tail s" "hasData s ! head s" "ownsC N s pc"
  shows "ownsC N (s\<lparr>head := (head s + 1) mod N\<rparr>) pc"
proof -
  from assms have h: "head s < N" and t: "tail s < N" by (simp_all add: shapeC_def)
  from h t assms(2) have r: "ringRange N (head s) (tail s) =
      head s # ringRange N ((head s + 1) mod N) (tail s)"
    by (rule ringRange_pop)
  have ne: "\<And>i. \<not> hasData s ! i \<Longrightarrow> i \<noteq> head s"
    using assms(3) by auto
  from assms(4) show ?thesis
    by (auto simp: ownsC_def r dest: ne split: option.splits)
qed

lemma ownsC_new_producer:
  assumes "shapeC N s" "(tail s + 1) mod N \<noteq> head s" "\<not> hasData s ! tail s"
  shows "ownsC N (s\<lparr>tail := (tail s + 1) mod N\<rparr>) (PushClaimedC x (tail s))"
proof -
  from assms have h: "head s < N" and t: "tail s < N" by (simp_all add: shapeC_def)
  from h t assms(2) have r: "ringRange N (head s) ((tail s + 1) mod N) =
      ringRange N (head s) (tail s) @ [tail s]"
    by (rule ringRange_push)
  with assms(3) show ?thesis by (simp add: ownsC_def)
qed

lemma ownsC_new_consumer:
  assumes "shapeC N s" "head s \<noteq> tail s" "hasData s ! head s"
  shows "ownsC N (s\<lparr>head := (head s + 1) mod N\<rparr>) (PopClaimedC (head s))"
proof -
  from assms have h: "head s < N" and t: "tail s < N" by (simp_all add: shapeC_def)
  from h t assms(2) have "head s \<in> set (ringRange N (head s) (tail s)) \<and>
      head s \<notin> set (ringRange N ((head s + 1) mod N) (tail s))" by (rule ringRange_head)
  with h assms(3) show ?thesis by (simp add: ownsC_def)
qed

lemma ownsC_flag:
  assumes "ownsC N s pc" "ownedSlotC pc \<noteq> Some i"
  shows "ownsC N (s\<lparr>hasData := (hasData s)[i := v]\<rparr>) pc"
  using assms by (auto simp: ownsC_def ownedSlotC_def dest: slotC_disjoint split: option.splits)

lemma beingReadC_update:
  assumes b: "beingReadC N (s, ts)" and t: "t < length ts"
    and new: "\<And>i. i < N \<Longrightarrow> hasData s' ! i \<Longrightarrow> i \<notin> set (ringRange N (head s') (tail s')) \<Longrightarrow>
       consumerSlotC p = Some i \<or>
       (hasData s ! i \<and> i \<notin> set (ringRange N (head s) (tail s)) \<and> consumerSlotC (ts ! t) \<noteq> Some i)"
  shows "beingReadC N (s', ts[t := p])"
  unfolding beingReadC_def
proof (simp only: prod.case, intro allI impI)
  fix i
  assume i: "i < N" and f: "hasData s' ! i \<and> i \<notin> set (ringRange N (head s') (tail s'))"
  from new [OF i] f have "consumerSlotC p = Some i \<or>
       (hasData s ! i \<and> i \<notin> set (ringRange N (head s) (tail s)) \<and> consumerSlotC (ts ! t) \<noteq> Some i)"
    by simp
  then show "\<exists>u < length (ts[t := p]). consumerSlotC (ts[t := p] ! u) = Some i"
  proof
    assume "consumerSlotC p = Some i"
    with t have "t < length (ts[t := p]) \<and> consumerSlotC (ts[t := p] ! t) = Some i" by simp
    then show ?thesis by blast
  next
    assume old: "hasData s ! i \<and> i \<notin> set (ringRange N (head s) (tail s)) \<and>
        consumerSlotC (ts ! t) \<noteq> Some i"
    with b i obtain u where u: "u < length ts" "consumerSlotC (ts ! u) = Some i"
      unfolding beingReadC_def by auto
    with old have "u \<noteq> t" by auto
    with u have "u < length (ts[t := p]) \<and> consumerSlotC (ts[t := p] ! u) = Some i" by simp
    then show ?thesis by blast
  qed
qed

lemma invSysC_plain:
  assumes inv: "invSysC N (s, ts)" and t: "t < length ts"
    and same: "head s' = head s" "tail s' = tail s" "hasData s' = hasData s"
      "canUpdate s' = canUpdate s" "length (buffer s') = length (buffer s)"
    and slot: "producerSlotC p = producerSlotC (ts ! t)" "consumerSlotC p = consumerSlotC (ts ! t)"
  shows "invSysC N (s', ts[t := p])"
proof -
  from inv have sh: "shapeC N s" and ow: "list_all (ownsC N s) ts" and ex: "exclusiveC ts"
    and br: "beingReadC N (s, ts)"
    by (simp_all add: invSysC_def)
  from sh same have "shapeC N s'" by (simp add: shapeC_def)
  moreover have "list_all (ownsC N s') (ts[t := p])"
  proof (rule list_all_update)
    from same(1-3) have "\<And>pc. ownsC N s pc \<Longrightarrow> ownsC N s' pc"
      by (simp only: ownsC_cong [of s' s])
    with ow show "list_all (ownsC N s') ts" by (rule list_all_mono)
    from ow t have "ownsC N s (ts ! t)" by (rule list_all_nth)
    with slot same show "ownsC N s' p" by (simp add: ownsC_def cong: option.case_cong)
  qed
  moreover from slot have "ownedSlotC p = ownedSlotC (ts ! t)"
    by (simp add: ownedSlotC_def cong: option.case_cong)
  with ex t have "exclusiveC (ts[t := p])" by (intro exclusiveC_update) simp_all
  moreover have "beingReadC N (s', ts[t := p])"
  proof (rule beingReadC_update [OF br t])
    fix i
    assume "i < N" "hasData s' ! i" "i \<notin> set (ringRange N (head s') (tail s'))"
    with same slot show "consumerSlotC p = Some i \<or>
       (hasData s ! i \<and> i \<notin> set (ringRange N (head s) (tail s)) \<and> consumerSlotC (ts ! t) \<noteq> Some i)"
      by auto
  qed
  ultimately show ?thesis by (simp add: invSysC_def)
qed

lemma ownsC_flagged: "ownsC N s pc \<Longrightarrow> ownedSlotC pc = Some i \<Longrightarrow>
   hasData s ! i = (consumerSlotC pc = Some i)"
  by (auto simp: ownsC_def ownedSlotC_def split: option.splits)

lemma invSysC_claim_push:
  assumes inv: "invSysC N (s, ts)" and t: "t < length ts" and pc: "ts ! t = PushingC x sd"
    and nf: "(tail s + 1) mod N \<noteq> head s" and nb: "\<not> hasData s ! tail s"
  shows "invSysC N (s\<lparr>tail := (tail s + 1) mod N\<rparr>, ts[t := PushClaimedC x (tail s)])"
proof -
  let ?s' = "s\<lparr>tail := (tail s + 1) mod N\<rparr>"
  from inv have sh: "shapeC N s" and ow: "list_all (ownsC N s) ts" and ex: "exclusiveC ts"
    and br: "beingReadC N (s, ts)"
    by (simp_all add: invSysC_def)
  from sh have h: "head s < N" and tl: "tail s < N" by (simp_all add: shapeC_def)
  from h tl nf have r: "ringRange N (head s) ((tail s + 1) mod N) =
      ringRange N (head s) (tail s) @ [tail s]"
    by (rule ringRange_push)
  from sh have "shapeC N ?s'" by (simp add: shapeC_def)
  moreover have "list_all (ownsC N ?s') (ts[t := PushClaimedC x (tail s)])"
  proof (rule list_all_update)
    from sh nf nb have "\<And>p. ownsC N s p \<Longrightarrow> ownsC N ?s' p" by (rule ownsC_claim_push)
    with ow show "list_all (ownsC N ?s') ts" by (rule list_all_mono)
    from sh nf nb show "ownsC N ?s' (PushClaimedC x (tail s))" by (rule ownsC_new_producer)
  qed
  moreover have "exclusiveC (ts[t := PushClaimedC x (tail s)])"
  proof (rule exclusiveC_update [OF ex t], intro disjI2 allI impI)
    fix u
    assume u: "u < length ts" "u \<noteq> t"
    from ow u(1) have o: "ownsC N s (ts ! u)" by (rule list_all_nth)
    have "ownedSlotC (ts ! u) \<noteq> Some (tail s)"
    proof
      assume own: "ownedSlotC (ts ! u) = Some (tail s)"
      from h tl have out: "tail s \<notin> set (ringRange N (head s) (tail s))"
        by (rule ringRange_tail_notin)
      from own o out nb show False
        by (auto simp: ownsC_def ownedSlotC_def split: option.splits)
    qed
    then show "ownedSlotC (ts ! u) \<noteq> ownedSlotC (PushClaimedC x (tail s))"
      by (simp add: ownedSlotC_def)
  qed
  moreover have "beingReadC N (?s', ts[t := PushClaimedC x (tail s)])"
  proof (rule beingReadC_update [OF br t])
    fix i
    assume "i < N" "hasData ?s' ! i" "i \<notin> set (ringRange N (head ?s') (tail ?s'))"
    with r pc show "consumerSlotC (PushClaimedC x (tail s)) = Some i \<or>
       (hasData s ! i \<and> i \<notin> set (ringRange N (head s) (tail s)) \<and> consumerSlotC (ts ! t) \<noteq> Some i)"
      by simp
  qed
  ultimately show ?thesis by (simp add: invSysC_def)
qed

lemma invSysC_claim_pop:
  assumes inv: "invSysC N (s, ts)" and t: "t < length ts" and pc: "ts ! t = PoppingC sd"
    and ne: "head s \<noteq> tail s" and fl: "hasData s ! head s"
  shows "invSysC N (s\<lparr>head := (head s + 1) mod N\<rparr>, ts[t := PopClaimedC (head s)])"
proof -
  let ?s' = "s\<lparr>head := (head s + 1) mod N\<rparr>"
  from inv have sh: "shapeC N s" and ow: "list_all (ownsC N s) ts" and ex: "exclusiveC ts"
    and br: "beingReadC N (s, ts)"
    by (simp_all add: invSysC_def)
  from sh have h: "head s < N" and tl: "tail s < N" by (simp_all add: shapeC_def)
  from h tl ne have r: "ringRange N (head s) (tail s) =
      head s # ringRange N ((head s + 1) mod N) (tail s)"
    by (rule ringRange_pop)
  from h tl ne have hd: "head s \<in> set (ringRange N (head s) (tail s))"
    using ringRange_head [of "head s" N "tail s"] by simp
  from sh have "shapeC N ?s'" by (simp add: shapeC_def)
  moreover have "list_all (ownsC N ?s') (ts[t := PopClaimedC (head s)])"
  proof (rule list_all_update)
    from sh ne fl have "\<And>p. ownsC N s p \<Longrightarrow> ownsC N ?s' p" by (rule ownsC_claim_pop)
    with ow show "list_all (ownsC N ?s') ts" by (rule list_all_mono)
    from sh ne fl show "ownsC N ?s' (PopClaimedC (head s))" by (rule ownsC_new_consumer)
  qed
  moreover have "exclusiveC (ts[t := PopClaimedC (head s)])"
  proof (rule exclusiveC_update [OF ex t], intro disjI2 allI impI)
    fix u
    assume u: "u < length ts" "u \<noteq> t"
    from ow u(1) have o: "ownsC N s (ts ! u)" by (rule list_all_nth)
    have "ownedSlotC (ts ! u) \<noteq> Some (head s)"
    proof
      assume own: "ownedSlotC (ts ! u) = Some (head s)"
      from own o hd fl show False
        by (auto simp: ownsC_def ownedSlotC_def split: option.splits)
    qed
    then show "ownedSlotC (ts ! u) \<noteq> ownedSlotC (PopClaimedC (head s))"
      by (simp add: ownedSlotC_def)
  qed
  moreover have "beingReadC N (?s', ts[t := PopClaimedC (head s)])"
  proof (rule beingReadC_update [OF br t])
    fix i
    assume "i < N" "hasData ?s' ! i" "i \<notin> set (ringRange N (head ?s') (tail ?s'))"
    with r pc show "consumerSlotC (PopClaimedC (head s)) = Some i \<or>
       (hasData s ! i \<and> i \<notin> set (ringRange N (head s) (tail s)) \<and> consumerSlotC (ts ! t) \<noteq> Some i)"
      by auto
  qed
  ultimately show ?thesis by (simp add: invSysC_def)
qed

lemma invSysC_flag:
  assumes inv: "invSysC N (s, ts)" and t: "t < length ts"
    and pc: "(ts ! t = PushDoneC i \<and> v \<and> p = IdleC) \<or> (ts ! t = PopReadC i w \<and> \<not> v \<and> p = PopClearedC w)"
  shows "invSysC N (s\<lparr>hasData := (hasData s)[i := v]\<rparr>, ts[t := p])"
proof -
  let ?s' = "s\<lparr>hasData := (hasData s)[i := v]\<rparr>"
  from inv have sh: "shapeC N s" and ow: "list_all (ownsC N s) ts" and ex: "exclusiveC ts"
    and br: "beingReadC N (s, ts)"
    by (simp_all add: invSysC_def)
  from pc have own: "ownedSlotC (ts ! t) = Some i" by (auto simp: ownedSlotC_def)
  from pc have p: "ownedSlotC p = None" "consumerSlotC p = None"
    by (auto simp: ownedSlotC_def)
  from ow t have me: "ownsC N s (ts ! t)" by (rule list_all_nth)
  from sh have l: "length (hasData s) = N" by (simp add: shapeC_def)
  from sh have "shapeC N ?s'" by (simp add: shapeC_def)
  moreover have "list_all (ownsC N ?s') (ts[t := p])"
    unfolding list_all_length
  proof (intro allI impI)
    fix u
    assume "u < length (ts[t := p])"
    then have u: "u < length ts" by simp
    show "ownsC N ?s' (ts[t := p] ! u)"
    proof (cases "u = t")
      case True
      with t p pc show ?thesis by (auto simp: ownsC_def)
    next
      case False
      from ow u have "ownsC N s (ts ! u)" by (rule list_all_nth)
      moreover from ex t own u False have "ownedSlotC (ts ! u) \<noteq> Some i"
        by (rule exclusiveC_others)
      ultimately have "ownsC N ?s' (ts ! u)" by (rule ownsC_flag)
      with False show ?thesis by simp
    qed
  qed
  moreover from ex t p have "exclusiveC (ts[t := p])"
    by (intro exclusiveC_update) simp_all
  moreover have "beingReadC N (?s', ts[t := p])"
  proof (rule beingReadC_update [OF br t])
    fix j
    assume j: "j < N" "hasData ?s' ! j" "j \<notin> set (ringRange N (head ?s') (tail ?s'))"
    from pc show "consumerSlotC p = Some j \<or>
       (hasData s ! j \<and> j \<notin> set (ringRange N (head s) (tail s)) \<and> consumerSlotC (ts ! t) \<noteq> Some j)"
    proof
      assume a: "ts ! t = PushDoneC i \<and> v \<and> p = IdleC"
      with me have "i \<in> set (ringRange N (head s) (tail s))" by (simp add: ownsC_def)
      with j have "j \<noteq> i" by auto
      with j a show ?thesis by simp
    next
      assume a: "ts ! t = PopReadC i w \<and> \<not> v \<and> p = PopClearedC w"
      with me have "i < N" by (simp add: ownsC_def)
      with l a j have "j \<noteq> i" by (cases "j = i") simp_all
      with j a show ?thesis by simp
    qed
  qed
  ultimately show ?thesis by (simp add: invSysC_def)
qed

lemma invSysC_shape: "invSysC N (s, ts) \<Longrightarrow> shapeC N s"
  by (simp add: invSysC_def)

lemma invSysC_step:
  assumes inv: "invSysC N c" and st: "stepC N c c'"
  shows "invSysC N c'"
  using st
proof (cases rule: stepC.cases)
  case (callPushC t ts s x)
  with inv show ?thesis
    by (auto intro!: invSysC_plain simp: pushBeginC_def)
next
  case (pushPassClaimedC t ts x sd s i s')
  with inv have sh: "shapeC N s" by (simp add: invSysC_shape)
  from pushPassClaimedC(5) pushPassC_shape [OF sh]
  have nf: "(tail s + 1) mod N \<noteq> head s" and nb: "\<not> hasData s ! tail s"
    and eq: "i = tail s" "s' = s\<lparr>tail := (tail s + 1) mod N\<rparr>"
    by (auto split: if_splits)
  from inv pushPassClaimedC(1) have "invSysC N (s, ts)" by simp
  from this pushPassClaimedC(3,4) nf nb
  have "invSysC N (s\<lparr>tail := (tail s + 1) mod N\<rparr>, ts[t := PushClaimedC x (tail s)])"
    by (rule invSysC_claim_push)
  with eq pushPassClaimedC(2) show ?thesis by simp
next
  case (pushPassRetryC t ts x sd s s')
  with inv have sh: "shapeC N s" by (simp add: invSysC_shape)
  from pushPassRetryC(5) pushPassC_shape [OF sh] have "s' = s"
    by (auto split: if_splits)
  with inv pushPassRetryC show ?thesis
    by (auto intro!: invSysC_plain)
next
  case (pushWriteC t ts x i s)
  with inv show ?thesis
    by (auto intro!: invSysC_plain)
next
  case (pushCountC t ts i s)
  with inv show ?thesis
    by (auto intro!: invSysC_plain)
next
  case (pushDoneC t ts i s)
  with inv show ?thesis
    by (auto intro!: invSysC_plain)
next
  case (pushCommitC t ts i s)
  with inv show ?thesis
    by (auto intro: invSysC_flag)
next
  case (callPopC t ts s)
  with inv show ?thesis
    by (auto intro!: invSysC_plain)
next
  case (popPassClaimedC t ts sd s i s')
  with inv have sh: "shapeC N s" by (simp add: invSysC_shape)
  from popPassClaimedC(5) popPassC_shape [OF sh]
  have ne: "head s \<noteq> tail s" and fl: "hasData s ! head s"
    and eq: "i = head s" "s' = s\<lparr>head := (head s + 1) mod N\<rparr>"
    by (auto split: if_splits)
  from inv popPassClaimedC(1) have "invSysC N (s, ts)" by simp
  from this popPassClaimedC(3,4) ne fl
  have "invSysC N (s\<lparr>head := (head s + 1) mod N\<rparr>, ts[t := PopClaimedC (head s)])"
    by (rule invSysC_claim_pop)
  with eq popPassClaimedC(2) show ?thesis by simp
next
  case (popPassEmptyC t ts sd s s')
  with inv have sh: "shapeC N s" by (simp add: invSysC_shape)
  from popPassEmptyC(5) popPassC_shape [OF sh] have "s' = s"
    by (auto split: if_splits)
  with inv popPassEmptyC show ?thesis
    by (auto intro!: invSysC_plain)
next
  case (popPassRetryC t ts sd s r s')
  with inv have sh: "shapeC N s" by (simp add: invSysC_shape)
  from popPassRetryC(5) popPassC_shape [OF sh] have "s' = s"
    by (auto split: if_splits)
  with inv popPassRetryC show ?thesis
    by (auto intro!: invSysC_plain)
next
  case (popReadC t ts i s)
  with inv show ?thesis
    by (auto intro!: invSysC_plain)
next
  case (popClearC t ts i v s)
  with inv show ?thesis
    by (auto intro: invSysC_flag)
next
  case (popCheckDataC t ts v s)
  with inv show ?thesis
    by (auto intro!: invSysC_plain)
next
  case (popCountC t ts v s)
  with inv show ?thesis
    by (auto intro!: invSysC_plain)
next
  case (popCheckWorkC t ts v s)
  with inv show ?thesis
    by (auto intro!: invSysC_plain)
next
  case (popDoneC t ts v s)
  with inv show ?thesis
    by (auto intro!: invSysC_plain)
qed

lemma invSysC_start: "0 < N \<Longrightarrow> invSysC N (initC N d, replicate n IdleC)"
proof -
  assume "0 < N"
  then have "shapeC N (initC N d)" by (simp add: shapeC_def initC_def)
  moreover have "list_all (ownsC N (initC N d)) (replicate n IdleC)"
    by (simp add: list_all_length ownsC_def)
  moreover have "exclusiveC (replicate n (IdleC :: 'a pcC))"
    by (simp add: exclusiveC_def ownedSlotC_def)
  moreover have "beingReadC N (initC N d, replicate n IdleC)"
    by (simp add: beingReadC_def initC_def)
  ultimately show ?thesis by (simp add: invSysC_def)
qed

lemma interleavedC_inv: "interleavedC N d n c \<Longrightarrow> 0 < N \<Longrightarrow> invSysC N c"
  by (induction rule: interleavedC.induct) (auto intro: invSysC_start invSysC_step)

section \<open>The count of stored values is the count of readable slots\<close>

lemma stored_same: "(\<And>pc. f pc pc = (0::int)) \<Longrightarrow> sum_list (map2 f ts ts) = 0"
  by (induction ts) simp_all

lemma stored_update:
  assumes "\<And>pc. f pc pc = (0::int)"
  shows "t < length ts \<Longrightarrow> sum_list (map2 f ts (ts[t := p])) = f (ts ! t) p"
proof (induction ts arbitrary: t)
  case Nil
  then show ?case by simp
next
  case (Cons a ts)
  show ?case
  proof (cases t)
    case 0
    with assms show ?thesis by (simp add: stored_same)
  next
    case (Suc u)
    with Cons.prems have "u < length ts" by simp
    with Cons.IH have "sum_list (map2 f ts (ts[u := p])) = f (ts ! u) p" by simp
    with Suc assms show ?thesis by simp
  qed
qed

lemma storedA_same: "storedA pc pc = 0"
  by (cases pc) simp_all

lemma storedC_same: "storedC pc pc = 0"
  by (cases pc) simp_all

lemma storedA_update: "t < length ts \<Longrightarrow> sum_list (map2 storedA ts (ts[t := p])) = storedA (ts ! t) p"
  by (rule stored_update) (rule storedA_same)

lemma storedC_update: "t < length ts \<Longrightarrow> sum_list (map2 storedC ts (ts[t := p])) = storedC (ts ! t) p"
  by (rule stored_update) (rule storedC_same)

lemma stepA_committed:
  assumes inv: "invSysA N c" and st: "stepA N c c'"
  shows "int (committedA N (fst c')) =
         int (committedA N (fst c)) + sum_list (map2 storedA (snd c) (snd c'))"
  using st
proof (cases rule: stepA.cases)
  case (callPush t ts s x)
  then show ?thesis by (simp add: storedA_update committedA_pushBeginA)
next
  case (pushPassClaimed t ts x sd s i s')
  with inv have sh: "shapeA N s" by (simp add: invSysA_shape)
  from pushPassClaimed(5) pushIterA_shape [OF sh]
  have nf: "(tail s + 1) mod N \<noteq> head s"
    and eq: "s' = s\<lparr>isBusy := (isBusy s)[tail s := True], tail := (tail s + 1) mod N\<rparr>"
    by (auto split: if_splits)
  from sh nf have "committedA N (s\<lparr>isBusy := (isBusy s)[tail s := True],
      tail := (tail s + 1) mod N\<rparr>) = committedA N s" by (rule committedA_claim_push)
  with eq pushPassClaimed show ?thesis by (simp add: storedA_update)
next
  case (pushPassFull t ts x sd s s')
  with inv have sh: "shapeA N s" by (simp add: invSysA_shape)
  from pushPassFull(5) pushIterA_shape [OF sh] have "s' = s"
    by (auto split: if_splits)
  with pushPassFull show ?thesis by (simp add: storedA_update)
next
  case (pushPassRetry t ts x sd s r s')
  with inv have sh: "shapeA N s" by (simp add: invSysA_shape)
  from pushPassRetry(5) pushIterA_shape [OF sh] have "s' = s"
    by (auto split: if_splits)
  with pushPassRetry show ?thesis by (simp add: storedA_update)
next
  case (pushWrite t ts x i s)
  then show ?thesis by (simp add: storedA_update committedA_def)
next
  case (pushCount t ts i s)
  then show ?thesis by (simp add: storedA_update committedA_def)
next
  case (pushRelease t ts i s)
  with inv have sh: "shapeA N s" and ow: "list_all (ownsA N s) ts"
    by (simp_all add: invSysA_def)
  from ow pushRelease(3) have "ownsA N s (ts ! t)" by (rule list_all_nth)
  with pushRelease(4) have "i \<in> set (ringRange N (head s) (tail s))" "isBusy s ! i"
    by (simp_all add: ownsA_def)
  with sh have "committedA N (s\<lparr>isBusy := (isBusy s)[i := False]\<rparr>) = Suc (committedA N s)"
    by (rule committedA_release_producer)
  with pushRelease show ?thesis by (simp add: storedA_update)
next
  case (pushAbort t ts s)
  then show ?thesis by (simp add: storedA_update committedA_def)
next
  case (callPop t ts s)
  then show ?thesis by (simp add: storedA_update)
next
  case (popPassClaimed t ts sd s i s')
  with inv have sh: "shapeA N s" by (simp add: invSysA_shape)
  from popPassClaimed(5) popIterA_shape [OF sh]
  have ne: "head s \<noteq> tail s" and nb: "\<not> isBusy s ! head s"
    and eq: "s' = s\<lparr>isBusy := (isBusy s)[head s := True], head := (head s + 1) mod N\<rparr>"
    by (auto split: if_splits)
  from sh ne nb have "committedA N s = Suc (committedA N (s\<lparr>isBusy := (isBusy s)[head s := True],
      head := (head s + 1) mod N\<rparr>))" by (rule committedA_claim_pop)
  with eq popPassClaimed show ?thesis by (simp add: storedA_update)
next
  case (popPassEmpty t ts sd s s')
  with inv have sh: "shapeA N s" by (simp add: invSysA_shape)
  from popPassEmpty(5) popIterA_shape [OF sh] have "s' = s"
    by (auto split: if_splits)
  with popPassEmpty show ?thesis by (simp add: storedA_update)
next
  case (popPassRetry t ts sd s r s')
  with inv have sh: "shapeA N s" by (simp add: invSysA_shape)
  from popPassRetry(5) popIterA_shape [OF sh] have "s' = s"
    by (auto split: if_splits)
  with popPassRetry show ?thesis by (simp add: storedA_update)
next
  case (popRead t ts i s)
  then show ?thesis by (simp add: storedA_update)
next
  case (popCount t ts i v s)
  then show ?thesis by (simp add: storedA_update committedA_def)
next
  case (popRelease t ts i v s)
  with inv have ow: "list_all (ownsA N s) ts" by (simp add: invSysA_def)
  from ow popRelease(3) have "ownsA N s (ts ! t)" by (rule list_all_nth)
  with popRelease(4) have "i \<notin> set (ringRange N (head s) (tail s))"
    by (simp add: ownsA_def)
  then have "committedA N (s\<lparr>isBusy := (isBusy s)[i := False]\<rparr>) = committedA N s"
    by (rule committedA_release_consumer)
  with popRelease show ?thesis by (simp add: storedA_update)
qed

lemma occupancyA_interleavedA: "occupancyA N d n c k \<Longrightarrow> interleavedA N d n c"
  by (induction rule: occupancyA.induct) (auto intro: interleavedA.intros)

lemma interleavedA_occupancyA: "interleavedA N d n c \<Longrightarrow> \<exists>k. occupancyA N d n c k"
proof (induction rule: interleavedA.induct)
  case start
  show ?case by (blast intro: occupancyA.startO)
next
  case (step c c')
  then obtain k where k: "occupancyA N d n c k" by blast
  obtain s ts where c: "c = (s, ts)" by (cases c)
  obtain s' ts' where c': "c' = (s', ts')" by (cases c')
  from k step.hyps(2) show ?case
    unfolding c c' by (blast intro: occupancyA.stepO)
qed

lemma occupancyA_committed:
  "occupancyA N d n c k \<Longrightarrow> 0 < N \<Longrightarrow> k = int (committedA N (fst c))"
proof (induction rule: occupancyA.induct)
  case startO
  show ?case by (simp add: committedA_def initA_def ringRange_def)
next
  case (stepO s ts k s' ts')
  from stepO.hyps(1) have "interleavedA N d n (s, ts)" by (rule occupancyA_interleavedA)
  from this stepO.prems have "invSysA N (s, ts)" by (rule interleavedA_inv)
  from this stepO.hyps(2) have "int (committedA N (fst (s', ts'))) =
      int (committedA N (fst (s, ts))) + sum_list (map2 storedA (snd (s, ts)) (snd (s', ts')))"
    by (rule stepA_committed)
  with stepO.IH [OF stepO.prems] show ?case by simp
qed

lemma stepC_readable:
  assumes inv: "invSysC N c" and st: "stepC N c c'"
  shows "int (readableC N (fst c')) =
         int (readableC N (fst c)) + sum_list (map2 storedC (snd c) (snd c'))"
  using st
proof (cases rule: stepC.cases)
  case (callPushC t ts s x)
  then show ?thesis by (simp add: storedC_update readableC_def pushBeginC_def)
next
  case (pushPassClaimedC t ts x sd s i s')
  with inv have sh: "shapeC N s" by (simp add: invSysC_shape)
  from pushPassClaimedC(5) pushPassC_shape [OF sh]
  have nf: "(tail s + 1) mod N \<noteq> head s" and nb: "\<not> hasData s ! tail s"
    and eq: "s' = s\<lparr>tail := (tail s + 1) mod N\<rparr>"
    by (auto split: if_splits)
  from sh nf nb have "readableC N (s\<lparr>tail := (tail s + 1) mod N\<rparr>) = readableC N s"
    by (rule readableC_claim_push)
  with eq pushPassClaimedC show ?thesis by (simp add: storedC_update)
next
  case (pushPassRetryC t ts x sd s s')
  with inv have sh: "shapeC N s" by (simp add: invSysC_shape)
  from pushPassRetryC(5) pushPassC_shape [OF sh] have "s' = s"
    by (auto split: if_splits)
  with pushPassRetryC show ?thesis by (simp add: storedC_update)
next
  case (pushWriteC t ts x i s)
  then show ?thesis by (simp add: storedC_update readableC_def)
next
  case (pushCountC t ts i s)
  then show ?thesis by (simp add: storedC_update readableC_def)
next
  case (pushDoneC t ts i s)
  then show ?thesis by (simp add: storedC_update readableC_def)
next
  case (pushCommitC t ts i s)
  with inv have sh: "shapeC N s" and ow: "list_all (ownsC N s) ts"
    by (simp_all add: invSysC_def)
  from ow pushCommitC(3) have "ownsC N s (ts ! t)" by (rule list_all_nth)
  with pushCommitC(4) have "i \<in> set (ringRange N (head s) (tail s))" "\<not> hasData s ! i"
    by (simp_all add: ownsC_def)
  with sh have "readableC N (s\<lparr>hasData := (hasData s)[i := True]\<rparr>) = Suc (readableC N s)"
    by (rule readableC_commit)
  with pushCommitC show ?thesis by (simp add: storedC_update)
next
  case (callPopC t ts s)
  then show ?thesis by (simp add: storedC_update)
next
  case (popPassClaimedC t ts sd s i s')
  with inv have sh: "shapeC N s" by (simp add: invSysC_shape)
  from popPassClaimedC(5) popPassC_shape [OF sh]
  have ne: "head s \<noteq> tail s" and fl: "hasData s ! head s"
    and eq: "s' = s\<lparr>head := (head s + 1) mod N\<rparr>"
    by (auto split: if_splits)
  from sh ne fl have "readableC N s = Suc (readableC N (s\<lparr>head := (head s + 1) mod N\<rparr>))"
    by (rule readableC_claim_pop)
  with eq popPassClaimedC show ?thesis by (simp add: storedC_update)
next
  case (popPassEmptyC t ts sd s s')
  with inv have sh: "shapeC N s" by (simp add: invSysC_shape)
  from popPassEmptyC(5) popPassC_shape [OF sh] have "s' = s"
    by (auto split: if_splits)
  with popPassEmptyC show ?thesis by (simp add: storedC_update)
next
  case (popPassRetryC t ts sd s r s')
  with inv have sh: "shapeC N s" by (simp add: invSysC_shape)
  from popPassRetryC(5) popPassC_shape [OF sh] have "s' = s"
    by (auto split: if_splits)
  with popPassRetryC show ?thesis by (simp add: storedC_update)
next
  case (popReadC t ts i s)
  then show ?thesis by (simp add: storedC_update)
next
  case (popClearC t ts i v s)
  with inv have ow: "list_all (ownsC N s) ts" by (simp add: invSysC_def)
  from ow popClearC(3) have "ownsC N s (ts ! t)" by (rule list_all_nth)
  with popClearC(4) have "i \<notin> set (ringRange N (head s) (tail s))"
    by (simp add: ownsC_def)
  then have "readableC N (s\<lparr>hasData := (hasData s)[i := False]\<rparr>) = readableC N s"
    by (rule readableC_clear)
  with popClearC show ?thesis by (simp add: storedC_update)
next
  case (popCheckDataC t ts v s)
  then show ?thesis by (simp add: storedC_update)
next
  case (popCountC t ts v s)
  then show ?thesis by (simp add: storedC_update readableC_def)
next
  case (popCheckWorkC t ts v s)
  then show ?thesis by (simp add: storedC_update)
next
  case (popDoneC t ts v s)
  then show ?thesis by (simp add: storedC_update readableC_def)
qed

lemma occupancyC_interleavedC: "occupancyC N d n c k \<Longrightarrow> interleavedC N d n c"
  by (induction rule: occupancyC.induct) (auto intro: interleavedC.intros)

lemma interleavedC_occupancyC: "interleavedC N d n c \<Longrightarrow> \<exists>k. occupancyC N d n c k"
proof (induction rule: interleavedC.induct)
  case startC
  show ?case by (blast intro: occupancyC.startOC)
next
  case (stepC c c')
  then obtain k where k: "occupancyC N d n c k" by blast
  obtain s ts where c: "c = (s, ts)" by (cases c)
  obtain s' ts' where c': "c' = (s', ts')" by (cases c')
  from k stepC.hyps(2) show ?case
    unfolding c c' by (blast intro: occupancyC.stepOC)
qed

lemma occupancyC_readable:
  "occupancyC N d n c k \<Longrightarrow> 0 < N \<Longrightarrow> k = int (readableC N (fst c))"
proof (induction rule: occupancyC.induct)
  case startOC
  show ?case by (simp add: readableC_def initC_def ringRange_def)
next
  case (stepOC s ts k s' ts')
  from stepOC.hyps(1) have "interleavedC N d n (s, ts)" by (rule occupancyC_interleavedC)
  from this stepOC.prems have "invSysC N (s, ts)" by (rule interleavedC_inv)
  from this stepOC.hyps(2) have "int (readableC N (fst (s', ts'))) =
      int (readableC N (fst (s, ts))) + sum_list (map2 storedC (snd (s, ts)) (snd (s', ts')))"
    by (rule stepC_readable)
  with stepOC.IH [OF stepOC.prems] show ?case by simp
qed

lemma readableC_le: "0 < N \<Longrightarrow> readableC N s \<le> N - 1"
proof -
  assume "0 < N"
  have "readableC N s \<le> length (ringRange N (head s) (tail s))"
    by (simp add: readableC_def)
  also have "\<dots> = (tail s + N - head s) mod N" by (rule ringRange_length)
  also from \<open>0 < N\<close> have "\<dots> \<le> N - 1"
    using mod_less_divisor [of N "tail s + N - head s"] by linarith
  finally show ?thesis .
qed

section \<open>A whole call as the steps of one thread\<close>

lemma interleavedC_step1:
  "interleavedC N d n c \<Longrightarrow> stepC N c c'' \<Longrightarrow> c'' = c' \<Longrightarrow> interleavedC N d n c'"
  by (auto intro: interleavedC.stepC)

lemma thread_pushC:
  assumes i: "interleavedC N d n (s, ts)" and n: "0 < N"
    and t: "t < length ts" "ts ! t = IdleC"
    and nf: "(tail s + 1) mod N \<noteq> head s" and nb: "\<not> hasData s ! tail s"
  shows "interleavedC N d n (s\<lparr>buffer := (buffer s)[tail s := x],
      tail := (tail s + 1) mod N, pendingDataC := pendingDataC s + 1,
      pendingActionsC := pendingActionsC s + 1,
      hasData := (hasData s)[tail s := True]\<rparr>, ts)"
proof -
  from interleavedC_inv [OF i n] have sh: "shapeC N s" by (rule invSysC_shape)
  then have l: "tail s < length (hasData s)" "tail s < length (buffer s)"
    by (simp_all add: shapeC_def)
  let ?s1 = "pushBeginC s"
  let ?s2 = "?s1\<lparr>tail := (tail s + 1) mod N\<rparr>"
  from sh have sh1: "shapeC N ?s1" by (simp add: shapeC_def pushBeginC_def)
  have 1: "interleavedC N d n (?s1, ts[t := PushingC x 0])"
    by (rule interleavedC_step1 [OF i stepC.callPushC [OF t]]) simp
  from nf nb have it: "pushPassC N ?s1 = Some (Inr (Some (tail s), ?s2))"
    by (simp add: pushPassC_shape [OF sh1]) (simp add: pushBeginC_def)
  from t have 2: "interleavedC N d n (?s2, ts[t := PushClaimedC x (tail s)])"
    by (intro interleavedC_step1 [OF 1 stepC.pushPassClaimedC [where t = t, OF _ _ it]]) simp_all
  let ?s3 = "?s2\<lparr>buffer := (buffer ?s2)[tail s := x]\<rparr>"
  from t l have 3: "interleavedC N d n (?s3, ts[t := PushWrittenC (tail s)])"
    by (intro interleavedC_step1 [OF 2 stepC.pushWriteC [where t = t and x = x and i = "tail s"]])
      (simp_all add: pushBeginC_def)
  let ?s4 = "?s3\<lparr>pendingDataC := pendingDataC ?s3 + 1\<rparr>"
  from t have 4: "interleavedC N d n (?s4, ts[t := PushCountedC (tail s)])"
    by (intro interleavedC_step1 [OF 3 stepC.pushCountC [where t = t and i = "tail s"]]) simp_all
  let ?s5 = "?s4\<lparr>pendingActionsC := pendingActionsC ?s4 + (- 1)\<rparr>"
  from t have 5: "interleavedC N d n (?s5, ts[t := PushDoneC (tail s)])"
    by (intro interleavedC_step1 [OF 4 stepC.pushDoneC [where t = t and i = "tail s"]]) simp_all
  let ?s6 = "?s5\<lparr>hasData := (hasData ?s5)[tail s := True]\<rparr>"
  from t l have 6: "interleavedC N d n (?s6, ts[t := IdleC])"
    by (intro interleavedC_step1 [OF 5 stepC.pushCommitC [where t = t and i = "tail s"]])
      (simp_all add: pushBeginC_def)
  from t have "ts[t := IdleC] = ts" by (simp add: list_update_same_conv)
  moreover have "?s6 = s\<lparr>buffer := (buffer s)[tail s := x],
      tail := (tail s + 1) mod N, pendingDataC := pendingDataC s + 1,
      pendingActionsC := pendingActionsC s + 1,
      hasData := (hasData s)[tail s := True]\<rparr>"
    by (simp add: pushBeginC_def)
  ultimately show ?thesis using 6 by simp
qed

lemma thread_popC:
  assumes i: "interleavedC N d n (s, ts)" and n: "0 < N"
    and t: "t < length ts" "ts ! t = IdleC"
    and ne: "head s \<noteq> tail s" and fl: "hasData s ! head s"
    and a1: "0 < pendingDataC s" and a2: "0 < pendingActionsC s"
  shows "interleavedC N d n (s\<lparr>head := (head s + 1) mod N,
      hasData := (hasData s)[head s := False],
      pendingDataC := pendingDataC s - 1, pendingActionsC := pendingActionsC s - 1\<rparr>, ts)"
proof -
  from interleavedC_inv [OF i n] have sh: "shapeC N s" by (rule invSysC_shape)
  then have l: "head s < length (hasData s)" "head s < length (buffer s)"
    by (simp_all add: shapeC_def)
  let ?s2 = "s\<lparr>head := (head s + 1) mod N\<rparr>"
  have 1: "interleavedC N d n (s, ts[t := PoppingC 0])"
    by (rule interleavedC_step1 [OF i stepC.callPopC [OF t]]) simp
  from ne fl have it: "popPassC N s = Some (Inr (Some (head s), False, ?s2))"
    by (simp add: popPassC_shape [OF sh])
  from t have 2: "interleavedC N d n (?s2, ts[t := PopClaimedC (head s)])"
    by (intro interleavedC_step1 [OF 1 stepC.popPassClaimedC [where t = t, OF _ _ it]]) simp_all
  from t l have 3: "interleavedC N d n (?s2, ts[t := PopReadC (head s) (buffer s ! head s)])"
    by (intro interleavedC_step1 [OF 2 stepC.popReadC [where t = t and i = "head s"]]) simp_all
  let ?s4 = "?s2\<lparr>hasData := (hasData ?s2)[head s := False]\<rparr>"
  from t l have 4: "interleavedC N d n (?s4, ts[t := PopClearedC (buffer s ! head s)])"
    by (intro interleavedC_step1 [OF 3 stepC.popClearC [where t = t and i = "head s"
            and v = "buffer s ! head s"]]) simp_all
  from t a1 have 5: "interleavedC N d n (?s4, ts[t := PopCheckedC (buffer s ! head s)])"
    by (intro interleavedC_step1 [OF 4 stepC.popCheckDataC [where t = t
            and v = "buffer s ! head s"]]) simp_all
  let ?s6 = "?s4\<lparr>pendingDataC := pendingDataC ?s4 + (- 1)\<rparr>"
  from t have 6: "interleavedC N d n (?s6, ts[t := PopCountedC (buffer s ! head s)])"
    by (intro interleavedC_step1 [OF 5 stepC.popCountC [where t = t
            and v = "buffer s ! head s"]]) simp_all
  from t a2 have 7: "interleavedC N d n (?s6, ts[t := PopCheckedWorkC (buffer s ! head s)])"
    by (intro interleavedC_step1 [OF 6 stepC.popCheckWorkC [where t = t
            and v = "buffer s ! head s"]]) simp_all
  let ?s8 = "?s6\<lparr>pendingActionsC := pendingActionsC ?s6 + (- 1)\<rparr>"
  from t have 8: "interleavedC N d n (?s8, ts[t := IdleC])"
    by (intro interleavedC_step1 [OF 7 stepC.popDoneC [where t = t
            and v = "buffer s ! head s"]]) simp_all
  from t have "ts[t := IdleC] = ts" by (simp add: list_update_same_conv)
  moreover have "?s8 = s\<lparr>head := (head s + 1) mod N,
      hasData := (hasData s)[head s := False],
      pendingDataC := pendingDataC s - 1, pendingActionsC := pendingActionsC s - 1\<rparr>"
    by simp
  ultimately show ?thesis using 8 by simp
qed

lemma reachableC_interleavedC:
  "reachableC N d s \<Longrightarrow> 0 < N \<Longrightarrow> interleavedC N d 1 (s, [IdleC])"
proof (induction rule: reachableC.induct)
  case freshC
  have "interleavedC N d 1 (initC N d, replicate 1 IdleC)" by (rule interleavedC.startC)
  then show ?case by simp
next
  case (afterPushC s x s')
  from afterPushC.hyps(1) afterPushC.prems have inv: "invC N s" by (rule reachableC_invC)
  then have c: "canUpdate s" and l: "tail s < length (hasData s)" "tail s < length (buffer s)"
    and nb: "\<not> hasData s ! tail s"
    using invC_flag_tail [OF inv] by (simp_all add: invC_def)
  from c afterPushC.hyps(2) have nf: "(tail s + 1) mod N \<noteq> head s"
    using pushC_full_spins [of s N x] by auto
  from c nf l nb afterPushC.hyps(2) have "s' = s\<lparr>buffer := (buffer s)[tail s := x],
      tail := (tail s + 1) mod N, pendingDataC := pendingDataC s + 1,
      pendingActionsC := pendingActionsC s + 1,
      hasData := (hasData s)[tail s := True]\<rparr>"
    by (simp add: pushC_free)
  moreover have "interleavedC N d 1 (s\<lparr>buffer := (buffer s)[tail s := x],
      tail := (tail s + 1) mod N, pendingDataC := pendingDataC s + 1,
      pendingActionsC := pendingActionsC s + 1,
      hasData := (hasData s)[tail s := True]\<rparr>, [IdleC])"
    by (rule thread_pushC [where t = 0, OF afterPushC.IH [OF afterPushC.prems] afterPushC.prems _ _ nf nb])
      simp_all
  ultimately show ?case by simp
next
  case (afterPopC s p ok v s')
  from afterPopC.hyps(1) afterPopC.prems have inv: "invC N s" by (rule reachableC_invC)
  then have c: "canUpdate s" by (simp add: invC_def)
  show ?case
  proof (cases "head s = tail s")
    case True
    with c afterPopC.hyps(2) have "s' = s" by (simp add: popC_empty)
    with afterPopC.IH [OF afterPopC.prems] show ?thesis by simp
  next
    case False
    from invC_flag_head [OF inv False] have l: "head s < length (hasData s)"
      and fl: "hasData s ! head s" by simp_all
    from inv have lb: "head s < length (buffer s)" by (simp add: invC_def)
    from c False l lb fl afterPopC.hyps(2) have ok: "0 < pendingDataC s \<and> 0 < pendingActionsC s"
      and s': "s' = s\<lparr>head := (head s + 1) mod N, hasData := (hasData s)[head s := False],
        pendingDataC := pendingDataC s - 1, pendingActionsC := pendingActionsC s - 1\<rparr>"
      by (auto simp: popC_ready split: if_splits)
    have "interleavedC N d 1 (s\<lparr>head := (head s + 1) mod N,
        hasData := (hasData s)[head s := False],
        pendingDataC := pendingDataC s - 1, pendingActionsC := pendingActionsC s - 1\<rparr>, [IdleC])"
      using ok
      by (intro thread_popC [where t = 0, OF afterPopC.IH [OF afterPopC.prems] afterPopC.prems _ _ False fl])
        simp_all
    with s' show ?thesis by simp
  qed
qed

lemma thread_pushA:
  assumes i: "interleavedA N d n (s, ts)" and n: "0 < N"
    and t: "t < length ts" "ts ! t = Idle"
    and nf: "(tail s + 1) mod N \<noteq> head s" and nb: "\<not> isBusy s ! tail s"
  shows "interleavedA N d n (s\<lparr>buffer := (buffer s)[tail s := x],
      tail := (tail s + 1) mod N, pendingData := pendingData s + 1\<rparr>, ts)"
proof -
  from interleavedA_inv [OF i n] have sh: "shapeA N s" by (rule invSysA_shape)
  then have c: "canUpdate s" and l: "tail s < length (isBusy s)" "tail s < length (buffer s)"
    by (simp_all add: shapeA_def)
  let ?s1 = "pushBeginA s"
  let ?s2 = "?s1\<lparr>isBusy := (isBusy ?s1)[tail ?s1 := True], tail := (tail ?s1 + 1) mod N\<rparr>"
  have 1: "interleavedA N d n (?s1, ts[t := Pushing x sleepDurationStartA])"
    by (rule interleavedA_step1 [OF i stepA.callPush [OF t]]) simp
  from c l nb nf have it: "pushIterA N ?s1 = Inr (Some (tail s), False, ?s2)"
    by (simp add: pushIterA_def claimPush_free pushBeginA_def)
  from t have 2: "interleavedA N d n (?s2, ts[t := PushClaimed x (tail s)])"
    by (intro interleavedA_step1 [OF 1 stepA.pushPassClaimed [where t = t, OF _ _ it]]) simp_all
  let ?s3 = "?s2\<lparr>buffer := (buffer ?s2)[tail s := x]\<rparr>"
  from t l have 3: "interleavedA N d n (?s3, ts[t := PushWritten (tail s)])"
    by (intro interleavedA_step1 [OF 2 stepA.pushWrite [where t = t and x = x and i = "tail s"]])
      (simp_all add: pushBeginA_def)
  let ?s4 = "?s3\<lparr>pendingData := pendingData ?s3 - 1\<rparr>"
  from t have 4: "interleavedA N d n (?s4, ts[t := PushCounted (tail s)])"
    by (intro interleavedA_step1 [OF 3 stepA.pushCount [where t = t and i = "tail s"]]) simp_all
  let ?s5 = "?s4\<lparr>isBusy := (isBusy ?s4)[tail s := False]\<rparr>"
  from t l have 5: "interleavedA N d n (?s5, ts[t := Idle])"
    by (intro interleavedA_step1 [OF 4 stepA.pushRelease [where t = t and i = "tail s"]])
      (simp_all add: pushBeginA_def)
  from t have "ts[t := Idle] = ts" by (simp add: list_update_same_conv)
  moreover from nb l have "?s5 = s\<lparr>buffer := (buffer s)[tail s := x],
      tail := (tail s + 1) mod N, pendingData := pendingData s + 1\<rparr>"
    by (simp add: pushBeginA_def list_update_same_conv)
  ultimately show ?thesis using 5 by simp
qed

lemma consumer_owned: "consumerSlotC pc = Some i \<Longrightarrow> ownedSlotC pc = Some i"
  by (cases pc) (simp_all add: ownedSlotC_def)

lemma flags_accounting:
  assumes inv: "invSysC N (s, ts)"
  shows "committedC s = readableC N s + length (filter (\<lambda>pc. consumerSlotC pc \<noteq> None) ts)"
proof -
  from inv have sh: "shapeC N s" and ow: "list_all (ownsC N s) ts" and ex: "exclusiveC ts"
    and br: "beingReadC N (s, ts)"
    by (simp_all add: invSysC_def)
  from sh have h: "head s < N" and l: "length (hasData s) = N" by (simp_all add: shapeC_def)
  let ?R = "set (ringRange N (head s) (tail s))"
  let ?F = "{i. i < N \<and> hasData s ! i}"
  let ?T = "{t. t < length ts \<and> consumerSlotC (ts ! t) \<noteq> None}"
  let ?g = "\<lambda>t. the (consumerSlotC (ts ! t))"
  have fin: "finite ?F" by simp
  from h have sub: "?R \<subseteq> {i. i < N}"
    using ringRange_bound [of N _ "head s" "tail s"] by auto
  have c: "committedC s = card ?F"
    using l by (simp add: committedC_def length_filter_conv_card)
  from h have "distinct (ringRange N (head s) (tail s))" by (rule ringRange_distinct)
  then have "readableC N s = card ({i. hasData s ! i} \<inter> ?R)"
    by (simp add: readableC_def distinct_length_filter)
  also from sub have "{i. hasData s ! i} \<inter> ?R = ?F \<inter> ?R" by auto
  finally have r: "readableC N s = card (?F \<inter> ?R)" .
  have t: "length (filter (\<lambda>pc. consumerSlotC pc \<noteq> None) ts) = card ?T"
    by (simp add: length_filter_conv_card)
  have img: "?g ` ?T = ?F - ?R"
  proof (rule set_eqI, rule iffI)
    fix i
    assume "i \<in> ?g ` ?T"
    then obtain u where u: "u < length ts" "consumerSlotC (ts ! u) \<noteq> None" "i = ?g u" by auto
    then have cs: "consumerSlotC (ts ! u) = Some i" by auto
    from ow u(1) have "ownsC N s (ts ! u)" by (rule list_all_nth)
    from this cs have "i < N \<and> i \<notin> ?R \<and> hasData s ! i" by (rule ownsC_consumer)
    then show "i \<in> ?F - ?R" by simp
  next
    fix i
    assume "i \<in> ?F - ?R"
    then have "i < N" "hasData s ! i \<and> i \<notin> ?R" by simp_all
    with br obtain u where "u < length ts" "consumerSlotC (ts ! u) = Some i"
      unfolding beingReadC_def by auto
    then have "u \<in> ?T \<and> ?g u = i" by simp
    then show "i \<in> ?g ` ?T" by blast
  qed
  have inj: "inj_on ?g ?T"
  proof (rule inj_onI)
    fix a b
    assume a: "a \<in> ?T" and b: "b \<in> ?T" and e: "?g a = ?g b"
    from a obtain i where ia: "consumerSlotC (ts ! a) = Some i" by auto
    from b obtain j where jb: "consumerSlotC (ts ! b) = Some j" by auto
    from e ia jb have "i = j" by simp
    with ia jb have oa: "ownedSlotC (ts ! a) = Some i" and ob: "ownedSlotC (ts ! b) = Some i"
      by (simp_all add: consumer_owned)
    show "a = b"
    proof (rule ccontr)
      assume "a \<noteq> b"
      then have "b \<noteq> a" by simp
      from a b have "a < length ts" "b < length ts" by simp_all
      from ex this(1) oa this(2) \<open>b \<noteq> a\<close> have "ownedSlotC (ts ! b) \<noteq> Some i"
        by (rule exclusiveC_others)
      with ob show False by simp
    qed
  qed
  have "?F = (?F \<inter> ?R) \<union> (?F - ?R)" by auto
  then have "card ?F = card ((?F \<inter> ?R) \<union> (?F - ?R))" by simp
  also have "\<dots> = card (?F \<inter> ?R) + card (?F - ?R)"
    by (rule card_Un_disjoint) auto
  also from img have "card (?F - ?R) = card (?g ` ?T)" by simp
  also from inj have "\<dots> = card ?T" by (rule card_image)
  finally show ?thesis using c r t by simp
qed

section \<open>Sample states with a consumer between its claim and its read\<close>

lemma consumer_in_flightC:
  "interleavedC 4 CHR ''-'' 2
     (\<lparr>buffer = ''ABCD'', head = 1, tail = 0, canUpdate = True,
        hasData = [True, True, True, True], pendingActionsC = 4, pendingDataC = 4\<rparr>,
      [IdleC, PopClaimedC 0])"
proof -
  have n: "0 < (4::nat)" by simp
  have "interleavedC 4 CHR ''-'' 2 (initC 4 CHR ''-'', replicate 2 IdleC)"
    by (rule interleavedC.startC)
  then have 0: "interleavedC 4 CHR ''-'' 2
     (\<lparr>buffer = ''----'', head = 0, tail = 0, canUpdate = True,
        hasData = [False, False, False, False], pendingActionsC = 0, pendingDataC = 0\<rparr>,
      [IdleC, IdleC])"
    by (simp add: initC_def numeral_2_eq_2 numeral_Bit0 replicate_add)
  have 1: "interleavedC 4 CHR ''-'' 2
     (\<lparr>buffer = ''A---'', head = 0, tail = 1, canUpdate = True,
        hasData = [True, False, False, False], pendingActionsC = 1, pendingDataC = 1\<rparr>,
      [IdleC, IdleC])"
    using thread_pushC [OF 0 n, where t = 0 and x = "CHR ''A''"] by simp
  have 2: "interleavedC 4 CHR ''-'' 2
     (\<lparr>buffer = ''AB--'', head = 0, tail = 2, canUpdate = True,
        hasData = [True, True, False, False], pendingActionsC = 2, pendingDataC = 2\<rparr>,
      [IdleC, IdleC])"
    using thread_pushC [OF 1 n, where t = 0 and x = "CHR ''B''"] by (simp add: numeral_2_eq_2)
  have 3: "interleavedC 4 CHR ''-'' 2
     (\<lparr>buffer = ''ABC-'', head = 0, tail = 3, canUpdate = True,
        hasData = [True, True, True, False], pendingActionsC = 3, pendingDataC = 3\<rparr>,
      [IdleC, IdleC])"
    using thread_pushC [OF 2 n, where t = 0 and x = "CHR ''C''"] by simp
  have 4: "interleavedC 4 CHR ''-'' 2
     (\<lparr>buffer = ''ABC-'', head = 0, tail = 3, canUpdate = True,
        hasData = [True, True, True, False], pendingActionsC = 3, pendingDataC = 3\<rparr>,
      [IdleC, PoppingC 0])"
    by (rule interleavedC_step1 [OF 3 stepC.callPopC [where t = 1]]) simp_all
  have 5: "interleavedC 4 CHR ''-'' 2
     (\<lparr>buffer = ''ABC-'', head = 1, tail = 3, canUpdate = True,
        hasData = [True, True, True, False], pendingActionsC = 3, pendingDataC = 3\<rparr>,
      [IdleC, PopClaimedC 0])"
    by (rule interleavedC_step1 [OF 4 stepC.popPassClaimedC [where t = 1 and i = 0
            and s' = "\<lparr>buffer = ''ABC-'', head = 1, tail = 3, canUpdate = True,
              hasData = [True, True, True, False], pendingActionsC = 3, pendingDataC = 3\<rparr>"]])
      (simp_all add: popPassC_def acquire_free claimPopC_def at_def)
  show ?thesis
    using thread_pushC [OF 5 n, where t = 0 and x = "CHR ''D''"] by simp
qed

lemma consumer_in_flightA:
  "interleavedA 4 CHR ''-'' 2
     (\<lparr>buffer = ''ABCD'', head = 1, tail = 0, canUpdate = True,
        isBusy = [True, False, False, False], pendingData = 4\<rparr>,
      [Idle, PopClaimed 0])"
proof -
  have n: "0 < (4::nat)" by simp
  have "interleavedA 4 CHR ''-'' 2 (initA 4 CHR ''-'', replicate 2 Idle)"
    by (rule interleavedA.start)
  then have 0: "interleavedA 4 CHR ''-'' 2
     (\<lparr>buffer = ''----'', head = 0, tail = 0, canUpdate = True,
        isBusy = [False, False, False, False], pendingData = 0\<rparr>, [Idle, Idle])"
    by (simp add: initA_def numeral_2_eq_2 numeral_Bit0 replicate_add)
  have 1: "interleavedA 4 CHR ''-'' 2
     (\<lparr>buffer = ''A---'', head = 0, tail = 1, canUpdate = True,
        isBusy = [False, False, False, False], pendingData = 1\<rparr>, [Idle, Idle])"
    using thread_pushA [OF 0 n, where t = 0 and x = "CHR ''A''"] by simp
  have 2: "interleavedA 4 CHR ''-'' 2
     (\<lparr>buffer = ''AB--'', head = 0, tail = 2, canUpdate = True,
        isBusy = [False, False, False, False], pendingData = 2\<rparr>, [Idle, Idle])"
    using thread_pushA [OF 1 n, where t = 0 and x = "CHR ''B''"] by (simp add: numeral_2_eq_2)
  have 3: "interleavedA 4 CHR ''-'' 2
     (\<lparr>buffer = ''ABC-'', head = 0, tail = 3, canUpdate = True,
        isBusy = [False, False, False, False], pendingData = 3\<rparr>, [Idle, Idle])"
    using thread_pushA [OF 2 n, where t = 0 and x = "CHR ''C''"] by simp
  have 4: "interleavedA 4 CHR ''-'' 2
     (\<lparr>buffer = ''ABC-'', head = 0, tail = 3, canUpdate = True,
        isBusy = [False, False, False, False], pendingData = 3\<rparr>,
      [Idle, Popping sleepDurationStartA])"
    by (rule interleavedA_step1 [OF 3 stepA.callPop [where t = 1]]) simp_all
  have 5: "interleavedA 4 CHR ''-'' 2
     (\<lparr>buffer = ''ABC-'', head = 1, tail = 3, canUpdate = True,
        isBusy = [True, False, False, False], pendingData = 3\<rparr>,
      [Idle, PopClaimed 0])"
    by (rule interleavedA_step1 [OF 4 stepA.popPassClaimed [where t = 1 and i = 0
            and s' = "\<lparr>buffer = ''ABC-'', head = 1, tail = 3, canUpdate = True,
              isBusy = [True, False, False, False], pendingData = 3\<rparr>"]])
      (simp_all add: popIterA_def claimPop_def at_def)
  show ?thesis
    using thread_pushA [OF 5 n, where t = 0 and x = "CHR ''D''"] by simp
qed

lemma interleavedA_occupancy_value:
  assumes "interleavedA N d n (s, ts)" "0 < N"
  shows "occupancyA N d n (s, ts) (int (committedA N s))"
proof -
  from interleavedA_occupancyA [OF assms(1)] obtain k where k: "occupancyA N d n (s, ts) k" ..
  from occupancyA_committed [OF k assms(2)] k show ?thesis by simp
qed

lemma interleavedC_occupancy_value:
  assumes "interleavedC N d n (s, ts)" "0 < N"
  shows "occupancyC N d n (s, ts) (int (readableC N s))"
proof -
  from interleavedC_occupancyC [OF assms(1)] obtain k where k: "occupancyC N d n (s, ts) k" ..
  from occupancyC_readable [OF k assms(2)] k show ?thesis by simp
qed

lemma consumer_in_flightC_readable:
  "readableC 4 \<lparr>buffer = ''ABCD'', head = 1, tail = 0, canUpdate = True,
        hasData = [True, True, True, True], pendingActionsC = 4, pendingDataC = 4\<rparr> = 3"
  by code_simp

lemma consumer_in_flightA_committed:
  "committedA 4 \<lparr>buffer = ''ABCD'', head = 1, tail = 0, canUpdate = True,
        isBusy = [True, False, False, False], pendingData = 4\<rparr> = 3"
  by code_simp

section \<open>The delays that the retry loops hold\<close>

lemma interleavedA_delays_closed:
  assumes g0: "G sleepDurationStartA" and g1: "\<And>sd. G sd \<Longrightarrow> G (backOffA sd)"
  shows "interleavedA N d n c \<Longrightarrow>
         list_all (\<lambda>pc. \<forall>sd. loopDelayA pc = Some sd \<longrightarrow> G sd) (snd c)"
proof (induction rule: interleavedA.induct)
  case start
  show ?case by (simp add: list_all_length)
next
  case (step c c')
  from step.hyps(2) show ?case
  proof (cases rule: stepA.cases)
    case (pushPassRetry t ts x sd s r s')
    from step.IH pushPassRetry(1) have all: "list_all (\<lambda>pc. \<forall>sd. loopDelayA pc = Some sd \<longrightarrow> G sd) ts"
      by simp
    from all pushPassRetry(3) have "\<forall>sd'. loopDelayA (ts ! t) = Some sd' \<longrightarrow> G sd'"
      by (rule list_all_nth)
    with pushPassRetry(4) have "G sd" by simp
    then have "G (backOffA sd)" by (rule g1)
    with all pushPassRetry(2) show ?thesis by (simp add: list_all_update)
  next
    case (popPassRetry t ts sd s r s')
    from step.IH popPassRetry(1) have all: "list_all (\<lambda>pc. \<forall>sd. loopDelayA pc = Some sd \<longrightarrow> G sd) ts"
      by simp
    from all popPassRetry(3) have "\<forall>sd'. loopDelayA (ts ! t) = Some sd' \<longrightarrow> G sd'"
      by (rule list_all_nth)
    with popPassRetry(4) have "G sd" by simp
    then have "G (backOffA sd)" by (rule g1)
    with all popPassRetry(2) show ?thesis by (simp add: list_all_update)
  qed (use step.IH g0 in \<open>simp_all add: list_all_update\<close>)
qed

lemma interleavedC_delays_closed:
  assumes g0: "G 0" and g1: "\<And>sd. G sd \<Longrightarrow> G (backOffC sd)"
  shows "interleavedC N d n c \<Longrightarrow>
         list_all (\<lambda>pc. \<forall>sd. loopDelayC pc = Some sd \<longrightarrow> G sd) (snd c)"
proof (induction rule: interleavedC.induct)
  case startC
  show ?case by (simp add: list_all_length)
next
  case (stepC c c')
  from stepC.hyps(2) show ?case
  proof (cases rule: stepC.cases)
    case (pushPassRetryC t ts x sd s s')
    from stepC.IH pushPassRetryC(1) have all: "list_all (\<lambda>pc. \<forall>sd. loopDelayC pc = Some sd \<longrightarrow> G sd) ts"
      by simp
    from all pushPassRetryC(3) have "\<forall>sd'. loopDelayC (ts ! t) = Some sd' \<longrightarrow> G sd'"
      by (rule list_all_nth)
    with pushPassRetryC(4) have "G sd" by simp
    then have "G (backOffC sd)" by (rule g1)
    with all pushPassRetryC(2) show ?thesis by (simp add: list_all_update)
  next
    case (popPassRetryC t ts sd s r s')
    from stepC.IH popPassRetryC(1) have all: "list_all (\<lambda>pc. \<forall>sd. loopDelayC pc = Some sd \<longrightarrow> G sd) ts"
      by simp
    from all popPassRetryC(3) have "\<forall>sd'. loopDelayC (ts ! t) = Some sd' \<longrightarrow> G sd'"
      by (rule list_all_nth)
    with popPassRetryC(4) have "G sd" by simp
    then have "G (backOffC sd)" by (rule g1)
    with all popPassRetryC(2) show ?thesis by (simp add: list_all_update)
  qed (use stepC.IH g0 in \<open>simp_all add: list_all_update\<close>)
qed

lemma interleavedA_delay:
  assumes "interleavedA N d n (s, ts)" "t < length ts" "loopDelayA (ts ! t) = Some sd"
  shows "\<exists>k. sd = (backOffA ^^ k) sleepDurationStartA"
proof -
  have g0: "\<exists>k. sleepDurationStartA = (backOffA ^^ k) sleepDurationStartA"
  proof
    show "sleepDurationStartA = (backOffA ^^ 0) sleepDurationStartA" by simp
  qed
  have g1: "\<And>sd. \<exists>k. sd = (backOffA ^^ k) sleepDurationStartA \<Longrightarrow>
      \<exists>k. backOffA sd = (backOffA ^^ k) sleepDurationStartA"
  proof -
    fix sd
    assume "\<exists>k. sd = (backOffA ^^ k) sleepDurationStartA"
    then obtain k where "sd = (backOffA ^^ k) sleepDurationStartA" ..
    then have "backOffA sd = (backOffA ^^ Suc k) sleepDurationStartA" by simp
    then show "\<exists>k. backOffA sd = (backOffA ^^ k) sleepDurationStartA" ..
  qed
  from interleavedA_delays_closed [where G = "\<lambda>sd. \<exists>k. sd = (backOffA ^^ k) sleepDurationStartA",
      OF g0 g1 assms(1)]
  have "list_all (\<lambda>pc. \<forall>sd. loopDelayA pc = Some sd \<longrightarrow>
      (\<exists>k. sd = (backOffA ^^ k) sleepDurationStartA)) ts" by simp
  from this assms(2) have "\<forall>sd. loopDelayA (ts ! t) = Some sd \<longrightarrow>
      (\<exists>k. sd = (backOffA ^^ k) sleepDurationStartA)" by (rule list_all_nth)
  with assms(3) show ?thesis by simp
qed

lemma interleavedC_delay:
  assumes "interleavedC N d n (s, ts)" "t < length ts" "loopDelayC (ts ! t) = Some sd"
  shows "\<exists>k. sd = (backOffC ^^ k) 0"
proof -
  have g0: "\<exists>k. (0::int) = (backOffC ^^ k) 0"
  proof
    show "(0::int) = (backOffC ^^ 0) 0" by simp
  qed
  have g1: "\<And>sd. \<exists>k. sd = (backOffC ^^ k) 0 \<Longrightarrow> \<exists>k. backOffC sd = (backOffC ^^ k) 0"
  proof -
    fix sd
    assume "\<exists>k. sd = (backOffC ^^ k) 0"
    then obtain k where "sd = (backOffC ^^ k) 0" ..
    then have "backOffC sd = (backOffC ^^ Suc k) 0" by simp
    then show "\<exists>k. backOffC sd = (backOffC ^^ k) 0" ..
  qed
  from interleavedC_delays_closed [where G = "\<lambda>sd. \<exists>k. sd = (backOffC ^^ k) 0",
      OF g0 g1 assms(1)]
  have "list_all (\<lambda>pc. \<forall>sd. loopDelayC pc = Some sd \<longrightarrow> (\<exists>k. sd = (backOffC ^^ k) 0)) ts"
    by simp
  from this assms(2) have "\<forall>sd. loopDelayC (ts ! t) = Some sd \<longrightarrow> (\<exists>k. sd = (backOffC ^^ k) 0)"
    by (rule list_all_nth)
  with assms(3) show ?thesis by simp
qed

lemma consumer_retryingA:
  "interleavedA 4 CHR ''-'' 2
     (\<lparr>buffer = ''-B--'', head = 0, tail = 2, canUpdate = True,
        isBusy = [True, False, False, False], pendingData = 3\<rparr>,
      [PushClaimed CHR ''A'' 0, Popping (- 9)])"
proof -
  have 1: "interleavedA 4 CHR ''-'' 2
     (\<lparr>buffer = ''-B--'', head = 0, tail = 2, canUpdate = True,
        isBusy = [True, False, False, False], pendingData = 3\<rparr>,
      [PushClaimed CHR ''A'' 0, Popping sleepDurationStartA])"
    by (rule interleavedA_step1 [OF two_producers stepA.callPop [where t = 1]]) simp_all
  show ?thesis
    by (rule interleavedA_step1 [OF 1 stepA.popPassRetry [where t = 1 and r = None and sd = sleepDurationStartA
            and s' = "\<lparr>buffer = ''-B--'', head = 0, tail = 2, canUpdate = True,
              isBusy = [True, False, False, False], pendingData = 3\<rparr>"]])
      (simp_all add: popIterA_def claimPop_def at_def backOffA_def sleepDurationStartA_def
        sleepDurationStepA_def maxSleepDurationA_def)
qed

lemma consumer_retryingC:
  "interleavedC 4 CHR ''-'' 2
     (\<lparr>buffer = ''----'', head = 0, tail = 1, canUpdate = True,
        hasData = [False, False, False, False], pendingActionsC = 2, pendingDataC = 0\<rparr>,
      [PushClaimedC CHR ''A'' 0, PoppingC 1])"
proof -
  have "interleavedC 4 CHR ''-'' 2 (initC 4 CHR ''-'', replicate 2 IdleC)"
    by (rule interleavedC.startC)
  then have 0: "interleavedC 4 CHR ''-'' 2
     (\<lparr>buffer = ''----'', head = 0, tail = 0, canUpdate = True,
        hasData = [False, False, False, False], pendingActionsC = 0, pendingDataC = 0\<rparr>,
      [IdleC, IdleC])"
    by (simp add: initC_def numeral_2_eq_2 numeral_Bit0 replicate_add)
  have 1: "interleavedC 4 CHR ''-'' 2
     (\<lparr>buffer = ''----'', head = 0, tail = 0, canUpdate = True,
        hasData = [False, False, False, False], pendingActionsC = 2, pendingDataC = 0\<rparr>,
      [PushingC CHR ''A'' 0, IdleC])"
    by (rule interleavedC_step1 [OF 0 stepC.callPushC [where t = 0 and x = "CHR ''A''"]])
      (simp_all add: pushBeginC_def)
  have 2: "interleavedC 4 CHR ''-'' 2
     (\<lparr>buffer = ''----'', head = 0, tail = 1, canUpdate = True,
        hasData = [False, False, False, False], pendingActionsC = 2, pendingDataC = 0\<rparr>,
      [PushClaimedC CHR ''A'' 0, IdleC])"
    by (rule interleavedC_step1 [OF 1 stepC.pushPassClaimedC [where t = 0 and i = 0
            and s' = "\<lparr>buffer = ''----'', head = 0, tail = 1, canUpdate = True,
              hasData = [False, False, False, False], pendingActionsC = 2, pendingDataC = 0\<rparr>"]])
      (simp_all add: pushPassC_def acquire_free claimPushC_def at_def)
  have 3: "interleavedC 4 CHR ''-'' 2
     (\<lparr>buffer = ''----'', head = 0, tail = 1, canUpdate = True,
        hasData = [False, False, False, False], pendingActionsC = 2, pendingDataC = 0\<rparr>,
      [PushClaimedC CHR ''A'' 0, PoppingC 0])"
    by (rule interleavedC_step1 [OF 2 stepC.callPopC [where t = 1]]) simp_all
  show ?thesis
    by (rule interleavedC_step1 [OF 3 stepC.popPassRetryC [where t = 1 and r = None and sd = 0
            and s' = "\<lparr>buffer = ''----'', head = 0, tail = 1, canUpdate = True,
              hasData = [False, False, False, False], pendingActionsC = 2, pendingDataC = 0\<rparr>"]])
      (simp_all add: popPassC_def acquire_free claimPopC_def at_def backOffC_def
        maxSleepDurationC_def sleepDurationStepC_def)
qed

section \<open>A claimed slot belongs to one thread\<close>

lemma producer_owned: "producerSlot pc = Some i \<Longrightarrow> ownedSlot pc = Some i"
  by (simp add: ownedSlot_def)

lemma producer_ownedC: "producerSlotC pc = Some i \<Longrightarrow> ownedSlotC pc = Some i"
  by (simp add: ownedSlotC_def)

lemma consumer_ownedA: "consumerSlot pc = Some i \<Longrightarrow> ownedSlot pc = Some i"
  by (cases pc) (simp_all add: ownedSlot_def)

lemma interleavedA_producer:
  assumes "interleavedA N d n (s, ts)" "0 < N"
    and "t < length ts" "u < length ts" "u \<noteq> t" "producerSlot (ts ! t) = Some i"
  shows "slotStateA N s i = ClaimedByProducer \<and> ownedSlot (ts ! u) \<noteq> Some i"
proof -
  from interleavedA_inv [OF assms(1,2)] have "list_all (ownsA N s) ts" by (simp add: invSysA_def)
  then have "ownsA N s (ts ! t)" using assms(3) by (rule list_all_nth)
  with assms(6) have "slotStateA N s i = ClaimedByProducer"
    by (simp add: ownsA_def slotStateA_def)
  moreover from assms(6) have "ownedSlot (ts ! t) = Some i" by (rule producer_owned)
  with assms(1-5) have "ownedSlot (ts ! u) \<noteq> Some i" by (rule interleavedA_exclusive)
  ultimately show ?thesis ..
qed

lemma interleavedA_consumer:
  assumes "interleavedA N d n (s, ts)" "0 < N"
    and "t < length ts" "u < length ts" "u \<noteq> t" "consumerSlot (ts ! t) = Some i"
  shows "slotStateA N s i = ClaimedByConsumer \<and> ownedSlot (ts ! u) \<noteq> Some i"
proof -
  from interleavedA_inv [OF assms(1,2)] have "list_all (ownsA N s) ts" by (simp add: invSysA_def)
  then have "ownsA N s (ts ! t)" using assms(3) by (rule list_all_nth)
  with assms(6) have "slotStateA N s i = ClaimedByConsumer"
    by (simp add: ownsA_def slotStateA_def)
  moreover from assms(6) have "ownedSlot (ts ! t) = Some i" by (rule consumer_ownedA)
  with assms(1-5) have "ownedSlot (ts ! u) \<noteq> Some i" by (rule interleavedA_exclusive)
  ultimately show ?thesis ..
qed

lemma interleavedC_exclusive:
  assumes "interleavedC N d n (s, ts)" "0 < N"
    and "t < length ts" "u < length ts" "u \<noteq> t" "ownedSlotC (ts ! t) = Some i"
  shows "ownedSlotC (ts ! u) \<noteq> Some i"
proof -
  from interleavedC_inv [OF assms(1,2)] have "exclusiveC ts" by (simp add: invSysC_def)
  from this assms(3) assms(6) assms(4) assms(5) show ?thesis by (rule exclusiveC_others)
qed

lemma interleavedC_producer:
  assumes "interleavedC N d n (s, ts)" "0 < N"
    and "t < length ts" "u < length ts" "u \<noteq> t" "producerSlotC (ts ! t) = Some i"
  shows "slotStateC N s i = ClaimedByProducer \<and> ownedSlotC (ts ! u) \<noteq> Some i"
proof -
  from interleavedC_inv [OF assms(1,2)] have "list_all (ownsC N s) ts" by (simp add: invSysC_def)
  then have "ownsC N s (ts ! t)" using assms(3) by (rule list_all_nth)
  with assms(6) have "slotStateC N s i = ClaimedByProducer"
    by (simp add: ownsC_def slotStateC_def)
  moreover from assms(6) have "ownedSlotC (ts ! t) = Some i" by (rule producer_ownedC)
  with assms(1-5) have "ownedSlotC (ts ! u) \<noteq> Some i" by (rule interleavedC_exclusive)
  ultimately show ?thesis ..
qed

lemma interleavedC_consumer:
  assumes "interleavedC N d n (s, ts)" "0 < N"
    and "t < length ts" "u < length ts" "u \<noteq> t" "consumerSlotC (ts ! t) = Some i"
  shows "slotStateC N s i = ClaimedByConsumer \<and> ownedSlotC (ts ! u) \<noteq> Some i"
proof -
  from interleavedC_inv [OF assms(1,2)] have "list_all (ownsC N s) ts" by (simp add: invSysC_def)
  then have "ownsC N s (ts ! t)" using assms(3) by (rule list_all_nth)
  with assms(6) have "slotStateC N s i = ClaimedByConsumer"
    by (simp add: ownsC_def slotStateC_def)
  moreover from assms(6) have "ownedSlotC (ts ! t) = Some i" by (rule consumer_owned)
  with assms(1-5) have "ownedSlotC (ts ! u) \<noteq> Some i" by (rule interleavedC_exclusive)
  ultimately show ?thesis ..
qed

section \<open>Backpressure\<close>

text \<open>
  C1. In every state that threads of revision A reach, in any order of their
  steps, and in every state that a single caller of revision A or B reaches
  (\<open>N = 0\<close> is left out: the remainder by zero is undefined in C++): when the
  queue is full, that is \<open>(tail + 1) mod N = head\<close>, a call of \<^verbatim>\<open>push\<close> that runs
  from that state returns false and the queue is what it was before the call
  (every slot and flag, \<open>head\<close>, \<open>tail\<close>, and the counter and the exclusion flag as
  well); when it is empty, that is \<open>head = tail\<close>, \<^verbatim>\<open>pop\<close> returns false, leaves
  the caller's variable alone, and the queue is what it was.
\<close>

theorem backpressure_full_and_empty:
  assumes "0 < N"
  shows "(interleavedA N d n (s, ts) \<longrightarrow>
            ((tail s + 1) mod N = head s \<longrightarrow> pushA N x s = Some (Inr (False, s))) \<and>
            (head s = tail s \<longrightarrow> popA N p s = Some (Inr (False, p, s)))) \<and>
         (reachableA N d a \<longrightarrow>
            ((tail a + 1) mod N = head a \<longrightarrow> pushA N x a = Some (Inr (False, a))) \<and>
            (head a = tail a \<longrightarrow> popA N p a = Some (Inr (False, p, a)))) \<and>
         (reachableB N d b \<longrightarrow>
            ((tail b + 1) mod N = head b \<longrightarrow> pushB N x b = Some (Inr (False, b))) \<and>
            (head b = tail b \<longrightarrow> popB N p b = Some (Inr (False, p, b))))"
proof (intro conjI impI)
  assume "interleavedA N d n (s, ts)"
  then have "canUpdate s" using assms by (rule interleavedA_canUpdate)
  then show "(tail s + 1) mod N = head s \<Longrightarrow> pushA N x s = Some (Inr (False, s))"
    and "head s = tail s \<Longrightarrow> popA N p s = Some (Inr (False, p, s))"
    by (simp_all add: pushA_full popA_empty)
next
  assume "reachableA N d a"
  with assms have "canUpdate a"
    using reachableA_invA [of N d a] by (simp add: invA_def)
  then show "(tail a + 1) mod N = head a \<Longrightarrow> pushA N x a = Some (Inr (False, a))"
    and "head a = tail a \<Longrightarrow> popA N p a = Some (Inr (False, p, a))"
    by (simp_all add: pushA_full popA_empty)
next
  assume "reachableB N d b"
  with assms have "canUpdate b"
    using reachableB_invB [of N d b] by (simp add: invB_def)
  then show "(tail b + 1) mod N = head b \<Longrightarrow> pushB N x b = Some (Inr (False, b))"
    and "head b = tail b \<Longrightarrow> popB N p b = Some (Inr (False, p, b))"
    by (simp_all add: pushB_full popB_empty)
qed

theorem backpressure_full_and_empty_witness:
  "0 < (4::nat) \<and>
   interleavedA 4 CHR ''-'' 1
     (\<lparr>buffer = ''ABC-'', head = 0, tail = 3, canUpdate = True,
        isBusy = [False, False, False, False], pendingData = 3\<rparr>, [Idle]) \<and>
   reachableA 4 CHR ''-'' \<lparr>buffer = ''ABC-'', head = 0, tail = 3, canUpdate = True,
        isBusy = [False, False, False, False], pendingData = 3\<rparr> \<and>
   reachableB 4 CHR ''-'' \<lparr>buffer = ''ABC-'', head = 0, tail = 3, canUpdate = True,
        isBusy = [False, False, False, False], pendingData = 3, pendingActions = 3\<rparr> \<and>
   pushA 4 CHR ''D'' \<lparr>buffer = ''ABC-'', head = 0, tail = 3, canUpdate = True,
        isBusy = [False, False, False, False], pendingData = 3\<rparr> =
     Some (Inr (False, \<lparr>buffer = ''ABC-'', head = 0, tail = 3, canUpdate = True,
        isBusy = [False, False, False, False], pendingData = 3\<rparr>)) \<and>
   popA 4 CHR ''?'' (initA 4 CHR ''-'') = Some (Inr (False, CHR ''?'', initA 4 CHR ''-'')) \<and>
   pushB 4 CHR ''D'' \<lparr>buffer = ''ABC-'', head = 0, tail = 3, canUpdate = True,
        isBusy = [False, False, False, False], pendingData = 3, pendingActions = 3\<rparr> =
     Some (Inr (False, \<lparr>buffer = ''ABC-'', head = 0, tail = 3, canUpdate = True,
        isBusy = [False, False, False, False], pendingData = 3, pendingActions = 3\<rparr>)) \<and>
   popB 4 CHR ''?'' (initB 4 CHR ''-'') = Some (Inr (False, CHR ''?'', initB 4 CHR ''-''))"
proof -
  let ?a = "\<lparr>buffer = ''ABC-'', head = 0, tail = 3, canUpdate = True,
        isBusy = [False, False, False, False], pendingData = 3\<rparr> :: char queueA"
  let ?b = "\<lparr>buffer = ''ABC-'', head = 0, tail = 3, canUpdate = True,
        isBusy = [False, False, False, False], pendingData = 3, pendingActions = 3\<rparr> :: char queueB"
  have n: "0 < (4::nat)" by simp
  note full = backpressure_full_and_empty [OF n, where d = "CHR ''-''" and n = 1 and s = ?a
      and ts = "[Idle]" and a = ?a and b = ?b and x = "CHR ''D''" and p = "CHR ''?''"]
  note empty = backpressure_full_and_empty [OF n, where d = "CHR ''-''" and n = 1
      and s = "initA 4 CHR ''-''" and ts = "[Idle]" and a = "initA 4 CHR ''-''"
      and b = "initB 4 CHR ''-''" and x = "CHR ''D''" and p = "CHR ''?''"]
  have ia: "interleavedA 4 CHR ''-'' 1 (?a, [Idle])"
    using three_pushesA n by (rule reachableA_interleavedA)
  have i0: "interleavedA 4 CHR ''-'' 1 (initA 4 CHR ''-'', [Idle])"
    using reachableA.fresh n by (rule reachableA_interleavedA)
  have "(tail ?a + 1) mod 4 = head ?a" "(tail ?b + 1) mod 4 = head ?b" by simp_all
  with full ia three_pushesB
  have "pushA 4 CHR ''D'' ?a = Some (Inr (False, ?a)) \<and> pushB 4 CHR ''D'' ?b = Some (Inr (False, ?b))"
    by blast
  moreover have "head (initA 4 CHR ''-'') = tail (initA 4 CHR ''-'')"
    "head (initB 4 CHR ''-'') = tail (initB 4 CHR ''-'')"
    by (simp_all add: initA_def initB_def)
  with empty i0 reachableB.freshB [of 4 "CHR ''-''"]
  have "popA 4 CHR ''?'' (initA 4 CHR ''-'') = Some (Inr (False, CHR ''?'', initA 4 CHR ''-'')) \<and>
        popB 4 CHR ''?'' (initB 4 CHR ''-'') = Some (Inr (False, CHR ''?'', initB 4 CHR ''-''))"
    by blast
  ultimately show ?thesis using ia three_pushesA three_pushesB by simp
qed

text \<open>
  C2. \<^verbatim>\<open>push\<close> of revisions A and B returns a boolean. In every state in which
  the caller can observe that the queue is full (the exclusion flag is free and
  \<open>(tail + 1) mod N = head\<close>), the first pass through the loop ends it with no
  index, with no call of \<^verbatim>\<open>backOff\<close>, and \<^verbatim>\<open>push\<close> returns false, the queue being
  what it was before the call. (Revision C's \<^verbatim>\<open>push\<close> returns nothing and is the
  variant that retries: see \<open>pushC_full_spins\<close>.)
\<close>

theorem push_returns_false_when_full:
  "(canUpdate a \<and> (tail a + 1) mod N = head a \<longrightarrow>
      pushIterA N (pushBeginA a) = Inr (None, False, pushBeginA a) \<and>
      pushA N x a = Some (Inr (False, a))) \<and>
   (canUpdate b \<and> (tail b + 1) mod N = head b \<longrightarrow>
      claimPush N (pushBeginB b\<lparr>canUpdate := False\<rparr>) =
        Inr (None, False, pushBeginB b\<lparr>canUpdate := False\<rparr>) \<and>
      pushB N x b = Some (Inr (False, b)))"
  by (simp add: pushA_full pushB_full pushIterA_full claimPush_full pushBeginA_def pushBeginB_def)

theorem push_returns_false_when_full_witness:
  "pushIterA 4 (pushBeginA \<lparr>buffer = ''ABC-'', head = 0, tail = 3, canUpdate = True,
        isBusy = [False, False, False, False], pendingData = 3\<rparr>) =
     Inr (None, False, pushBeginA \<lparr>buffer = ''ABC-'', head = 0, tail = 3, canUpdate = True,
        isBusy = [False, False, False, False], pendingData = 3\<rparr>) \<and>
   pushA 4 CHR ''D'' \<lparr>buffer = ''ABC-'', head = 0, tail = 3, canUpdate = True,
        isBusy = [False, False, False, False], pendingData = 3\<rparr> =
     Some (Inr (False, \<lparr>buffer = ''ABC-'', head = 0, tail = 3, canUpdate = True,
        isBusy = [False, False, False, False], pendingData = 3\<rparr>)) \<and>
   pushB 4 CHR ''D'' \<lparr>buffer = ''ABC-'', head = 0, tail = 3, canUpdate = True,
        isBusy = [False, False, False, False], pendingData = 3, pendingActions = 3\<rparr> =
     Some (Inr (False, \<lparr>buffer = ''ABC-'', head = 0, tail = 3, canUpdate = True,
        isBusy = [False, False, False, False], pendingData = 3, pendingActions = 3\<rparr>))"
proof -
  let ?a = "\<lparr>buffer = ''ABC-'', head = 0, tail = 3, canUpdate = True,
        isBusy = [False, False, False, False], pendingData = 3\<rparr> :: char queueA"
  let ?b = "\<lparr>buffer = ''ABC-'', head = 0, tail = 3, canUpdate = True,
        isBusy = [False, False, False, False], pendingData = 3, pendingActions = 3\<rparr> :: char queueB"
  note t = push_returns_false_when_full [where a = ?a and b = ?b and N = 4 and x = "CHR ''D''"]
  have "canUpdate ?a \<and> (tail ?a + 1) mod 4 = head ?a" by simp
  moreover have "canUpdate ?b \<and> (tail ?b + 1) mod 4 = head ?b" by simp
  ultimately show ?thesis using t by blast
qed

section \<open>The claim steps\<close>

text \<open>
  C3. For every queue state, the claim step of \<^verbatim>\<open>push\<close> computes the candidate
  \<open>(tail + 1) mod N\<close>. If the candidate is \<open>head\<close>, it claims nothing and changes
  nothing: in revisions A and B it ends the loop with no index (the full signal:
  \<^verbatim>\<open>keepTrying\<close> is false and \<^verbatim>\<open>pushIndex\<close> is empty), in revision C it returns no
  index. Otherwise, if the slot at \<open>tail\<close> is free, it claims the old \<open>tail\<close> and
  sets \<open>tail\<close> to the candidate, and the slot, which was free, is now claimed by
  a producer: revisions A and B set its \<^verbatim>\<open>_isBusy\<close> flag; revision C writes no
  flag, the slot is claimed by lying between \<open>head\<close> and \<open>tail\<close> with its
  \<^verbatim>\<open>_hasData\<close> flag clear. The index that the step returns is where the value is
  then written: the loop pass of revision A returns the old \<open>tail\<close>, and in the
  queue that \<^verbatim>\<open>push\<close> returns (all three revisions) the buffer holds the value at
  the old \<open>tail\<close> and \<open>tail\<close> is the candidate (in revision C the flag of the
  slot is then set). The conjunct on \<open>pushEndA\<close> is the commit of revision A on any claimed index. The
  last two conjuncts are what the claim is worth while threads run in any
  order (revisions A and C): the slot of a thread between its claim and its
  commit is claimed by a producer, and no other thread owns it.
\<close>

theorem push_claim_step:
  fixes s :: "('a, 'm) queueA_scheme" and a :: "'a queueA" and b :: "'a queueB"
    and c :: "'a queueC"
  shows
  "((tail s + 1) mod N = head s \<longrightarrow> claimPush N s = Inr (None, False, s)) \<and>
   ((tail s + 1) mod N \<noteq> head s \<and> tail s < length (isBusy s) \<and> \<not> isBusy s ! tail s \<longrightarrow>
      claimPush N s = Inr (Some (tail s), False,
        s\<lparr>isBusy := (isBusy s)[tail s := True], tail := (tail s + 1) mod N\<rparr>)) \<and>
   (head s < N \<and> tail s < N \<and> (tail s + 1) mod N \<noteq> head s \<and> tail s < length (isBusy s) \<and>
    \<not> isBusy s ! tail s \<longrightarrow>
      slotStateA N s (tail s) = SlotFree \<and>
      slotStateA N (s\<lparr>isBusy := (isBusy s)[tail s := True], tail := (tail s + 1) mod N\<rparr>) (tail s) =
        ClaimedByProducer) \<and>
   ((tail c + 1) mod N = head c \<longrightarrow> claimPushC N c = Inr (None, c)) \<and>
   ((tail c + 1) mod N \<noteq> head c \<and> tail c < length (hasData c) \<and> \<not> hasData c ! tail c \<longrightarrow>
      claimPushC N c = Inr (Some (tail c), c\<lparr>tail := (tail c + 1) mod N\<rparr>)) \<and>
   (head c < N \<and> tail c < N \<and> (tail c + 1) mod N \<noteq> head c \<and> \<not> hasData c ! tail c \<longrightarrow>
      slotStateC N c (tail c) = SlotFree \<and>
      slotStateC N (c\<lparr>tail := (tail c + 1) mod N\<rparr>) (tail c) = ClaimedByProducer) \<and>
   (canUpdate a \<and> (tail a + 1) mod N \<noteq> head a \<and> tail a < length (isBusy a) \<and>
    tail a < length (buffer a) \<and> \<not> isBusy a ! tail a \<longrightarrow>
      pushIterA N a = Inr (Some (tail a), False,
        a\<lparr>isBusy := (isBusy a)[tail a := True], tail := (tail a + 1) mod N\<rparr>) \<and>
      pushA N x a = Some (Inr (True, a\<lparr>buffer := (buffer a)[tail a := x],
        tail := (tail a + 1) mod N, pendingData := pendingData a + 1\<rparr>))) \<and>
   (canUpdate b \<and> (tail b + 1) mod N \<noteq> head b \<and> tail b < length (isBusy b) \<and>
    tail b < length (buffer b) \<and> \<not> isBusy b ! tail b \<longrightarrow>
      pushB N x b = Some (Inr (True, b\<lparr>buffer := (buffer b)[tail b := x],
        tail := (tail b + 1) mod N, pendingData := pendingData b + 1,
        pendingActions := pendingActions b + 1\<rparr>))) \<and>
   (canUpdate c \<and> (tail c + 1) mod N \<noteq> head c \<and> tail c < length (hasData c) \<and>
    tail c < length (buffer c) \<and> \<not> hasData c ! tail c \<longrightarrow>
      pushC N x c = Some (Inr ((), c\<lparr>buffer := (buffer c)[tail c := x],
        tail := (tail c + 1) mod N, pendingDataC := pendingDataC c + 1,
        pendingActionsC := pendingActionsC c + 1, hasData := (hasData c)[tail c := True]\<rparr>))) \<and>
   (i < length (buffer q) \<and> i < length (isBusy q) \<longrightarrow>
      pushEndA x (Some i, q) = Some (Inr (True, q\<lparr>buffer := (buffer q)[i := x],
        pendingData := pendingData q - 1, isBusy := (isBusy q)[i := False]\<rparr>))) \<and>
   (0 < N \<and> interleavedA N d n (sa, ts) \<and> t < length ts \<and> u < length ts \<and> u \<noteq> t \<and>
    producerSlot (ts ! t) = Some j \<longrightarrow>
      slotStateA N sa j = ClaimedByProducer \<and> ownedSlot (ts ! u) \<noteq> Some j) \<and>
   (0 < N \<and> interleavedC N d n (sc, us) \<and> t < length us \<and> u < length us \<and> u \<noteq> t \<and>
    producerSlotC (us ! t) = Some j \<longrightarrow>
      slotStateC N sc j = ClaimedByProducer \<and> ownedSlotC (us ! u) \<noteq> Some j)"
proof -
  have "(tail s + 1) mod N = head s \<longrightarrow> claimPush N s = Inr (None, False, s)"
    by (simp add: claimPush_full)
  moreover have "(tail s + 1) mod N \<noteq> head s \<and> tail s < length (isBusy s) \<and> \<not> isBusy s ! tail s \<longrightarrow>
      claimPush N s = Inr (Some (tail s), False,
        s\<lparr>isBusy := (isBusy s)[tail s := True], tail := (tail s + 1) mod N\<rparr>)"
    by (simp add: claimPush_free)
  moreover have "head s < N \<and> tail s < N \<and> (tail s + 1) mod N \<noteq> head s \<and>
      tail s < length (isBusy s) \<and> \<not> isBusy s ! tail s \<longrightarrow>
      slotStateA N s (tail s) = SlotFree \<and>
      slotStateA N (s\<lparr>isBusy := (isBusy s)[tail s := True], tail := (tail s + 1) mod N\<rparr>) (tail s) =
        ClaimedByProducer"
    using slotStateA_claim_push [of s N] by blast
  moreover have "(tail c + 1) mod N = head c \<longrightarrow> claimPushC N c = Inr (None, c)"
    by (simp add: claimPushC_full)
  moreover have "(tail c + 1) mod N \<noteq> head c \<and> tail c < length (hasData c) \<and> \<not> hasData c ! tail c \<longrightarrow>
      claimPushC N c = Inr (Some (tail c), c\<lparr>tail := (tail c + 1) mod N\<rparr>)"
    by (simp add: claimPushC_free)
  moreover have "head c < N \<and> tail c < N \<and> (tail c + 1) mod N \<noteq> head c \<and> \<not> hasData c ! tail c \<longrightarrow>
      slotStateC N c (tail c) = SlotFree \<and>
      slotStateC N (c\<lparr>tail := (tail c + 1) mod N\<rparr>) (tail c) = ClaimedByProducer"
    using slotStateC_claim_push [of c N] by blast
  moreover have "canUpdate a \<and> (tail a + 1) mod N \<noteq> head a \<and> tail a < length (isBusy a) \<and>
      tail a < length (buffer a) \<and> \<not> isBusy a ! tail a \<longrightarrow>
      pushIterA N a = Inr (Some (tail a), False,
        a\<lparr>isBusy := (isBusy a)[tail a := True], tail := (tail a + 1) mod N\<rparr>) \<and>
      pushA N x a = Some (Inr (True, a\<lparr>buffer := (buffer a)[tail a := x],
        tail := (tail a + 1) mod N, pendingData := pendingData a + 1\<rparr>))"
    using pushIterA_free [of a N] pushA_free [of a N x] by blast
  moreover have "canUpdate b \<and> (tail b + 1) mod N \<noteq> head b \<and> tail b < length (isBusy b) \<and>
      tail b < length (buffer b) \<and> \<not> isBusy b ! tail b \<longrightarrow>
      pushB N x b = Some (Inr (True, b\<lparr>buffer := (buffer b)[tail b := x],
        tail := (tail b + 1) mod N, pendingData := pendingData b + 1,
        pendingActions := pendingActions b + 1\<rparr>))"
    using pushB_free [of b N x] by blast
  moreover have "canUpdate c \<and> (tail c + 1) mod N \<noteq> head c \<and> tail c < length (hasData c) \<and>
      tail c < length (buffer c) \<and> \<not> hasData c ! tail c \<longrightarrow>
      pushC N x c = Some (Inr ((), c\<lparr>buffer := (buffer c)[tail c := x],
        tail := (tail c + 1) mod N, pendingDataC := pendingDataC c + 1,
        pendingActionsC := pendingActionsC c + 1, hasData := (hasData c)[tail c := True]\<rparr>))"
    using pushC_free [of c N x] by blast
  moreover have "i < length (buffer q) \<and> i < length (isBusy q) \<longrightarrow>
      pushEndA x (Some i, q) = Some (Inr (True, q\<lparr>buffer := (buffer q)[i := x],
        pendingData := pendingData q - 1, isBusy := (isBusy q)[i := False]\<rparr>))"
    by (simp add: pushEndA_claimed)
  moreover have "0 < N \<and> interleavedA N d n (sa, ts) \<and> t < length ts \<and> u < length ts \<and> u \<noteq> t \<and>
      producerSlot (ts ! t) = Some j \<longrightarrow>
      slotStateA N sa j = ClaimedByProducer \<and> ownedSlot (ts ! u) \<noteq> Some j"
    using interleavedA_producer [of N d n sa ts t u j] by blast
  moreover have "0 < N \<and> interleavedC N d n (sc, us) \<and> t < length us \<and> u < length us \<and> u \<noteq> t \<and>
      producerSlotC (us ! t) = Some j \<longrightarrow>
      slotStateC N sc j = ClaimedByProducer \<and> ownedSlotC (us ! u) \<noteq> Some j"
    using interleavedC_producer [of N d n sc us t u j] by blast
  ultimately show ?thesis by blast
qed

theorem push_claim_step_witness:
  "claimPush 4 \<lparr>buffer = ''ABC-'', head = 0, tail = 3, canUpdate = False,
        isBusy = [False, False, False, False], pendingData = 5\<rparr> =
     Inr (None, False, \<lparr>buffer = ''ABC-'', head = 0, tail = 3, canUpdate = False,
        isBusy = [False, False, False, False], pendingData = 5\<rparr>) \<and>
   claimPush 4 \<lparr>buffer = ''A---'', head = 0, tail = 1, canUpdate = False,
        isBusy = [False, False, False, False], pendingData = 3\<rparr> =
     Inr (Some 1, False, \<lparr>buffer = ''A---'', head = 0, tail = 2, canUpdate = False,
        isBusy = [False, True, False, False], pendingData = 3\<rparr>) \<and>
   slotStateA 4 \<lparr>buffer = ''A---'', head = 0, tail = 1, canUpdate = False,
        isBusy = [False, False, False, False], pendingData = 3\<rparr> 1 = SlotFree \<and>
   slotStateA 4 \<lparr>buffer = ''A---'', head = 0, tail = 2, canUpdate = False,
        isBusy = [False, True, False, False], pendingData = 3\<rparr> 1 = ClaimedByProducer \<and>
   claimPushC 4 \<lparr>buffer = ''ABC-'', head = 0, tail = 3, canUpdate = True,
        hasData = [True, True, True, False], pendingActionsC = 3, pendingDataC = 3\<rparr> =
     Inr (None, \<lparr>buffer = ''ABC-'', head = 0, tail = 3, canUpdate = True,
        hasData = [True, True, True, False], pendingActionsC = 3, pendingDataC = 3\<rparr>) \<and>
   claimPushC 4 \<lparr>buffer = ''A---'', head = 0, tail = 1, canUpdate = True,
        hasData = [True, False, False, False], pendingActionsC = 1, pendingDataC = 1\<rparr> =
     Inr (Some 1, \<lparr>buffer = ''A---'', head = 0, tail = 2, canUpdate = True,
        hasData = [True, False, False, False], pendingActionsC = 1, pendingDataC = 1\<rparr>) \<and>
   slotStateC 4 \<lparr>buffer = ''A---'', head = 0, tail = 1, canUpdate = True,
        hasData = [True, False, False, False], pendingActionsC = 1, pendingDataC = 1\<rparr> 1 = SlotFree \<and>
   slotStateC 4 \<lparr>buffer = ''A---'', head = 0, tail = 2, canUpdate = True,
        hasData = [True, False, False, False], pendingActionsC = 1, pendingDataC = 1\<rparr> 1 =
     ClaimedByProducer \<and>
   pushIterA 4 \<lparr>buffer = ''A---'', head = 0, tail = 1, canUpdate = True,
        isBusy = [False, False, False, False], pendingData = 1\<rparr> =
     Inr (Some 1, False, \<lparr>buffer = ''A---'', head = 0, tail = 2, canUpdate = True,
        isBusy = [False, True, False, False], pendingData = 1\<rparr>) \<and>
   pushA 4 CHR ''B'' \<lparr>buffer = ''A---'', head = 0, tail = 1, canUpdate = True,
        isBusy = [False, False, False, False], pendingData = 1\<rparr> =
     Some (Inr (True, \<lparr>buffer = ''AB--'', head = 0, tail = 2, canUpdate = True,
        isBusy = [False, False, False, False], pendingData = 2\<rparr>)) \<and>
   pushB 4 CHR ''B'' \<lparr>buffer = ''A---'', head = 0, tail = 1, canUpdate = True,
        isBusy = [False, False, False, False], pendingData = 1, pendingActions = 1\<rparr> =
     Some (Inr (True, \<lparr>buffer = ''AB--'', head = 0, tail = 2, canUpdate = True,
        isBusy = [False, False, False, False], pendingData = 2, pendingActions = 2\<rparr>)) \<and>
   pushC 4 CHR ''B'' \<lparr>buffer = ''A---'', head = 0, tail = 1, canUpdate = True,
        hasData = [True, False, False, False], pendingActionsC = 1, pendingDataC = 1\<rparr> =
     Some (Inr ((), \<lparr>buffer = ''AB--'', head = 0, tail = 2, canUpdate = True,
        hasData = [True, True, False, False], pendingActionsC = 2, pendingDataC = 2\<rparr>)) \<and>
   pushEndA CHR ''B'' (Some 1, \<lparr>buffer = ''A---'', head = 0, tail = 2, canUpdate = True,
        isBusy = [False, True, False, False], pendingData = 3\<rparr>) =
     Some (Inr (True, \<lparr>buffer = ''AB--'', head = 0, tail = 2, canUpdate = True,
        isBusy = [False, False, False, False], pendingData = 2\<rparr>)) \<and>
   interleavedA 4 CHR ''-'' 2
     (\<lparr>buffer = ''-B--'', head = 0, tail = 2, canUpdate = True,
        isBusy = [True, False, False, False], pendingData = 3\<rparr>,
      [PushClaimed CHR ''A'' 0, Idle]) \<and>
   producerSlot ([PushClaimed CHR ''A'' 0, Idle] ! 0) = Some 0 \<and>
   slotStateA 4 \<lparr>buffer = ''-B--'', head = 0, tail = 2, canUpdate = True,
        isBusy = [True, False, False, False], pendingData = 3\<rparr> 0 = ClaimedByProducer \<and>
   ownedSlot ([PushClaimed CHR ''A'' 0, Idle] ! 1) \<noteq> Some 0 \<and>
   interleavedC 4 CHR ''-'' 2
     (\<lparr>buffer = ''----'', head = 0, tail = 1, canUpdate = True,
        hasData = [False, False, False, False], pendingActionsC = 2, pendingDataC = 0\<rparr>,
      [PushClaimedC CHR ''A'' 0, PoppingC 1]) \<and>
   producerSlotC ([PushClaimedC CHR ''A'' 0, PoppingC 1] ! 0) = Some 0 \<and>
   slotStateC 4 \<lparr>buffer = ''----'', head = 0, tail = 1, canUpdate = True,
        hasData = [False, False, False, False], pendingActionsC = 2, pendingDataC = 0\<rparr> 0 =
     ClaimedByProducer \<and>
   ownedSlotC ([PushClaimedC CHR ''A'' 0, PoppingC 1] ! 1) \<noteq> Some 0"
proof -
  let ?sa = "\<lparr>buffer = ''-B--'', head = 0, tail = 2, canUpdate = True,
        isBusy = [True, False, False, False], pendingData = 3\<rparr> :: char queueA"
  let ?ts = "[PushClaimed CHR ''A'' 0, Idle] :: char pcA list"
  let ?sc = "\<lparr>buffer = ''----'', head = 0, tail = 1, canUpdate = True,
        hasData = [False, False, False, False], pendingActionsC = 2, pendingDataC = 0\<rparr> :: char queueC"
  let ?us = "[PushClaimedC CHR ''A'' 0, PoppingC 1] :: char pcC list"
  let ?full = "\<lparr>buffer = ''ABC-'', head = 0, tail = 3, canUpdate = False,
        isBusy = [False, False, False, False], pendingData = 5\<rparr> :: char queueA"
  let ?free = "\<lparr>buffer = ''A---'', head = 0, tail = 1, canUpdate = False,
        isBusy = [False, False, False, False], pendingData = 3\<rparr> :: char queueA"
  let ?claimed = "\<lparr>buffer = ''A---'', head = 0, tail = 2, canUpdate = True,
        isBusy = [False, True, False, False], pendingData = 3\<rparr> :: char queueA"
  let ?cfull = "\<lparr>buffer = ''ABC-'', head = 0, tail = 3, canUpdate = True,
        hasData = [True, True, True, False], pendingActionsC = 3, pendingDataC = 3\<rparr> :: char queueC"
  let ?c = "\<lparr>buffer = ''A---'', head = 0, tail = 1, canUpdate = True,
        hasData = [True, False, False, False], pendingActionsC = 1, pendingDataC = 1\<rparr> :: char queueC"
  let ?a = "\<lparr>buffer = ''A---'', head = 0, tail = 1, canUpdate = True,
        isBusy = [False, False, False, False], pendingData = 1\<rparr> :: char queueA"
  let ?b = "\<lparr>buffer = ''A---'', head = 0, tail = 1, canUpdate = True,
        isBusy = [False, False, False, False], pendingData = 1, pendingActions = 1\<rparr> :: char queueB"
  note f = push_claim_step [where s = ?full and N = 4 and c = ?cfull and a = ?a and b = ?b
      and i = 1 and q = ?claimed and x = "CHR ''B''" and d = "CHR ''-''" and n = 2
      and sa = ?sa and ts = ?ts and sc = ?sc and us = ?us and t = 0 and u = 1 and j = 0]
  note g = push_claim_step [where s = ?free and N = 4 and c = ?c and a = ?a and b = ?b
      and i = 1 and q = ?claimed and x = "CHR ''B''" and d = "CHR ''-''" and n = 2
      and sa = ?sa and ts = ?ts and sc = ?sc and us = ?us and t = 0 and u = 1 and j = 0]
  from f have "claimPush 4 ?full = Inr (None, False, ?full)" by simp
  moreover from g have "claimPush 4 ?free = Inr (Some 1, False,
      \<lparr>buffer = ''A---'', head = 0, tail = 2, canUpdate = False,
        isBusy = [False, True, False, False], pendingData = 3\<rparr>)" by simp
  moreover from g have "slotStateA 4 ?free 1 = SlotFree \<and>
      slotStateA 4 \<lparr>buffer = ''A---'', head = 0, tail = 2, canUpdate = False,
        isBusy = [False, True, False, False], pendingData = 3\<rparr> 1 = ClaimedByProducer" by (simp add: numeral_2_eq_2)
  moreover from f have "claimPushC 4 ?cfull = Inr (None, ?cfull)" by simp
  moreover from g have "claimPushC 4 ?c = Inr (Some 1,
      \<lparr>buffer = ''A---'', head = 0, tail = 2, canUpdate = True,
        hasData = [True, False, False, False], pendingActionsC = 1, pendingDataC = 1\<rparr>)" by simp
  moreover from g have "slotStateC 4 ?c 1 = SlotFree \<and>
      slotStateC 4 \<lparr>buffer = ''A---'', head = 0, tail = 2, canUpdate = True,
        hasData = [True, False, False, False], pendingActionsC = 1, pendingDataC = 1\<rparr> 1 =
      ClaimedByProducer" by (simp add: numeral_2_eq_2)
  moreover from g have "pushIterA 4 ?a = Inr (Some 1, False,
      \<lparr>buffer = ''A---'', head = 0, tail = 2, canUpdate = True,
        isBusy = [False, True, False, False], pendingData = 1\<rparr>)" by simp
  moreover from g have "pushA 4 CHR ''B'' ?a = Some (Inr (True,
      \<lparr>buffer = ''AB--'', head = 0, tail = 2, canUpdate = True,
        isBusy = [False, False, False, False], pendingData = 2\<rparr>))" by simp
  moreover from g have "pushB 4 CHR ''B'' ?b = Some (Inr (True,
      \<lparr>buffer = ''AB--'', head = 0, tail = 2, canUpdate = True,
        isBusy = [False, False, False, False], pendingData = 2, pendingActions = 2\<rparr>))" by simp
  moreover from g have "pushC 4 CHR ''B'' ?c = Some (Inr ((),
      \<lparr>buffer = ''AB--'', head = 0, tail = 2, canUpdate = True,
        hasData = [True, True, False, False], pendingActionsC = 2, pendingDataC = 2\<rparr>))" by simp
  moreover from g have "pushEndA CHR ''B'' (Some 1, ?claimed) =
      Some (Inr (True, \<lparr>buffer = ''AB--'', head = 0, tail = 2, canUpdate = True,
        isBusy = [False, False, False, False], pendingData = 2\<rparr>))" by simp
  moreover have pa: "producerSlot (?ts ! 0) = Some 0" by simp
  moreover have pc: "producerSlotC (?us ! 0) = Some 0" by simp
  moreover from g two_producers pa
  have "slotStateA 4 ?sa 0 = ClaimedByProducer \<and> ownedSlot (?ts ! 1) \<noteq> Some 0" by simp
  moreover from g consumer_retryingC pc
  have "slotStateC 4 ?sc 0 = ClaimedByProducer \<and> ownedSlotC (?us ! 1) \<noteq> Some 0" by simp
  ultimately show ?thesis using two_producers consumer_retryingC by blast
qed

text \<open>
  C4. For every queue state, the claim step of \<^verbatim>\<open>pop\<close>: if \<open>head = tail\<close> it claims
  nothing, changes nothing, and ends the loop with no index (empty). Otherwise,
  if the slot at \<open>head\<close> holds a committed value (its \<^verbatim>\<open>_isBusy\<close> flag is clear in
  revisions A and B, its \<^verbatim>\<open>_hasData\<close> flag is set in revision C), it claims the old
  \<open>head\<close> and sets \<open>head\<close> to \<open>(head + 1) mod N\<close>, and the slot, which was readable,
  is now claimed by the consumer: revisions A and B set its \<^verbatim>\<open>_isBusy\<close> flag;
  revision C writes no flag, the slot is claimed by lying outside \<open>head\<close> and
  \<open>tail\<close> with its \<^verbatim>\<open>_hasData\<close> flag still set. If the producer has not committed
  the slot at \<open>head\<close> (the slot is claimed by a producer), it claims nothing and
  changes nothing, and the loop goes on. The index that the step returns is
  where the value is then read: the loop pass of revision A returns the old
  \<open>head\<close>, and \<^verbatim>\<open>pop\<close> (all three revisions) returns the item of the buffer at the
  old \<open>head\<close>, with \<open>head\<close> advanced (in revision C the flag of the slot is then
  clear, and this is so when its two assertions on the counters hold). The conjunct on \<open>popEndA\<close> is the
  commit of revision A on any claimed index. The last two conjuncts are what
  the claim is worth while threads run in any order (revisions A and C): the
  slot of a thread between its claim and its release of the slot is claimed by
  a consumer, and no other thread owns it.
\<close>

theorem pop_claim_step:
  fixes s :: "('a, 'm) queueA_scheme" and a :: "'a queueA" and b :: "'a queueB"
    and c :: "'a queueC"
  shows
  "(head s = tail s \<longrightarrow> claimPop N s = Inr (None, False, s)) \<and>
   (head s \<noteq> tail s \<and> head s < length (isBusy s) \<and> \<not> isBusy s ! head s \<longrightarrow>
      claimPop N s = Inr (Some (head s), False,
        s\<lparr>isBusy := (isBusy s)[head s := True], head := (head s + 1) mod N\<rparr>)) \<and>
   (head s \<noteq> tail s \<and> head s < length (isBusy s) \<and> isBusy s ! head s \<longrightarrow>
      claimPop N s = Inr (None, True, s)) \<and>
   (head s < N \<and> tail s < N \<and> head s \<noteq> tail s \<and> head s < length (isBusy s) \<and>
    \<not> isBusy s ! head s \<longrightarrow>
      slotStateA N s (head s) = Readable \<and>
      slotStateA N (s\<lparr>isBusy := (isBusy s)[head s := True], head := (head s + 1) mod N\<rparr>) (head s) =
        ClaimedByConsumer) \<and>
   (head s < N \<and> tail s < N \<and> head s \<noteq> tail s \<and> isBusy s ! head s \<longrightarrow>
      slotStateA N s (head s) = ClaimedByProducer) \<and>
   (head c = tail c \<longrightarrow> claimPopC N c = Inr (None, False, c)) \<and>
   (head c \<noteq> tail c \<and> head c < length (hasData c) \<and> hasData c ! head c \<longrightarrow>
      claimPopC N c = Inr (Some (head c), False, c\<lparr>head := (head c + 1) mod N\<rparr>)) \<and>
   (head c \<noteq> tail c \<and> head c < length (hasData c) \<and> \<not> hasData c ! head c \<longrightarrow>
      claimPopC N c = Inr (None, True, c)) \<and>
   (head c < N \<and> tail c < N \<and> head c \<noteq> tail c \<and> hasData c ! head c \<longrightarrow>
      slotStateC N c (head c) = Readable \<and>
      slotStateC N (c\<lparr>head := (head c + 1) mod N\<rparr>) (head c) = ClaimedByConsumer) \<and>
   (head c < N \<and> tail c < N \<and> head c \<noteq> tail c \<and> \<not> hasData c ! head c \<longrightarrow>
      slotStateC N c (head c) = ClaimedByProducer) \<and>
   (canUpdate a \<and> head a \<noteq> tail a \<and> head a < length (isBusy a) \<and>
    head a < length (buffer a) \<and> \<not> isBusy a ! head a \<longrightarrow>
      popIterA N a = Inr (Some (head a), False,
        a\<lparr>isBusy := (isBusy a)[head a := True], head := (head a + 1) mod N\<rparr>) \<and>
      popA N p a = Some (Inr (True, buffer a ! head a,
        a\<lparr>head := (head a + 1) mod N, pendingData := pendingData a - 1\<rparr>))) \<and>
   (canUpdate b \<and> head b \<noteq> tail b \<and> head b < length (isBusy b) \<and>
    head b < length (buffer b) \<and> \<not> isBusy b ! head b \<longrightarrow>
      popB N p b = Some (Inr (True, buffer b ! head b,
        b\<lparr>head := (head b + 1) mod N, pendingData := pendingData b - 1,
          pendingActions := pendingActions b - 1\<rparr>))) \<and>
   (canUpdate c \<and> head c \<noteq> tail c \<and> head c < length (hasData c) \<and>
    head c < length (buffer c) \<and> hasData c ! head c \<and> 0 < pendingDataC c \<and>
    0 < pendingActionsC c \<longrightarrow>
      popC N p c = Some (Inr (True, buffer c ! head c,
        c\<lparr>head := (head c + 1) mod N, hasData := (hasData c)[head c := False],
          pendingDataC := pendingDataC c - 1, pendingActionsC := pendingActionsC c - 1\<rparr>))) \<and>
   (i < length (buffer q) \<and> i < length (isBusy q) \<longrightarrow>
      popEndA p (Some i, q) = Some (Inr (True, buffer q ! i,
        q\<lparr>pendingData := pendingData q - 1, isBusy := (isBusy q)[i := False]\<rparr>))) \<and>
   (0 < N \<and> interleavedA N d n (sa, ts) \<and> t < length ts \<and> u < length ts \<and> u \<noteq> t \<and>
    consumerSlot (ts ! t) = Some j \<longrightarrow>
      slotStateA N sa j = ClaimedByConsumer \<and> ownedSlot (ts ! u) \<noteq> Some j) \<and>
   (0 < N \<and> interleavedC N d n (sc, us) \<and> t < length us \<and> u < length us \<and> u \<noteq> t \<and>
    consumerSlotC (us ! t) = Some j \<longrightarrow>
      slotStateC N sc j = ClaimedByConsumer \<and> ownedSlotC (us ! u) \<noteq> Some j)"
proof -
  have "head s = tail s \<longrightarrow> claimPop N s = Inr (None, False, s)"
    by (simp add: claimPop_empty)
  moreover have "head s \<noteq> tail s \<and> head s < length (isBusy s) \<and> \<not> isBusy s ! head s \<longrightarrow>
      claimPop N s = Inr (Some (head s), False,
        s\<lparr>isBusy := (isBusy s)[head s := True], head := (head s + 1) mod N\<rparr>)"
    by (simp add: claimPop_ready)
  moreover have "head s \<noteq> tail s \<and> head s < length (isBusy s) \<and> isBusy s ! head s \<longrightarrow>
      claimPop N s = Inr (None, True, s)"
    by (simp add: claimPop_busy)
  moreover have "head s < N \<and> tail s < N \<and> head s \<noteq> tail s \<and> head s < length (isBusy s) \<and>
      \<not> isBusy s ! head s \<longrightarrow>
      slotStateA N s (head s) = Readable \<and>
      slotStateA N (s\<lparr>isBusy := (isBusy s)[head s := True], head := (head s + 1) mod N\<rparr>) (head s) =
        ClaimedByConsumer"
    using slotStateA_claim_pop [of s N] by blast
  moreover have "head s < N \<and> tail s < N \<and> head s \<noteq> tail s \<and> isBusy s ! head s \<longrightarrow>
      slotStateA N s (head s) = ClaimedByProducer"
    using slotStateA_busy_head [of s N] by blast
  moreover have "head c = tail c \<longrightarrow> claimPopC N c = Inr (None, False, c)"
    by (simp add: claimPopC_empty)
  moreover have "head c \<noteq> tail c \<and> head c < length (hasData c) \<and> hasData c ! head c \<longrightarrow>
      claimPopC N c = Inr (Some (head c), False, c\<lparr>head := (head c + 1) mod N\<rparr>)"
    by (simp add: claimPopC_ready)
  moreover have "head c \<noteq> tail c \<and> head c < length (hasData c) \<and> \<not> hasData c ! head c \<longrightarrow>
      claimPopC N c = Inr (None, True, c)"
    by (simp add: claimPopC_unwritten)
  moreover have "head c < N \<and> tail c < N \<and> head c \<noteq> tail c \<and> hasData c ! head c \<longrightarrow>
      slotStateC N c (head c) = Readable \<and>
      slotStateC N (c\<lparr>head := (head c + 1) mod N\<rparr>) (head c) = ClaimedByConsumer"
    using slotStateC_claim_pop [of c N] by blast
  moreover have "head c < N \<and> tail c < N \<and> head c \<noteq> tail c \<and> \<not> hasData c ! head c \<longrightarrow>
      slotStateC N c (head c) = ClaimedByProducer"
    using slotStateC_unwritten_head [of c N] by blast
  moreover have "canUpdate a \<and> head a \<noteq> tail a \<and> head a < length (isBusy a) \<and>
      head a < length (buffer a) \<and> \<not> isBusy a ! head a \<longrightarrow>
      popIterA N a = Inr (Some (head a), False,
        a\<lparr>isBusy := (isBusy a)[head a := True], head := (head a + 1) mod N\<rparr>) \<and>
      popA N p a = Some (Inr (True, buffer a ! head a,
        a\<lparr>head := (head a + 1) mod N, pendingData := pendingData a - 1\<rparr>))"
    using popIterA_ready [of a N] popA_ready [of a N p] by blast
  moreover have "canUpdate b \<and> head b \<noteq> tail b \<and> head b < length (isBusy b) \<and>
      head b < length (buffer b) \<and> \<not> isBusy b ! head b \<longrightarrow>
      popB N p b = Some (Inr (True, buffer b ! head b,
        b\<lparr>head := (head b + 1) mod N, pendingData := pendingData b - 1,
          pendingActions := pendingActions b - 1\<rparr>))"
    using popB_ready [of b N p] by blast
  moreover have "canUpdate c \<and> head c \<noteq> tail c \<and> head c < length (hasData c) \<and>
      head c < length (buffer c) \<and> hasData c ! head c \<and> 0 < pendingDataC c \<and>
      0 < pendingActionsC c \<longrightarrow>
      popC N p c = Some (Inr (True, buffer c ! head c,
        c\<lparr>head := (head c + 1) mod N, hasData := (hasData c)[head c := False],
          pendingDataC := pendingDataC c - 1, pendingActionsC := pendingActionsC c - 1\<rparr>))"
    using popC_ready [of c N p] by simp
  moreover have "i < length (buffer q) \<and> i < length (isBusy q) \<longrightarrow>
      popEndA p (Some i, q) = Some (Inr (True, buffer q ! i,
        q\<lparr>pendingData := pendingData q - 1, isBusy := (isBusy q)[i := False]\<rparr>))"
    by (simp add: popEndA_claimed)
  moreover have "0 < N \<and> interleavedA N d n (sa, ts) \<and> t < length ts \<and> u < length ts \<and> u \<noteq> t \<and>
      consumerSlot (ts ! t) = Some j \<longrightarrow>
      slotStateA N sa j = ClaimedByConsumer \<and> ownedSlot (ts ! u) \<noteq> Some j"
    using interleavedA_consumer [of N d n sa ts t u j] by blast
  moreover have "0 < N \<and> interleavedC N d n (sc, us) \<and> t < length us \<and> u < length us \<and> u \<noteq> t \<and>
      consumerSlotC (us ! t) = Some j \<longrightarrow>
      slotStateC N sc j = ClaimedByConsumer \<and> ownedSlotC (us ! u) \<noteq> Some j"
    using interleavedC_consumer [of N d n sc us t u j] by blast
  ultimately show ?thesis by blast
qed

theorem pop_claim_step_witness:
  "claimPop 4 \<lparr>buffer = ''ABC-'', head = 3, tail = 3, canUpdate = False,
        isBusy = [False, False, False, False], pendingData = 0\<rparr> =
     Inr (None, False, \<lparr>buffer = ''ABC-'', head = 3, tail = 3, canUpdate = False,
        isBusy = [False, False, False, False], pendingData = 0\<rparr>) \<and>
   claimPop 4 \<lparr>buffer = ''AB--'', head = 1, tail = 2, canUpdate = False,
        isBusy = [False, False, False, False], pendingData = 1\<rparr> =
     Inr (Some 1, False, \<lparr>buffer = ''AB--'', head = 2, tail = 2, canUpdate = False,
        isBusy = [False, True, False, False], pendingData = 1\<rparr>) \<and>
   claimPop 4 \<lparr>buffer = ''A---'', head = 1, tail = 2, canUpdate = False,
        isBusy = [False, True, False, False], pendingData = 2\<rparr> =
     Inr (None, True, \<lparr>buffer = ''A---'', head = 1, tail = 2, canUpdate = False,
        isBusy = [False, True, False, False], pendingData = 2\<rparr>) \<and>
   slotStateA 4 \<lparr>buffer = ''AB--'', head = 1, tail = 2, canUpdate = False,
        isBusy = [False, False, False, False], pendingData = 1\<rparr> 1 = Readable \<and>
   slotStateA 4 \<lparr>buffer = ''AB--'', head = 2, tail = 2, canUpdate = False,
        isBusy = [False, True, False, False], pendingData = 1\<rparr> 1 = ClaimedByConsumer \<and>
   slotStateA 4 \<lparr>buffer = ''A---'', head = 1, tail = 2, canUpdate = False,
        isBusy = [False, True, False, False], pendingData = 2\<rparr> 1 = ClaimedByProducer \<and>
   claimPopC 4 \<lparr>buffer = ''ABC-'', head = 3, tail = 3, canUpdate = True,
        hasData = [False, False, False, False], pendingActionsC = 0, pendingDataC = 0\<rparr> =
     Inr (None, False, \<lparr>buffer = ''ABC-'', head = 3, tail = 3, canUpdate = True,
        hasData = [False, False, False, False], pendingActionsC = 0, pendingDataC = 0\<rparr>) \<and>
   claimPopC 4 \<lparr>buffer = ''AB--'', head = 1, tail = 2, canUpdate = True,
        hasData = [False, True, False, False], pendingActionsC = 1, pendingDataC = 1\<rparr> =
     Inr (Some 1, False, \<lparr>buffer = ''AB--'', head = 2, tail = 2, canUpdate = True,
        hasData = [False, True, False, False], pendingActionsC = 1, pendingDataC = 1\<rparr>) \<and>
   claimPopC 4 \<lparr>buffer = ''A---'', head = 1, tail = 2, canUpdate = True,
        hasData = [False, False, False, False], pendingActionsC = 2, pendingDataC = 0\<rparr> =
     Inr (None, True, \<lparr>buffer = ''A---'', head = 1, tail = 2, canUpdate = True,
        hasData = [False, False, False, False], pendingActionsC = 2, pendingDataC = 0\<rparr>) \<and>
   slotStateC 4 \<lparr>buffer = ''AB--'', head = 1, tail = 2, canUpdate = True,
        hasData = [False, True, False, False], pendingActionsC = 1, pendingDataC = 1\<rparr> 1 = Readable \<and>
   slotStateC 4 \<lparr>buffer = ''AB--'', head = 2, tail = 2, canUpdate = True,
        hasData = [False, True, False, False], pendingActionsC = 1, pendingDataC = 1\<rparr> 1 =
     ClaimedByConsumer \<and>
   slotStateC 4 \<lparr>buffer = ''A---'', head = 1, tail = 2, canUpdate = True,
        hasData = [False, False, False, False], pendingActionsC = 2, pendingDataC = 0\<rparr> 1 =
     ClaimedByProducer \<and>
   popIterA 4 \<lparr>buffer = ''AB--'', head = 1, tail = 2, canUpdate = True,
        isBusy = [False, False, False, False], pendingData = 1\<rparr> =
     Inr (Some 1, False, \<lparr>buffer = ''AB--'', head = 2, tail = 2, canUpdate = True,
        isBusy = [False, True, False, False], pendingData = 1\<rparr>) \<and>
   popA 4 CHR ''?'' \<lparr>buffer = ''AB--'', head = 1, tail = 2, canUpdate = True,
        isBusy = [False, False, False, False], pendingData = 1\<rparr> =
     Some (Inr (True, CHR ''B'', \<lparr>buffer = ''AB--'', head = 2, tail = 2, canUpdate = True,
        isBusy = [False, False, False, False], pendingData = 0\<rparr>)) \<and>
   popB 4 CHR ''?'' \<lparr>buffer = ''AB--'', head = 1, tail = 2, canUpdate = True,
        isBusy = [False, False, False, False], pendingData = 1, pendingActions = 1\<rparr> =
     Some (Inr (True, CHR ''B'', \<lparr>buffer = ''AB--'', head = 2, tail = 2, canUpdate = True,
        isBusy = [False, False, False, False], pendingData = 0, pendingActions = 0\<rparr>)) \<and>
   popC 4 CHR ''?'' \<lparr>buffer = ''AB--'', head = 1, tail = 2, canUpdate = True,
        hasData = [False, True, False, False], pendingActionsC = 1, pendingDataC = 1\<rparr> =
     Some (Inr (True, CHR ''B'', \<lparr>buffer = ''AB--'', head = 2, tail = 2, canUpdate = True,
        hasData = [False, False, False, False], pendingActionsC = 0, pendingDataC = 0\<rparr>)) \<and>
   popEndA CHR ''?'' (Some 1, \<lparr>buffer = ''AB--'', head = 2, tail = 2, canUpdate = True,
        isBusy = [False, True, False, False], pendingData = 1\<rparr>) =
     Some (Inr (True, CHR ''B'', \<lparr>buffer = ''AB--'', head = 2, tail = 2, canUpdate = True,
        isBusy = [False, False, False, False], pendingData = 0\<rparr>)) \<and>
   interleavedA 4 CHR ''-'' 2
     (\<lparr>buffer = ''ABCD'', head = 1, tail = 0, canUpdate = True,
        isBusy = [True, False, False, False], pendingData = 4\<rparr>,
      [Idle, PopClaimed 0]) \<and>
   consumerSlot ([Idle :: char pcA, PopClaimed 0] ! 1) = Some 0 \<and>
   slotStateA 4 \<lparr>buffer = ''ABCD'', head = 1, tail = 0, canUpdate = True,
        isBusy = [True, False, False, False], pendingData = 4\<rparr> 0 = ClaimedByConsumer \<and>
   ownedSlot ([Idle :: char pcA, PopClaimed 0] ! 0) \<noteq> Some 0 \<and>
   interleavedC 4 CHR ''-'' 2
     (\<lparr>buffer = ''ABCD'', head = 1, tail = 0, canUpdate = True,
        hasData = [True, True, True, True], pendingActionsC = 4, pendingDataC = 4\<rparr>,
      [IdleC, PopClaimedC 0]) \<and>
   consumerSlotC ([IdleC :: char pcC, PopClaimedC 0] ! 1) = Some 0 \<and>
   slotStateC 4 \<lparr>buffer = ''ABCD'', head = 1, tail = 0, canUpdate = True,
        hasData = [True, True, True, True], pendingActionsC = 4, pendingDataC = 4\<rparr> 0 =
     ClaimedByConsumer \<and>
   ownedSlotC ([IdleC :: char pcC, PopClaimedC 0] ! 0) \<noteq> Some 0"
proof -
  let ?sa = "\<lparr>buffer = ''ABCD'', head = 1, tail = 0, canUpdate = True,
        isBusy = [True, False, False, False], pendingData = 4\<rparr> :: char queueA"
  let ?ts = "[Idle, PopClaimed 0] :: char pcA list"
  let ?sc = "\<lparr>buffer = ''ABCD'', head = 1, tail = 0, canUpdate = True,
        hasData = [True, True, True, True], pendingActionsC = 4, pendingDataC = 4\<rparr> :: char queueC"
  let ?us = "[IdleC, PopClaimedC 0] :: char pcC list"
  let ?empty = "\<lparr>buffer = ''ABC-'', head = 3, tail = 3, canUpdate = False,
        isBusy = [False, False, False, False], pendingData = 0\<rparr> :: char queueA"
  let ?ready = "\<lparr>buffer = ''AB--'', head = 1, tail = 2, canUpdate = False,
        isBusy = [False, False, False, False], pendingData = 1\<rparr> :: char queueA"
  let ?busy = "\<lparr>buffer = ''A---'', head = 1, tail = 2, canUpdate = False,
        isBusy = [False, True, False, False], pendingData = 2\<rparr> :: char queueA"
  let ?claimed = "\<lparr>buffer = ''AB--'', head = 2, tail = 2, canUpdate = True,
        isBusy = [False, True, False, False], pendingData = 1\<rparr> :: char queueA"
  let ?cempty = "\<lparr>buffer = ''ABC-'', head = 3, tail = 3, canUpdate = True,
        hasData = [False, False, False, False], pendingActionsC = 0, pendingDataC = 0\<rparr> :: char queueC"
  let ?c = "\<lparr>buffer = ''AB--'', head = 1, tail = 2, canUpdate = True,
        hasData = [False, True, False, False], pendingActionsC = 1, pendingDataC = 1\<rparr> :: char queueC"
  let ?cunwritten = "\<lparr>buffer = ''A---'', head = 1, tail = 2, canUpdate = True,
        hasData = [False, False, False, False], pendingActionsC = 2, pendingDataC = 0\<rparr> :: char queueC"
  let ?a = "\<lparr>buffer = ''AB--'', head = 1, tail = 2, canUpdate = True,
        isBusy = [False, False, False, False], pendingData = 1\<rparr> :: char queueA"
  let ?b = "\<lparr>buffer = ''AB--'', head = 1, tail = 2, canUpdate = True,
        isBusy = [False, False, False, False], pendingData = 1, pendingActions = 1\<rparr> :: char queueB"
  note e = pop_claim_step [where s = ?empty and N = 4 and c = ?cempty and a = ?a and b = ?b
      and i = 1 and q = ?claimed and p = "CHR ''?''" and d = "CHR ''-''" and n = 2
      and sa = ?sa and ts = ?ts and sc = ?sc and us = ?us and t = 1 and u = 0 and j = 0]
  note r = pop_claim_step [where s = ?ready and N = 4 and c = ?c and a = ?a and b = ?b
      and i = 1 and q = ?claimed and p = "CHR ''?''" and d = "CHR ''-''" and n = 2
      and sa = ?sa and ts = ?ts and sc = ?sc and us = ?us and t = 1 and u = 0 and j = 0]
  note u = pop_claim_step [where s = ?busy and N = 4 and c = ?cunwritten and a = ?a and b = ?b
      and i = 1 and q = ?claimed and p = "CHR ''?''" and d = "CHR ''-''" and n = 2
      and sa = ?sa and ts = ?ts and sc = ?sc and us = ?us and t = 1 and u = 0 and j = 0]
  from e have "claimPop 4 ?empty = Inr (None, False, ?empty)" by simp
  moreover from r have "claimPop 4 ?ready = Inr (Some 1, False,
      \<lparr>buffer = ''AB--'', head = 2, tail = 2, canUpdate = False,
        isBusy = [False, True, False, False], pendingData = 1\<rparr>)" by simp
  moreover from u have "claimPop 4 ?busy = Inr (None, True, ?busy)" by simp
  moreover from r have "slotStateA 4 ?ready 1 = Readable \<and>
      slotStateA 4 \<lparr>buffer = ''AB--'', head = 2, tail = 2, canUpdate = False,
        isBusy = [False, True, False, False], pendingData = 1\<rparr> 1 = ClaimedByConsumer"
    by (simp add: numeral_2_eq_2)
  moreover from u have "slotStateA 4 ?busy 1 = ClaimedByProducer" by simp
  moreover from e have "claimPopC 4 ?cempty = Inr (None, False, ?cempty)" by simp
  moreover from r have "claimPopC 4 ?c = Inr (Some 1, False,
      \<lparr>buffer = ''AB--'', head = 2, tail = 2, canUpdate = True,
        hasData = [False, True, False, False], pendingActionsC = 1, pendingDataC = 1\<rparr>)" by simp
  moreover from u have "claimPopC 4 ?cunwritten = Inr (None, True, ?cunwritten)" by simp
  moreover from r have "slotStateC 4 ?c 1 = Readable \<and>
      slotStateC 4 \<lparr>buffer = ''AB--'', head = 2, tail = 2, canUpdate = True,
        hasData = [False, True, False, False], pendingActionsC = 1, pendingDataC = 1\<rparr> 1 =
      ClaimedByConsumer"
    by (simp add: numeral_2_eq_2)
  moreover from u have "slotStateC 4 ?cunwritten 1 = ClaimedByProducer" by simp
  moreover from r have "popIterA 4 ?a = Inr (Some 1, False,
      \<lparr>buffer = ''AB--'', head = 2, tail = 2, canUpdate = True,
        isBusy = [False, True, False, False], pendingData = 1\<rparr>)" by simp
  moreover from r have "popA 4 CHR ''?'' ?a = Some (Inr (True, CHR ''B'',
      \<lparr>buffer = ''AB--'', head = 2, tail = 2, canUpdate = True,
        isBusy = [False, False, False, False], pendingData = 0\<rparr>))" by simp
  moreover from r have "popB 4 CHR ''?'' ?b = Some (Inr (True, CHR ''B'',
      \<lparr>buffer = ''AB--'', head = 2, tail = 2, canUpdate = True,
        isBusy = [False, False, False, False], pendingData = 0, pendingActions = 0\<rparr>))" by simp
  moreover from r have "popC 4 CHR ''?'' ?c = Some (Inr (True, CHR ''B'',
      \<lparr>buffer = ''AB--'', head = 2, tail = 2, canUpdate = True,
        hasData = [False, False, False, False], pendingActionsC = 0, pendingDataC = 0\<rparr>))" by simp
  moreover from r have "popEndA CHR ''?'' (Some 1, ?claimed) =
      Some (Inr (True, CHR ''B'', \<lparr>buffer = ''AB--'', head = 2, tail = 2, canUpdate = True,
        isBusy = [False, False, False, False], pendingData = 0\<rparr>))" by simp
  moreover have ca: "consumerSlot (?ts ! 1) = Some 0" by simp
  moreover have cc: "consumerSlotC (?us ! 1) = Some 0" by simp
  moreover from r consumer_in_flightA ca
  have "slotStateA 4 ?sa 0 = ClaimedByConsumer \<and> ownedSlot (?ts ! 0) \<noteq> Some 0" by simp
  moreover from r consumer_in_flightC cc
  have "slotStateC 4 ?sc 0 = ClaimedByConsumer \<and> ownedSlotC (?us ! 0) \<noteq> Some 0" by simp
  ultimately show ?thesis using consumer_in_flightA consumer_in_flightC by blast
qed

section \<open>The pending-data counter\<close>

text \<open>
  C5, as the code has it. The claim as stated fails in the middle of a \<^verbatim>\<open>push\<close>:
  revision A adds 2 to \<^verbatim>\<open>_pendingData\<close> before it looks for a slot (line 43, "We
  intentionally use 2 here") and takes 1 back at the commit. On a fresh queue of
  size 4, once one thread's \<^verbatim>\<open>push\<close> has announced itself the counter is 2, no slot
  holds a committed value, and \<^verbatim>\<open>hasData\<close> returns true.
\<close>

theorem counter_during_push:
  "interleavedA 4 CHR ''-'' 1
     (pushBeginA (initA 4 CHR ''-''), [Pushing CHR ''A'' sleepDurationStartA]) \<and>
   pendingData (pushBeginA (initA 4 CHR ''-'')) = 2 \<and>
   committedA 4 (pushBeginA (initA 4 CHR ''-'')) = 0 \<and>
   hasDataA (pushBeginA (initA 4 CHR ''-''))"
proof -
  have "committedA 4 (pushBeginA (initA 4 CHR ''-'')) = 0"
    by (simp add: committedA_def pushBeginA_def initA_def ringRange_def)
  with one_producer_announced show ?thesis
    by (simp add: pushBeginA_def initA_def hasDataA_def)
qed

text \<open>
  C5, amended. In every state that any number of threads of revision A reach,
  in any order of their steps, the counter is the number of slots that hold a
  committed, unread value plus what the calls in progress have pending: 2 for a
  \<^verbatim>\<open>push\<close> from its announcement to its update of the counter or its abort, 1 for
  a \<^verbatim>\<open>push\<close> from that update to its release of the slot, 1 for a \<^verbatim>\<open>pop\<close> from
  its claim to its update of the counter. So when no thread has anything
  pending, in particular when no call is in progress, the counter is the number
  of committed, unread slots, and \<^verbatim>\<open>hasData\<close> returns true exactly when there is
  such a slot. The same holds between the calls of a single caller of revision
  B and of revision C (for C with \<open>bufferSize\<close> within the range of \<^verbatim>\<open>size_t\<close>);
  once a \<^verbatim>\<open>push\<close> of revision B has announced itself its counter is 1 higher.
\<close>

theorem counter_between_calls:
  assumes "0 < N"
  shows "(interleavedA N d n (s, ts) \<longrightarrow>
            pendingData s = int (committedA N s) + sum_list (map pendingA ts) \<and>
            (list_all (\<lambda>p. pendingA p = 0) ts \<longrightarrow>
               pendingData s = int (committedA N s) \<and> (hasDataA s \<longleftrightarrow> 0 < committedA N s))) \<and>
         (reachableA N d a \<longrightarrow>
            pendingData a = int (committedA N a) \<and> (hasDataA a \<longleftrightarrow> 0 < committedA N a) \<and>
            pendingData (pushBeginA a) = int (committedA N (pushBeginA a)) + 2) \<and>
         (reachableB N d b \<longrightarrow>
            pendingData b = int (committedA N b) \<and> (hasDataB b \<longleftrightarrow> 0 < committedA N b) \<and>
            pendingData (pushBeginB b) = int (committedA N (pushBeginB b)) + 1) \<and>
         (reachableC N d c \<longrightarrow>
            pendingDataC c = of_nat (committedC c) \<and>
            (N \<le> 2 ^ 64 \<longrightarrow> (hasDataC c \<longleftrightarrow> 0 < committedC c)))"
proof (intro conjI impI)
  assume i: "interleavedA N d n (s, ts)"
  from i assms show eq: "pendingData s = int (committedA N s) + sum_list (map pendingA ts)"
    by (rule interleavedA_counter)
  assume "list_all (\<lambda>p. pendingA p = 0) ts"
  then have "sum_list (map pendingA ts) = 0" by (rule nothing_pending)
  with eq show "pendingData s = int (committedA N s)" and "hasDataA s \<longleftrightarrow> 0 < committedA N s"
    by (simp_all add: hasDataA_def)
next
  assume "reachableA N d a"
  with assms have "invA N a" by (simp add: reachableA_invA)
  then have eq: "pendingData a = int (committedA N a)" by (rule invA_counter)
  then show "pendingData a = int (committedA N a)"
    and "hasDataA a \<longleftrightarrow> 0 < committedA N a"
    and "pendingData (pushBeginA a) = int (committedA N (pushBeginA a)) + 2"
    by (simp_all add: hasDataA_def committedA_pushBeginA) (simp add: pushBeginA_def)
next
  assume "reachableB N d b"
  with assms have "invB N b" by (simp add: reachableB_invB)
  then have eq: "pendingData b = int (committedA N b)" by (rule invB_counter)
  then show "pendingData b = int (committedA N b)"
    and "hasDataB b \<longleftrightarrow> 0 < committedA N b"
    and "pendingData (pushBeginB b) = int (committedA N (pushBeginB b)) + 1"
    by (simp_all add: hasDataB_def committedA_pushBeginB) (simp add: pushBeginB_def)
next
  assume "reachableC N d c"
  with assms have inv: "invC N c" by (simp add: reachableC_invC)
  then show eq: "pendingDataC c = of_nat (committedC c)" by (rule invC_counter)
  assume "N \<le> 2 ^ 64"
  with inv have "committedC c < 2 ^ 64"
    using invC_committed_less [of N c] by simp
  with eq show "hasDataC c \<longleftrightarrow> 0 < committedC c"
    by (simp add: hasDataC_def word_of_nat_pos)
qed

theorem counter_between_calls_witness:
  "0 < (4::nat) \<and> (4::nat) \<le> 2 ^ 64 \<and>
   interleavedA 4 CHR ''-'' 2
     (\<lparr>buffer = ''-B--'', head = 0, tail = 2, canUpdate = True,
        isBusy = [True, False, False, False], pendingData = 3\<rparr>,
      [PushClaimed CHR ''A'' 0, Idle]) \<and>
   interleavedA 4 CHR ''-'' 1
     (\<lparr>buffer = ''ABC-'', head = 0, tail = 3, canUpdate = True,
        isBusy = [False, False, False, False], pendingData = 3\<rparr>, [Idle]) \<and>
   list_all (\<lambda>p. pendingA p = 0) [Idle :: char pcA] \<and>
   reachableB 4 CHR ''-'' \<lparr>buffer = ''ABC-'', head = 0, tail = 3, canUpdate = True,
        isBusy = [False, False, False, False], pendingData = 3, pendingActions = 3\<rparr> \<and>
   reachableC 4 CHR ''-'' \<lparr>buffer = ''ABC-'', head = 0, tail = 3, canUpdate = True,
     hasData = [True, True, True, False], pendingActionsC = 3, pendingDataC = 3\<rparr> \<and>
   pendingData \<lparr>buffer = ''-B--'', head = 0, tail = 2, canUpdate = True,
        isBusy = [True, False, False, False], pendingData = 3\<rparr> =
     int (committedA 4 \<lparr>buffer = ''-B--'', head = 0, tail = 2, canUpdate = True,
        isBusy = [True, False, False, False], pendingData = 3\<rparr>) + 2 \<and>
   committedA 4 \<lparr>buffer = ''ABC-'', head = 0, tail = 3, canUpdate = True,
        isBusy = [False, False, False, False], pendingData = 3\<rparr> = 3 \<and>
   hasDataA \<lparr>buffer = ''ABC-'', head = 0, tail = 3, canUpdate = True,
        isBusy = [False, False, False, False], pendingData = 3\<rparr> \<and>
   committedA 4 \<lparr>buffer = ''ABC-'', head = 0, tail = 3, canUpdate = True,
        isBusy = [False, False, False, False], pendingData = 3, pendingActions = 3\<rparr> = 3 \<and>
   committedC \<lparr>buffer = ''ABC-'', head = 0, tail = 3, canUpdate = True,
     hasData = [True, True, True, False], pendingActionsC = 3, pendingDataC = 3\<rparr> = 3 \<and>
   hasDataC \<lparr>buffer = ''ABC-'', head = 0, tail = 3, canUpdate = True,
     hasData = [True, True, True, False], pendingActionsC = 3, pendingDataC = 3\<rparr>"
proof -
  let ?s = "\<lparr>buffer = ''-B--'', head = 0, tail = 2, canUpdate = True,
        isBusy = [True, False, False, False], pendingData = 3\<rparr> :: char queueA"
  let ?a = "\<lparr>buffer = ''ABC-'', head = 0, tail = 3, canUpdate = True,
        isBusy = [False, False, False, False], pendingData = 3\<rparr> :: char queueA"
  let ?b = "\<lparr>buffer = ''ABC-'', head = 0, tail = 3, canUpdate = True,
        isBusy = [False, False, False, False], pendingData = 3, pendingActions = 3\<rparr> :: char queueB"
  let ?c = "\<lparr>buffer = ''ABC-'', head = 0, tail = 3, canUpdate = True,
     hasData = [True, True, True, False], pendingActionsC = 3, pendingDataC = 3\<rparr> :: char queueC"
  have n: "0 < (4::nat)" by simp
  have m: "(4::nat) \<le> 2 ^ 64" by simp
  note busy = counter_between_calls [OF n, where d = "CHR ''-''" and n = 2 and s = ?s
      and ts = "[PushClaimed CHR ''A'' 0, Idle]" and a = ?a and b = ?b and c = ?c]
  note quiet = counter_between_calls [OF n, where d = "CHR ''-''" and n = 1 and s = ?a
      and ts = "[Idle]" and a = ?a and b = ?b and c = ?c]
  from busy two_producers have "pendingData ?s = int (committedA 4 ?s) + 2" by simp
  moreover have ia: "interleavedA 4 CHR ''-'' 1 (?a, [Idle])"
    using three_pushesA n by (rule reachableA_interleavedA)
  with quiet have "pendingData ?a = int (committedA 4 ?a) \<and> hasDataA ?a = (0 < committedA 4 ?a)"
    by simp
  then have "committedA 4 ?a = 3 \<and> hasDataA ?a" by simp
  moreover from busy three_pushesB have "committedA 4 ?b = 3" by simp
  moreover have "committedC ?c = 3" by (simp add: committedC_def)
  moreover from busy three_pushesC m have "hasDataC ?c \<longleftrightarrow> 0 < committedC ?c" by blast
  ultimately show ?thesis using n m ia two_producers three_pushesB three_pushesC by simp
qed

section \<open>Bounded occupancy\<close>

text \<open>
  C6, as the code has it. The claim as stated fails in a state that two threads
  reach at \<open>N = 4\<close>: one thread pushes A, B and C; the other calls \<^verbatim>\<open>pop\<close> and
  claims slot 0, which moves \<open>head\<close> to 1, and has not read the slot yet; the
  first thread then pushes D, which the full check allows since
  \<open>(3 + 1) mod 4 = 0\<close> is not \<open>head\<close>. Four pushes have returned and no value has
  been read: in revision C all four \<^verbatim>\<open>_hasData\<close> flags are set, more than \<open>N - 1\<close>;
  in revision A slots 1, 2 and 3 are readable, slot 0 still holds A for the
  consumer that has claimed it, and the counter \<^verbatim>\<open>_pendingData\<close> is 4. The next
  step of the consumer is the read of A from slot 0 (last two conjuncts).
\<close>

theorem full_ring_with_consumer_in_flight:
  "interleavedC 4 CHR ''-'' 2
     (\<lparr>buffer = ''ABCD'', head = 1, tail = 0, canUpdate = True,
        hasData = [True, True, True, True], pendingActionsC = 4, pendingDataC = 4\<rparr>,
      [IdleC, PopClaimedC 0]) \<and>
   committedC \<lparr>buffer = ''ABCD'', head = 1, tail = 0, canUpdate = True,
        hasData = [True, True, True, True], pendingActionsC = 4, pendingDataC = 4\<rparr> = 4 \<and>
   \<not> committedC \<lparr>buffer = ''ABCD'', head = 1, tail = 0, canUpdate = True,
        hasData = [True, True, True, True], pendingActionsC = 4, pendingDataC = 4\<rparr> \<le> 4 - 1 \<and>
   interleavedA 4 CHR ''-'' 2
     (\<lparr>buffer = ''ABCD'', head = 1, tail = 0, canUpdate = True,
        isBusy = [True, False, False, False], pendingData = 4\<rparr>,
      [Idle, PopClaimed 0]) \<and>
   map (slotStateA 4 \<lparr>buffer = ''ABCD'', head = 1, tail = 0, canUpdate = True,
        isBusy = [True, False, False, False], pendingData = 4\<rparr>) [0, 1, 2, 3] =
     [ClaimedByConsumer, Readable, Readable, Readable] \<and>
   \<not> pendingData \<lparr>buffer = ''ABCD'', head = 1, tail = 0, canUpdate = True,
        isBusy = [True, False, False, False], pendingData = 4\<rparr> \<le> 4 - 1 \<and>
   stepC 4
     (\<lparr>buffer = ''ABCD'', head = 1, tail = 0, canUpdate = True,
        hasData = [True, True, True, True], pendingActionsC = 4, pendingDataC = 4\<rparr>,
      [IdleC, PopClaimedC 0])
     (\<lparr>buffer = ''ABCD'', head = 1, tail = 0, canUpdate = True,
        hasData = [True, True, True, True], pendingActionsC = 4, pendingDataC = 4\<rparr>,
      [IdleC, PopReadC 0 CHR ''A'']) \<and>
   stepA 4
     (\<lparr>buffer = ''ABCD'', head = 1, tail = 0, canUpdate = True,
        isBusy = [True, False, False, False], pendingData = 4\<rparr>,
      [Idle, PopClaimed 0])
     (\<lparr>buffer = ''ABCD'', head = 1, tail = 0, canUpdate = True,
        isBusy = [True, False, False, False], pendingData = 4\<rparr>,
      [Idle, PopRead 0 CHR ''A''])"
proof -
  have "stepC 4
     (\<lparr>buffer = ''ABCD'', head = 1, tail = 0, canUpdate = True,
        hasData = [True, True, True, True], pendingActionsC = 4, pendingDataC = 4\<rparr>,
      [IdleC, PopClaimedC 0])
     (\<lparr>buffer = ''ABCD'', head = 1, tail = 0, canUpdate = True,
        hasData = [True, True, True, True], pendingActionsC = 4, pendingDataC = 4\<rparr>,
      [IdleC, PopClaimedC 0][1 := PopReadC 0 (buffer \<lparr>buffer = ''ABCD'', head = 1, tail = 0,
        canUpdate = True, hasData = [True, True, True, True], pendingActionsC = 4,
        pendingDataC = 4\<rparr> ! 0)])"
    by (rule stepC.popReadC) simp_all
  then have rc: "stepC 4
     (\<lparr>buffer = ''ABCD'', head = 1, tail = 0, canUpdate = True,
        hasData = [True, True, True, True], pendingActionsC = 4, pendingDataC = 4\<rparr>,
      [IdleC, PopClaimedC 0])
     (\<lparr>buffer = ''ABCD'', head = 1, tail = 0, canUpdate = True,
        hasData = [True, True, True, True], pendingActionsC = 4, pendingDataC = 4\<rparr>,
      [IdleC, PopReadC 0 CHR ''A''])"
    by simp
  have "stepA 4
     (\<lparr>buffer = ''ABCD'', head = 1, tail = 0, canUpdate = True,
        isBusy = [True, False, False, False], pendingData = 4\<rparr>,
      [Idle, PopClaimed 0])
     (\<lparr>buffer = ''ABCD'', head = 1, tail = 0, canUpdate = True,
        isBusy = [True, False, False, False], pendingData = 4\<rparr>,
      [Idle, PopClaimed 0][1 := PopRead 0 (buffer \<lparr>buffer = ''ABCD'', head = 1, tail = 0,
        canUpdate = True, isBusy = [True, False, False, False], pendingData = 4\<rparr> ! 0)])"
    by (rule stepA.popRead) simp_all
  then have ra: "stepA 4
     (\<lparr>buffer = ''ABCD'', head = 1, tail = 0, canUpdate = True,
        isBusy = [True, False, False, False], pendingData = 4\<rparr>,
      [Idle, PopClaimed 0])
     (\<lparr>buffer = ''ABCD'', head = 1, tail = 0, canUpdate = True,
        isBusy = [True, False, False, False], pendingData = 4\<rparr>,
      [Idle, PopRead 0 CHR ''A''])"
    by simp
  have "committedC \<lparr>buffer = ''ABCD'', head = 1, tail = 0, canUpdate = True,
        hasData = [True, True, True, True], pendingActionsC = 4, pendingDataC = 4\<rparr> = 4"
    by (simp add: committedC_def)
  moreover have "map (slotStateA 4 \<lparr>buffer = ''ABCD'', head = 1, tail = 0, canUpdate = True,
        isBusy = [True, False, False, False], pendingData = 4\<rparr>) [0, 1, 2, 3] =
     [ClaimedByConsumer, Readable, Readable, Readable]"
    by code_simp
  ultimately show ?thesis
    using consumer_in_flightC consumer_in_flightA rc ra by simp
qed

text \<open>
  C6, amended. Count, along a run of any number of threads, the values that
  pushes have committed and that no pop has claimed yet. In revisions A and C
  this count is, in every state, the number of readable slots between \<open>head\<close>
  and \<open>tail\<close>, and it never exceeds \<open>N - 1\<close>: the usable capacity is \<open>N - 1\<close>,
  because a push claims no slot when \<open>(tail + 1) mod N = head\<close>. Every state that
  the threads reach has such a count. A slot that a consumer has claimed keeps
  its value until the consumer has read it: in revision C the slots whose
  \<^verbatim>\<open>_hasData\<close> flag is set are the readable slots and one slot for each consumer
  between its claim and line 100, so they number at most \<open>N\<close>, and no more than
  \<open>N - 1\<close> when no consumer is at that point. The states between the calls of
  a single caller are among those of one thread, and there the counter
  \<^verbatim>\<open>_pendingData\<close> (A and B) and the number of flagged slots (C) are at most
  \<open>N - 1\<close>. The capacity is reached: revision A reaches a state with \<open>N - 1\<close>
  readable slots, in which \<open>(tail + 1) mod N = head\<close> and \<^verbatim>\<open>push\<close> returns false.
\<close>

theorem unclaimed_values_bounded:
  assumes "0 < N"
  shows "(occupancyA N d n (s, ts) k \<longrightarrow> k = int (committedA N s) \<and> k \<le> int N - 1) \<and>
         (interleavedA N d n (s, ts) \<longrightarrow> occupancyA N d n (s, ts) (int (committedA N s))) \<and>
         (occupancyC N d n (c, us) j \<longrightarrow> j = int (readableC N c) \<and> j \<le> int N - 1) \<and>
         (interleavedC N d n (c, us) \<longrightarrow>
            occupancyC N d n (c, us) (int (readableC N c)) \<and>
            committedC c = readableC N c + length (filter (\<lambda>pc. consumerSlotC pc \<noteq> None) us) \<and>
            committedC c \<le> N) \<and>
         (reachableA N d a \<longrightarrow> interleavedA N d 1 (a, [Idle]) \<and> pendingData a \<le> int N - 1) \<and>
         (reachableB N d b \<longrightarrow> pendingData b \<le> int N - 1) \<and>
         (reachableC N d q \<longrightarrow> interleavedC N d 1 (q, [IdleC]) \<and> committedC q \<le> N - 1) \<and>
         (\<exists>f. reachableA N d f \<and> committedA N f = N - 1 \<and> (tail f + 1) mod N = head f \<and>
              pushA N x f = Some (Inr (False, f)))"
proof (intro conjI impI)
  assume o: "occupancyA N d n (s, ts) k"
  from occupancyA_committed [OF o assms] show "k = int (committedA N s)" by simp
  with committedA_le [OF assms, of s] assms show "k \<le> int N - 1" by simp
next
  assume "interleavedA N d n (s, ts)"
  from this assms show "occupancyA N d n (s, ts) (int (committedA N s))"
    by (rule interleavedA_occupancy_value)
next
  assume o: "occupancyC N d n (c, us) j"
  from occupancyC_readable [OF o assms] show "j = int (readableC N c)" by simp
  with readableC_le [OF assms, of c] assms show "j \<le> int N - 1" by simp
next
  assume "interleavedC N d n (c, us)"
  from this assms show "occupancyC N d n (c, us) (int (readableC N c))"
    by (rule interleavedC_occupancy_value)
next
  assume i: "interleavedC N d n (c, us)"
  from i assms have "invSysC N (c, us)" by (rule interleavedC_inv)
  then show "committedC c = readableC N c + length (filter (\<lambda>pc. consumerSlotC pc \<noteq> None) us)"
    by (rule flags_accounting)
next
  assume i: "interleavedC N d n (c, us)"
  from i assms have "invSysC N (c, us)" by (rule interleavedC_inv)
  then have "length (hasData c) = N" by (simp add: invSysC_def shapeC_def)
  moreover have "committedC c \<le> length (hasData c)" by (simp add: committedC_def)
  ultimately show "committedC c \<le> N" by simp
next
  assume "reachableA N d a"
  from this assms show "interleavedA N d 1 (a, [Idle])" by (rule reachableA_interleavedA)
next
  assume "reachableA N d a"
  with assms have "invA N a" by (simp add: reachableA_invA)
  then have "pendingData a = int (committedA N a)" by (rule invA_counter)
  with committedA_le [OF assms, of a] assms show "pendingData a \<le> int N - 1" by simp
next
  assume "reachableB N d b"
  with assms have "invB N b" by (simp add: reachableB_invB)
  then have "pendingData b = int (committedA N b)" by (rule invB_counter)
  with committedA_le [OF assms, of b] assms show "pendingData b \<le> int N - 1" by simp
next
  assume "reachableC N d q"
  from this assms show "interleavedC N d 1 (q, [IdleC])" by (rule reachableC_interleavedC)
next
  assume "reachableC N d q"
  with assms have "invC N q" by (simp add: reachableC_invC)
  then have "committedC q < N" by (rule invC_committed_less)
  then show "committedC q \<le> N - 1" by simp
next
  from assms have "N - 1 < N" by simp
  from reachableA_fill [OF assms this, where d = d]
  obtain f where f: "reachableA N d f" "head f = 0" "tail f = N - 1" by blast
  with assms have inv: "invA N f" by (simp add: reachableA_invA)
  from assms have "(N - 1 + 1) mod N = 0" by simp
  with f have full: "(tail f + 1) mod N = head f" by simp
  from inv have "committedA N f = (tail f + N - head f) mod N" by (rule committedA_invA)
  also from f have "\<dots> = (N - 1 + N - 0) mod N" by simp
  also from assms have "\<dots> = N - 1" by (rule ring_full_occupancy)
  finally have "committedA N f = N - 1" .
  moreover from inv full have "pushA N x f = Some (Inr (False, f))"
    by (simp add: invA_def pushA_full)
  ultimately show "\<exists>f. reachableA N d f \<and> committedA N f = N - 1 \<and> (tail f + 1) mod N = head f \<and>
      pushA N x f = Some (Inr (False, f))"
    using f full by blast
qed

theorem unclaimed_values_bounded_witness:
  "0 < (4::nat) \<and>
   interleavedA 4 CHR ''-'' 2
     (\<lparr>buffer = ''ABCD'', head = 1, tail = 0, canUpdate = True,
        isBusy = [True, False, False, False], pendingData = 4\<rparr>,
      [Idle, PopClaimed 0]) \<and>
   occupancyA 4 CHR ''-'' 2
     (\<lparr>buffer = ''ABCD'', head = 1, tail = 0, canUpdate = True,
        isBusy = [True, False, False, False], pendingData = 4\<rparr>,
      [Idle, PopClaimed 0]) 3 \<and>
   (3::int) \<le> int 4 - 1 \<and>
   interleavedC 4 CHR ''-'' 2
     (\<lparr>buffer = ''ABCD'', head = 1, tail = 0, canUpdate = True,
        hasData = [True, True, True, True], pendingActionsC = 4, pendingDataC = 4\<rparr>,
      [IdleC, PopClaimedC 0]) \<and>
   occupancyC 4 CHR ''-'' 2
     (\<lparr>buffer = ''ABCD'', head = 1, tail = 0, canUpdate = True,
        hasData = [True, True, True, True], pendingActionsC = 4, pendingDataC = 4\<rparr>,
      [IdleC, PopClaimedC 0]) 3 \<and>
   committedC \<lparr>buffer = ''ABCD'', head = 1, tail = 0, canUpdate = True,
        hasData = [True, True, True, True], pendingActionsC = 4, pendingDataC = 4\<rparr> =
     3 + length (filter (\<lambda>pc. consumerSlotC pc \<noteq> None) [IdleC :: char pcC, PopClaimedC 0]) \<and>
   reachableA 4 CHR ''-'' \<lparr>buffer = ''ABC-'', head = 0, tail = 3, canUpdate = True,
        isBusy = [False, False, False, False], pendingData = 3\<rparr> \<and>
   pendingData \<lparr>buffer = ''ABC-'', head = 0, tail = 3, canUpdate = True,
        isBusy = [False, False, False, False], pendingData = 3\<rparr> \<le> int 4 - 1 \<and>
   reachableB 4 CHR ''-'' \<lparr>buffer = ''ABC-'', head = 0, tail = 3, canUpdate = True,
        isBusy = [False, False, False, False], pendingData = 3, pendingActions = 3\<rparr> \<and>
   pendingData \<lparr>buffer = ''ABC-'', head = 0, tail = 3, canUpdate = True,
        isBusy = [False, False, False, False], pendingData = 3, pendingActions = 3\<rparr> \<le> int 4 - 1 \<and>
   reachableC 4 CHR ''-'' \<lparr>buffer = ''ABC-'', head = 0, tail = 3, canUpdate = True,
     hasData = [True, True, True, False], pendingActionsC = 3, pendingDataC = 3\<rparr> \<and>
   committedC \<lparr>buffer = ''ABC-'', head = 0, tail = 3, canUpdate = True,
     hasData = [True, True, True, False], pendingActionsC = 3, pendingDataC = 3\<rparr> \<le> 4 - 1 \<and>
   (\<exists>f. reachableA 4 CHR ''-'' f \<and> committedA 4 f = 4 - 1 \<and> (tail f + 1) mod 4 = head f \<and>
        pushA 4 CHR ''D'' f = Some (Inr (False, f)))"
proof -
  let ?s = "\<lparr>buffer = ''ABCD'', head = 1, tail = 0, canUpdate = True,
        isBusy = [True, False, False, False], pendingData = 4\<rparr> :: char queueA"
  let ?ts = "[Idle, PopClaimed 0] :: char pcA list"
  let ?c = "\<lparr>buffer = ''ABCD'', head = 1, tail = 0, canUpdate = True,
        hasData = [True, True, True, True], pendingActionsC = 4, pendingDataC = 4\<rparr> :: char queueC"
  let ?us = "[IdleC, PopClaimedC 0] :: char pcC list"
  let ?a = "\<lparr>buffer = ''ABC-'', head = 0, tail = 3, canUpdate = True,
        isBusy = [False, False, False, False], pendingData = 3\<rparr> :: char queueA"
  let ?b = "\<lparr>buffer = ''ABC-'', head = 0, tail = 3, canUpdate = True,
        isBusy = [False, False, False, False], pendingData = 3, pendingActions = 3\<rparr> :: char queueB"
  let ?q = "\<lparr>buffer = ''ABC-'', head = 0, tail = 3, canUpdate = True,
     hasData = [True, True, True, False], pendingActionsC = 3, pendingDataC = 3\<rparr> :: char queueC"
  have n: "0 < (4::nat)" by simp
  note t = unclaimed_values_bounded [OF n, where d = "CHR ''-''" and n = 2 and s = ?s and ts = ?ts
      and c = ?c and us = ?us and a = ?a and b = ?b and q = ?q and x = "CHR ''D''"
      and k = 3 and j = 3]
  from t consumer_in_flightA have "occupancyA 4 CHR ''-'' 2 (?s, ?ts) (int (committedA 4 ?s))"
    by blast
  then have oa: "occupancyA 4 CHR ''-'' 2 (?s, ?ts) 3"
    by (simp only: consumer_in_flightA_committed of_nat_numeral)
  with t have ka: "(3::int) \<le> int 4 - 1" by blast
  from t consumer_in_flightC have "occupancyC 4 CHR ''-'' 2 (?c, ?us) (int (readableC 4 ?c))"
    by blast
  then have oc: "occupancyC 4 CHR ''-'' 2 (?c, ?us) 3"
    by (simp only: consumer_in_flightC_readable of_nat_numeral)
  from t consumer_in_flightC have "committedC ?c =
      readableC 4 ?c + length (filter (\<lambda>pc. consumerSlotC pc \<noteq> None) ?us)" by blast
  then have fl: "committedC ?c = 3 + length (filter (\<lambda>pc. consumerSlotC pc \<noteq> None) ?us)"
    by (simp only: consumer_in_flightC_readable)
  from t three_pushesA have pa: "pendingData ?a \<le> int 4 - 1" by blast
  from t three_pushesB have pb: "pendingData ?b \<le> int 4 - 1" by blast
  from t three_pushesC have pc: "committedC ?q \<le> 4 - 1" by blast
  from t have "\<exists>f. reachableA 4 CHR ''-'' f \<and> committedA 4 f = 4 - 1 \<and>
      (tail f + 1) mod 4 = head f \<and> pushA 4 CHR ''D'' f = Some (Inr (False, f))" by blast
  with n oa ka oc fl pa pb pc consumer_in_flightA consumer_in_flightC three_pushesA
    three_pushesB three_pushesC
  show ?thesis by blast
qed

section \<open>The backoff\<close>

text \<open>
  C8. \<^verbatim>\<open>backOff\<close> is a private member; it is called only from the retry loops of
  \<^verbatim>\<open>push\<close> and \<^verbatim>\<open>pop\<close>, on the delay the loop holds, which starts at the starting
  value (\<open>-10\<close> in revision A, 0 in revisions B and C) and is replaced by the
  result of each call. So the delays it is given are the iterates
  \<open>(backOff ^^ k) start\<close>: this is how the loops are written, and it holds of the
  delay of every thread in every state that any number of threads reach
  (revisions A and C, the last two conjuncts). No iterate exceeds the maximum.
  On every delay \<open>d\<close> within the maximum, hence on every delay it is given:
  while \<open>d\<close> is below the maximum, the result is \<open>d\<close> plus the step; at the
  maximum, revision A returns the starting value (it wraps) and revisions B and
  C return the maximum (they saturate); and the result never exceeds the
  maximum, so neither the maximum plus one step. In revision A the three facts
  hold of every \<open>d\<close> whatever.
\<close>

theorem backOff_steps:
  "(d < maxSleepDurationA \<longrightarrow> backOffA d = d + sleepDurationStepA) \<and>
   (maxSleepDurationA \<le> d \<longrightarrow> backOffA d = sleepDurationStartA) \<and>
   backOffA d \<le> maxSleepDurationA \<and>
   backOffA d \<le> maxSleepDurationA + sleepDurationStepA \<and>
   (d < maxSleepDurationB \<longrightarrow> backOffB d = d + sleepDurationStepB) \<and>
   (d = maxSleepDurationB \<longrightarrow> backOffB d = maxSleepDurationB) \<and>
   (d \<le> maxSleepDurationB \<longrightarrow> backOffB d \<le> maxSleepDurationB \<and>
      backOffB d \<le> maxSleepDurationB + sleepDurationStepB) \<and>
   (d < maxSleepDurationC \<longrightarrow> backOffC d = d + sleepDurationStepC) \<and>
   (d = maxSleepDurationC \<longrightarrow> backOffC d = maxSleepDurationC) \<and>
   (d \<le> maxSleepDurationC \<longrightarrow> backOffC d \<le> maxSleepDurationC \<and>
      backOffC d \<le> maxSleepDurationC + sleepDurationStepC) \<and>
   (backOffA ^^ n) sleepDurationStartA \<le> maxSleepDurationA \<and>
   (backOffB ^^ n) 0 \<le> maxSleepDurationB \<and>
   (backOffC ^^ n) 0 \<le> maxSleepDurationC \<and>
   (interleavedA N q m (s, ts) \<and> t < length ts \<and> loopDelayA (ts ! t) = Some d \<longrightarrow>
      (\<exists>k. d = (backOffA ^^ k) sleepDurationStartA) \<and> d \<le> maxSleepDurationA) \<and>
   (interleavedC N q m (c, us) \<and> u < length us \<and> loopDelayC (us ! u) = Some d \<longrightarrow>
      (\<exists>k. d = (backOffC ^^ k) 0) \<and> d \<le> maxSleepDurationC)"
proof -
  have "d < maxSleepDurationA \<longrightarrow> backOffA d = d + sleepDurationStepA"
    by (simp add: backOffA_def)
  moreover have "maxSleepDurationA \<le> d \<longrightarrow> backOffA d = sleepDurationStartA"
    by (simp add: backOffA_def maxSleepDurationA_def sleepDurationStepA_def)
  moreover have "backOffA d \<le> maxSleepDurationA + sleepDurationStepA"
    using backOffA_le [of d] by (simp add: sleepDurationStepA_def)
  moreover have "(d < maxSleepDurationB \<longrightarrow> backOffB d = d + sleepDurationStepB) \<and>
      (d = maxSleepDurationB \<longrightarrow> backOffB d = maxSleepDurationB) \<and>
      (d \<le> maxSleepDurationB \<longrightarrow> backOffB d \<le> maxSleepDurationB \<and>
         backOffB d \<le> maxSleepDurationB + sleepDurationStepB)"
    by (simp add: backOffB_def maxSleepDurationB_def sleepDurationStepB_def)
  moreover have "(d < maxSleepDurationC \<longrightarrow> backOffC d = d + sleepDurationStepC) \<and>
      (d = maxSleepDurationC \<longrightarrow> backOffC d = maxSleepDurationC) \<and>
      (d \<le> maxSleepDurationC \<longrightarrow> backOffC d \<le> maxSleepDurationC \<and>
         backOffC d \<le> maxSleepDurationC + sleepDurationStepC)"
    by (simp add: backOffC_def maxSleepDurationC_def sleepDurationStepC_def)
  moreover have "interleavedA N q m (s, ts) \<and> t < length ts \<and> loopDelayA (ts ! t) = Some d \<longrightarrow>
      (\<exists>k. d = (backOffA ^^ k) sleepDurationStartA) \<and> d \<le> maxSleepDurationA"
  proof (intro impI)
    assume a: "interleavedA N q m (s, ts) \<and> t < length ts \<and> loopDelayA (ts ! t) = Some d"
    then have "\<exists>k. d = (backOffA ^^ k) sleepDurationStartA"
      using interleavedA_delay [of N q m s ts t d] by blast
    moreover from this obtain k where "d = (backOffA ^^ k) sleepDurationStartA" ..
    with backOffA_iterated [of k] have "d \<le> maxSleepDurationA" by simp
    ultimately show "(\<exists>k. d = (backOffA ^^ k) sleepDurationStartA) \<and> d \<le> maxSleepDurationA" ..
  qed
  moreover have "interleavedC N q m (c, us) \<and> u < length us \<and> loopDelayC (us ! u) = Some d \<longrightarrow>
      (\<exists>k. d = (backOffC ^^ k) 0) \<and> d \<le> maxSleepDurationC"
  proof (intro impI)
    assume a: "interleavedC N q m (c, us) \<and> u < length us \<and> loopDelayC (us ! u) = Some d"
    then have "\<exists>k. d = (backOffC ^^ k) 0"
      using interleavedC_delay [of N q m c us u d] by blast
    moreover from this obtain k where "d = (backOffC ^^ k) 0" ..
    with backOffC_iterated [of k] have "d \<le> maxSleepDurationC" by simp
    ultimately show "(\<exists>k. d = (backOffC ^^ k) 0) \<and> d \<le> maxSleepDurationC" ..
  qed
  ultimately show ?thesis
    using backOffA_le [of d] backOffA_iterated [of n] backOffB_iterated [of n]
      backOffC_iterated [of n]
    by blast
qed

theorem backOff_steps_witness:
  "backOffA (- 3) = - 2 \<and> backOffA 1 = - 10 \<and> backOffA 1 \<le> 1 + 1 \<and>
   backOffB 99 = 100 \<and> backOffB 100 = 100 \<and> backOffB 100 \<le> 100 + 1 \<and>
   backOffC 99 = 100 \<and> backOffC 100 = 100 \<and> backOffC 100 \<le> 100 + 1 \<and>
   (backOffA ^^ 12) (- 10) \<le> 1 \<and> (backOffB ^^ 101) 0 \<le> 100 \<and> (backOffC ^^ 101) 0 \<le> 100 \<and>
   interleavedA 4 CHR ''-'' 2
     (\<lparr>buffer = ''-B--'', head = 0, tail = 2, canUpdate = True,
        isBusy = [True, False, False, False], pendingData = 3\<rparr>,
      [PushClaimed CHR ''A'' 0, Popping (- 9)]) \<and>
   loopDelayA ([PushClaimed CHR ''A'' 0, Popping (- 9)] ! 1) = Some (- 9) \<and>
   (\<exists>k. - 9 = (backOffA ^^ k) (- 10)) \<and> (- 9 :: int) \<le> 1 \<and>
   interleavedC 4 CHR ''-'' 2
     (\<lparr>buffer = ''----'', head = 0, tail = 1, canUpdate = True,
        hasData = [False, False, False, False], pendingActionsC = 2, pendingDataC = 0\<rparr>,
      [PushClaimedC CHR ''A'' 0, PoppingC 1]) \<and>
   loopDelayC ([PushClaimedC CHR ''A'' 0, PoppingC 1] ! 1) = Some 1 \<and>
   (\<exists>k. 1 = (backOffC ^^ k) 0) \<and> (1 :: int) \<le> 100"
proof -
  let ?s = "\<lparr>buffer = ''-B--'', head = 0, tail = 2, canUpdate = True,
        isBusy = [True, False, False, False], pendingData = 3\<rparr> :: char queueA"
  let ?ts = "[PushClaimed CHR ''A'' 0, Popping (- 9)] :: char pcA list"
  let ?c = "\<lparr>buffer = ''----'', head = 0, tail = 1, canUpdate = True,
        hasData = [False, False, False, False], pendingActionsC = 2, pendingDataC = 0\<rparr> :: char queueC"
  let ?us = "[PushClaimedC CHR ''A'' 0, PoppingC 1] :: char pcC list"
  note lo = backOff_steps [where d = "- 3" and n = 12 and N = 4 and q = "CHR ''-''" and m = 2
      and s = ?s and ts = ?ts and t = 1 and c = ?c and us = ?us and u = 1]
  note mid = backOff_steps [where d = 99 and n = 101 and N = 4 and q = "CHR ''-''" and m = 2
      and s = ?s and ts = ?ts and t = 1 and c = ?c and us = ?us and u = 1]
  note hi = backOff_steps [where d = 100 and n = 101 and N = 4 and q = "CHR ''-''" and m = 2
      and s = ?s and ts = ?ts and t = 1 and c = ?c and us = ?us and u = 1]
  note one = backOff_steps [where d = 1 and n = 101 and N = 4 and q = "CHR ''-''" and m = 2
      and s = ?s and ts = ?ts and t = 1 and c = ?c and us = ?us and u = 1]
  note nine = backOff_steps [where d = "- 9" and n = 0 and N = 4 and q = "CHR ''-''" and m = 2
      and s = ?s and ts = ?ts and t = 1 and c = ?c and us = ?us and u = 1]
  have "backOffA (- 3) = - 2"
    using lo by (simp add: maxSleepDurationA_def sleepDurationStepA_def)
  moreover have "backOffA 1 = - 10 \<and> backOffA 1 \<le> 1 + 1"
    using one by (simp add: maxSleepDurationA_def sleepDurationStartA_def sleepDurationStepA_def)
  moreover have "backOffB 99 = 100 \<and> backOffC 99 = 100"
    using mid by (simp add: maxSleepDurationB_def sleepDurationStepB_def
        maxSleepDurationC_def sleepDurationStepC_def)
  moreover have "backOffB 100 = 100 \<and> backOffB 100 \<le> 100 + 1 \<and>
      backOffC 100 = 100 \<and> backOffC 100 \<le> 100 + 1"
    using hi by (simp add: maxSleepDurationB_def maxSleepDurationC_def
        sleepDurationStepB_def sleepDurationStepC_def)
  moreover have "(backOffA ^^ 12) (- 10) \<le> 1"
    using lo by (simp only: maxSleepDurationA_def sleepDurationStartA_def)
  moreover have "(backOffB ^^ 101) 0 \<le> 100 \<and> (backOffC ^^ 101) 0 \<le> 100"
    using hi by (simp only: maxSleepDurationB_def maxSleepDurationC_def)
  moreover have la: "loopDelayA (?ts ! 1) = Some (- 9)" by simp
  moreover have lc: "loopDelayC (?us ! 1) = Some 1" by simp
  moreover from nine consumer_retryingA la
  have "(\<exists>k. - 9 = (backOffA ^^ k) sleepDurationStartA) \<and> (- 9 :: int) \<le> maxSleepDurationA"
    by simp
  then have "(\<exists>k. - 9 = (backOffA ^^ k) (- 10)) \<and> (- 9 :: int) \<le> 1"
    by (simp only: maxSleepDurationA_def sleepDurationStartA_def)
  moreover from one consumer_retryingC lc
  have "(\<exists>k. 1 = (backOffC ^^ k) 0) \<and> (1 :: int) \<le> maxSleepDurationC"
    by simp
  then have "(\<exists>k. 1 = (backOffC ^^ k) 0) \<and> (1 :: int) \<le> 100"
    by (simp only: maxSleepDurationC_def)
  ultimately show ?thesis using consumer_retryingA consumer_retryingC by blast
qed

section \<open>A slot that is already owned\<close>

text \<open>
  C9, as the code has it. The claim as stated fails: no revision asserts or
  throws when it meets an owned slot. Two threads push A and B into a fresh
  queue of size 4; the first has claimed slot 0 and has not written yet, the
  second has committed B to slot 1. A pass of the loop of \<^verbatim>\<open>pop\<close> then meets the
  set flag of the slot at \<open>head\<close> and ends normally, with no index, \<^verbatim>\<open>keepTrying\<close>
  true and the queue as it was.
\<close>

theorem owned_slot_is_retried:
  "interleavedA 4 CHR ''-'' 2
     (\<lparr>buffer = ''-B--'', head = 0, tail = 2, canUpdate = True,
        isBusy = [True, False, False, False], pendingData = 3\<rparr>,
      [PushClaimed CHR ''A'' 0, Idle]) \<and>
   popIterA 4 \<lparr>buffer = ''-B--'', head = 0, tail = 2, canUpdate = True,
        isBusy = [True, False, False, False], pendingData = 3\<rparr> =
     Inr (None, True, \<lparr>buffer = ''-B--'', head = 0, tail = 2, canUpdate = True,
        isBusy = [True, False, False, False], pendingData = 3\<rparr>)"
  by (simp add: two_producers popIterA_busy)

text \<open>
  C9, amended. When the claim step of \<^verbatim>\<open>push\<close> or \<^verbatim>\<open>pop\<close> (revisions A and B)
  finds the flag of its slot set, it raises nothing: it claims no index, leaves
  \<^verbatim>\<open>keepTrying\<close> true, and leaves the whole queue as it was, so it neither
  overwrites the slot nor moves \<open>head\<close> or \<open>tail\<close> past it. The loop then backs off
  and tries again; with no other thread to release the slot, a call of revision
  A never returns. In every state that threads of revision A reach, a slot that
  a thread owns has its flag set and no other thread owns it.
\<close>

theorem owned_slot_claims_nothing:
  "((tail s + 1) mod N \<noteq> head s \<and> tail s < length (isBusy s) \<and> isBusy s ! tail s \<longrightarrow>
      claimPush N s = Inr (None, True, s)) \<and>
   (head s \<noteq> tail s \<and> head s < length (isBusy s) \<and> isBusy s ! head s \<longrightarrow>
      claimPop N s = Inr (None, True, s)) \<and>
   (canUpdate a \<and> (tail a + 1) mod N \<noteq> head a \<and> tail a < length (isBusy a) \<and> isBusy a ! tail a \<longrightarrow>
      pushIterA N a = Inr (None, True, a) \<and> pushA N x a = None) \<and>
   (canUpdate a \<and> head a \<noteq> tail a \<and> head a < length (isBusy a) \<and> isBusy a ! head a \<longrightarrow>
      popIterA N a = Inr (None, True, a) \<and> popA N p a = None) \<and>
   (0 < N \<and> interleavedA N d n (q, ts) \<and> t < length ts \<and> u < length ts \<and> u \<noteq> t \<and>
    ownedSlot (ts ! t) = Some i \<longrightarrow>
      isBusy q ! i \<and> ownedSlot (ts ! u) \<noteq> Some i)"
proof -
  have "0 < N \<and> interleavedA N d n (q, ts) \<and> t < length ts \<and> u < length ts \<and> u \<noteq> t \<and>
      ownedSlot (ts ! t) = Some i \<longrightarrow> isBusy q ! i \<and> ownedSlot (ts ! u) \<noteq> Some i"
    using interleavedA_owned_busy [of N d n q ts t i] interleavedA_exclusive [of N d n q ts t u i]
    by blast
  then show ?thesis
    by (simp add: claimPush_busy claimPop_busy pushIterA_busy popIterA_busy
        pushA_busy_spins popA_busy_spins)
qed

theorem owned_slot_claims_nothing_witness:
  "interleavedA 4 CHR ''-'' 2
     (\<lparr>buffer = ''-B--'', head = 0, tail = 2, canUpdate = True,
        isBusy = [True, False, False, False], pendingData = 3\<rparr>,
      [PushClaimed CHR ''A'' 0, Idle]) \<and>
   ownedSlot ([PushClaimed CHR ''A'' 0, Idle] ! 0) = Some 0 \<and>
   claimPop 4 \<lparr>buffer = ''-B--'', head = 0, tail = 2, canUpdate = True,
        isBusy = [True, False, False, False], pendingData = 3\<rparr> =
     Inr (None, True, \<lparr>buffer = ''-B--'', head = 0, tail = 2, canUpdate = True,
        isBusy = [True, False, False, False], pendingData = 3\<rparr>) \<and>
   popA 4 CHR ''?'' \<lparr>buffer = ''-B--'', head = 0, tail = 2, canUpdate = True,
        isBusy = [True, False, False, False], pendingData = 3\<rparr> = None \<and>
   claimPush 4 \<lparr>buffer = ''ABCD'', head = 2, tail = 0, canUpdate = True,
        isBusy = [True, False, False, False], pendingData = 2\<rparr> =
     Inr (None, True, \<lparr>buffer = ''ABCD'', head = 2, tail = 0, canUpdate = True,
        isBusy = [True, False, False, False], pendingData = 2\<rparr>) \<and>
   pushA 4 CHR ''E'' \<lparr>buffer = ''ABCD'', head = 2, tail = 0, canUpdate = True,
        isBusy = [True, False, False, False], pendingData = 2\<rparr> = None \<and>
   isBusy \<lparr>buffer = ''-B--'', head = 0, tail = 2, canUpdate = True,
        isBusy = [True, False, False, False], pendingData = 3\<rparr> ! 0 \<and>
   ownedSlot ([PushClaimed CHR ''A'' 0, Idle] ! 1) \<noteq> Some 0"
proof -
  let ?c = "\<lparr>buffer = ''-B--'', head = 0, tail = 2, canUpdate = True,
        isBusy = [True, False, False, False], pendingData = 3\<rparr> :: char queueA"
  let ?p = "\<lparr>buffer = ''ABCD'', head = 2, tail = 0, canUpdate = True,
        isBusy = [True, False, False, False], pendingData = 2\<rparr> :: char queueA"
  let ?ts = "[PushClaimed CHR ''A'' 0, Idle] :: char pcA list"
  note c = owned_slot_claims_nothing [where s = ?c and a = ?c and N = 4 and p = "CHR ''?''"
      and x = "CHR ''E''" and d = "CHR ''-''" and n = 2 and q = ?c and ts = ?ts
      and t = 0 and u = 1 and i = 0]
  note p = owned_slot_claims_nothing [where s = ?p and a = ?p and N = 4 and p = "CHR ''?''"
      and x = "CHR ''E''" and d = "CHR ''-''" and n = 2 and q = ?c and ts = ?ts
      and t = 0 and u = 1 and i = 0]
  have "head ?c \<noteq> tail ?c \<and> head ?c < length (isBusy ?c) \<and> isBusy ?c ! head ?c \<and> canUpdate ?c"
    by simp
  with c have "claimPop 4 ?c = Inr (None, True, ?c) \<and> popA 4 CHR ''?'' ?c = None"
    by blast
  moreover have "(tail ?p + 1) mod 4 \<noteq> head ?p \<and> tail ?p < length (isBusy ?p) \<and>
      isBusy ?p ! tail ?p \<and> canUpdate ?p"
    by simp
  with p have "claimPush 4 ?p = Inr (None, True, ?p) \<and> pushA 4 CHR ''E'' ?p = None"
    by blast
  moreover have own: "0 < (4::nat) \<and> (0::nat) < length ?ts \<and> (1::nat) < length ?ts \<and> (1::nat) \<noteq> 0 \<and>
      ownedSlot (?ts ! 0) = Some 0"
    by (simp add: ownedSlot_def)
  with c two_producers have "isBusy ?c ! 0 \<and> ownedSlot (?ts ! 1) \<noteq> Some 0"
    by blast
  ultimately show ?thesis using two_producers own by blast
qed

section \<open>The fresh queue\<close>

text \<open>
  C10. On a queue that has just been constructed, in the two revisions that have
  both counters and \<^verbatim>\<open>hasWork\<close> (C and B): \<open>head\<close> and \<open>tail\<close> are 0, the flag of every
  slot is clear, both counters are 0, \<^verbatim>\<open>hasData\<close> and \<^verbatim>\<open>hasWork\<close> return false, and
  the first \<^verbatim>\<open>pop\<close> returns false, leaves the caller's variable alone, and leaves
  the queue as it was. Revision A, which has the one counter and no \<^verbatim>\<open>hasWork\<close>,
  starts the same way.
\<close>

theorem fresh_queue:
  "head (initC N d) = 0 \<and> tail (initC N d) = 0 \<and>
   hasData (initC N d) = replicate N False \<and>
   pendingActionsC (initC N d) = 0 \<and> pendingDataC (initC N d) = 0 \<and>
   \<not> hasDataC (initC N d) \<and> \<not> hasWorkC (initC N d) \<and>
   popC N p (initC N d) = Some (Inr (False, p, initC N d)) \<and>
   head (initB N d) = 0 \<and> tail (initB N d) = 0 \<and>
   isBusy (initB N d) = replicate N False \<and>
   pendingActions (initB N d) = 0 \<and> pendingData (initB N d) = 0 \<and>
   \<not> hasDataB (initB N d) \<and> \<not> hasWorkB (initB N d) \<and>
   popB N p (initB N d) = Some (Inr (False, p, initB N d)) \<and>
   head (initA N d) = 0 \<and> tail (initA N d) = 0 \<and>
   isBusy (initA N d) = replicate N False \<and> pendingData (initA N d) = 0 \<and>
   \<not> hasDataA (initA N d) \<and>
   popA N p (initA N d) = Some (Inr (False, p, initA N d))"
proof -
  have "popC N p (initC N d) = Some (Inr (False, p, initC N d))"
    by (rule popC_empty) (simp_all add: initC_def)
  moreover have "popB N p (initB N d) = Some (Inr (False, p, initB N d))"
    by (rule popB_empty) (simp_all add: initB_def)
  moreover have "popA N p (initA N d) = Some (Inr (False, p, initA N d))"
    by (rule popA_empty) (simp_all add: initA_def)
  ultimately show ?thesis
    by (simp add: initA_def initB_def initC_def hasDataA_def hasDataB_def hasWorkB_def
        hasDataC_def hasWorkC_def)
qed

section \<open>The scenario of capacity four\<close>

text \<open>
  C7. A queue of revision A with \<open>bufferSize = 4\<close>, fresh, driven by one caller:
  the pushes of A, B and C return true, the fourth push returns false, the three
  pops that follow return true and yield A, B, C in that order, and the fourth
  pop returns false and leaves the caller's variable as it was.
\<close>

theorem scenario_capacity_four:
  "runA 4 CHR ''-''
     [Push CHR ''A'', Push CHR ''B'', Push CHR ''C'', Push CHR ''D'', Pop, Pop, Pop, Pop]
     (initA 4 CHR ''-'') =
   Some (Inr ([PushReturned True, PushReturned True, PushReturned True, PushReturned False,
               PopReturned True CHR ''A'', PopReturned True CHR ''B'',
               PopReturned True CHR ''C'', PopReturned False CHR ''-''],
              \<lparr>buffer = ''ABC-'', head = 3, tail = 3, canUpdate = True,
                 isBusy = [False, False, False, False], pendingData = 0\<rparr>))"
  by code_simp

end
